(* ===== verification/Prelude.thy ===== *)
theory Prelude
  imports Main "HOL-Library.Word" "HOL-Library.Multiset"
begin

text \<open>
  Shared vocabulary of the libtask development.

  \<^item> \<open>addr\<close> is a machine address; a C pointer of type \<open>T*\<close> is an \<open>addr option\<close>, with
    \<open>None\<close> for \<open>nil\<close>.
  \<^item> \<open>halt\<close> lists the ways the process can stop: \<open>abort()\<close> with the message printed just
    before it, a failed \<open>assert\<close>, \<open>exit(status)\<close>, and \<open>Segv\<close>, which stands for undefined
    behaviour of the C code (a dereference of nil or of freed memory, an index out of
    range, a division by zero). \<open>Diverge\<close> is the result of a loop that never ends. Nothing is ever proved to be safe by leaving such a case out:
    every dereference of the models goes through a function that returns \<open>Inl Segv\<close>.
  \<^item> \<open>halt + 'a\<close> is the result of code that cannot give up the processor; \<open>bindR\<close> sequences it
    and \<open>runs m P\<close> says that \<open>m\<close> returns normally with a value satisfying \<open>P\<close>.
  \<^item> \<open>co\<close> is the result of code that may give up the processor: it returns a value, or it has
    switched to the scheduler (\<open>Blocked\<close>, with the place to resume stored in the state), or the
    process has stopped.
\<close>

named_theorems wp \<open>rules that reduce a \<open>runs\<close> goal to its postcondition\<close>

type_synonym addr = "64 word"
type_synonym byte = "8 word"

datatype halt = Abort string | Assert string | Exit int | Segv | Diverge

subsection \<open>Results of code that cannot block\<close>

fun bindR :: "halt + 'a \<Rightarrow> ('a \<Rightarrow> halt + 'b) \<Rightarrow> halt + 'b" where
  "bindR (Inl h) f = Inl h"
| "bindR (Inr x) f = f x"

definition runs :: "halt + 'a \<Rightarrow> ('a \<Rightarrow> bool) \<Rightarrow> bool" where
  "runs m P \<longleftrightarrow> (case m of Inl _ \<Rightarrow> False | Inr x \<Rightarrow> P x)"

lemma runs_Inr [simp]: "runs (Inr x) P = P x"
  by (simp add: runs_def)

lemma runs_Inl [simp]: "\<not> runs (Inl h) P"
  by (simp add: runs_def)

lemma runs_iff: "runs m P \<longleftrightarrow> (\<exists>x. m = Inr x \<and> P x)"
  by (cases m) auto

lemma runs_bindR [simp]: "runs (bindR m f) P = runs m (\<lambda>x. runs (f x) P)"
  by (cases m) auto

lemma runs_mono: "runs m P \<Longrightarrow> (\<And>x. P x \<Longrightarrow> Q x) \<Longrightarrow> runs m Q"
  by (cases m) auto

lemma runs_ex: "runs m P \<Longrightarrow> \<exists>x. m = Inr x \<and> P x"
  by (simp add: runs_iff)

lemma bindR_assoc: "bindR (bindR m f) g = bindR m (\<lambda>x. bindR (f x) g)"
  by (cases m) auto

lemma bindR_eq_Inl: "bindR m f = Inl h \<longleftrightarrow> m = Inl h \<or> (\<exists>x. m = Inr x \<and> f x = Inl h)"
  by (cases m) auto

lemma bindR_eq_Inr: "bindR m f = Inr y \<longleftrightarrow> (\<exists>x. m = Inr x \<and> f x = Inr y)"
  by (cases m) auto

subsection \<open>Results of code that may block\<close>

datatype ('a, 's) co = Done 'a 's | Blocked 's | Halted halt

fun bindC :: "halt + 'b \<Rightarrow> ('b \<Rightarrow> ('a, 's) co) \<Rightarrow> ('a, 's) co" where
  "bindC (Inl h) f = Halted h"
| "bindC (Inr x) f = f x"

text \<open>Code whose last action is to switch to the scheduler.\<close>

fun blocks :: "halt + 's \<Rightarrow> ('a, 's) co" where
  "blocks (Inl h) = Halted h"
| "blocks (Inr s) = Blocked s"

text \<open>The C expression \<open>b\<close> used as an \<open>int\<close>.\<close>

definition cbool :: "bool \<Rightarrow> int" where
  "cbool b = (if b then 1 else 0)"

subsection \<open>Loops\<close>

text \<open>
  \<open>cloop body s\<close> is a C loop whose body either stops the process, or goes on with a new state
  (\<open>True\<close>), or leaves the loop (\<open>False\<close>). A loop that never ends has the result \<open>Inl Diverge\<close>,
  so \<open>runs (cloop body s) P\<close> includes termination.
\<close>

partial_function (option) loop_opt ::
  "('s \<Rightarrow> halt + bool \<times> 's) \<Rightarrow> 's \<Rightarrow> (halt + 's) option" where
  "loop_opt body s =
     (case body s of
        Inl h \<Rightarrow> Some (Inl h)
      | Inr r \<Rightarrow> (if fst r then loop_opt body (snd r) else Some (Inr (snd r))))"

definition cloop :: "('s \<Rightarrow> halt + bool \<times> 's) \<Rightarrow> 's \<Rightarrow> halt + 's" where
  "cloop body s = (case loop_opt body s of None \<Rightarrow> Inl Diverge | Some r \<Rightarrow> r)"

lemma cloop_unfold:
  "cloop body s =
     (case body s of
        Inl h \<Rightarrow> Inl h
      | Inr r \<Rightarrow> (if fst r then cloop body (snd r) else Inr (snd r)))"
  by (simp add: cloop_def loop_opt.simps [of body s] split: sum.split)

lemma cloop_runs:
  fixes m :: "'s \<Rightarrow> nat"
  assumes step: "\<And>s. I s \<Longrightarrow> runs (body s) (\<lambda>(c, s'). if c then I s' \<and> m s' < m s else Q s')"
  shows "I s \<Longrightarrow> runs (cloop body s) Q"
proof (induction "m s" arbitrary: s rule: less_induct)
  case less
  from step [OF less.prems] obtain c s' where
    "body s = Inr (c, s')" "if c then I s' \<and> m s' < m s else Q s'"
    by (auto simp: runs_iff)
  with less.hyps [of s'] show ?case
    by (cases c) (simp_all add: cloop_unfold [of body s])
qed

subsection \<open>Lists\<close>

text \<open>The first element of a list as a nilable pointer, and the last.\<close>

fun first :: "'a list \<Rightarrow> 'a option" where
  "first [] = None"
| "first (x # xs) = Some x"

definition final :: "'a list \<Rightarrow> 'a option" where
  "final xs = first (rev xs)"

lemma final_Nil [simp]: "final [] = None"
  by (simp add: final_def)

lemma final_snoc [simp]: "final (xs @ [x]) = Some x"
  by (simp add: final_def)

lemma first_eq_None [simp]: "first xs = None \<longleftrightarrow> xs = []"
  by (cases xs) auto

lemma first_eq_Some: "first xs = Some x \<longleftrightarrow> (\<exists>ys. xs = x # ys)"
  by (cases xs) auto

lemma first_append: "first (xs @ ys) = (case first xs of None \<Rightarrow> first ys | Some x \<Rightarrow> Some x)"
  by (cases xs) auto

lemma remove1_distinct_mid:
  "distinct (as @ t # bs) \<Longrightarrow> remove1 t (as @ t # bs) = as @ bs"
  by (induction as) auto

lemma set_remove1_distinct: "distinct xs \<Longrightarrow> set (remove1 x xs) = set xs - {x}"
  by (rule set_remove1_eq)

text \<open>
  Removing element \<open>i\<close> of an array by moving the last element into its place, as the code does
  for the task table, the queues of a channel and the poll set.
\<close>

definition swap_remove :: "'a list \<Rightarrow> nat \<Rightarrow> 'a list" where
  "swap_remove xs i = butlast (xs[i := last xs])"

lemma length_swap_remove [simp]: "length (swap_remove xs i) = length xs - 1"
  by (simp add: swap_remove_def)

lemma nth_swap_remove:
  "j < length xs - 1 \<Longrightarrow> swap_remove xs i ! j = (if j = i then last xs else xs ! j)"
  by (simp add: swap_remove_def nth_butlast nth_list_update)

lemma mset_swap_remove:
  assumes "i < length xs"
  shows "mset (swap_remove xs i) = mset xs - {#xs ! i#}"
proof -
  from assms obtain ys y where xs: "xs = ys @ [y]" by (cases xs rule: rev_cases) auto
  show ?thesis
  proof (cases "i = length ys")
    case True
    with xs show ?thesis by (simp add: swap_remove_def)
  next
    case False
    with assms xs have "i < length ys" by simp
    with xs show ?thesis
      by (simp add: swap_remove_def list_update_append mset_update nth_append nth_mem_mset)
  qed
qed

lemma distinct_swap_remove: "distinct xs \<Longrightarrow> i < length xs \<Longrightarrow> distinct (swap_remove xs i)"
  by (metis distinct_remove1 mset_eq_imp_distinct_iff mset_remove1 mset_swap_remove)

lemma set_swap_remove:
  "distinct xs \<Longrightarrow> i < length xs \<Longrightarrow> set (swap_remove xs i) = set xs - {xs ! i}"
  by (metis mset_eq_setD mset_remove1 mset_swap_remove set_remove1_eq)

lemma take_swap_remove:
  "0 < n \<Longrightarrow> n \<le> length a \<Longrightarrow> i < n \<Longrightarrow>
     take (n - 1) (a[i := a ! (n - 1)]) = swap_remove (take n a) i"
proof (rule nth_equalityI)
  assume n: "0 < n" "n \<le> length a" "i < n"
  then have "last (take n a) = a ! (n - 1)" by (subst last_conv_nth) auto
  with n show "j < length (take (n - 1) (a[i := a ! (n - 1)])) \<Longrightarrow>
      take (n - 1) (a[i := a ! (n - 1)]) ! j = swap_remove (take n a) i ! j" for j
    by (simp add: nth_swap_remove nth_list_update)
qed simp

end
