(* ===== verification/Tasklist.thy ===== *)
theory Tasklist
  imports Prelude
begin

text \<open>
  The \<open>Task\<close> structure of \<open>taskimpl.h\<close>, the heap of tasks, and the doubly linked task lists
  (\<open>Tasklist\<close> of \<open>task.h\<close>, \<open>addtask\<close> and \<open>deltask\<close> of \<open>task.c\<close>) on which the run queue, the
  wait queues of locks and rendezvous points and the list of sleeping tasks are built.
  The lemmas show that the pointer manipulation implements sequences: \<open>addtask\<close> appends and
  \<open>deltask\<close> removes one element, and every list that does not contain the task is untouched.
\<close>

subsection \<open>Where a task resumes\<close>

text \<open>
  A task that is not running is suspended inside a call of \<open>swapcontext\<close>. Its saved context
  (\<open>ucontext_t\<close>) is opaque to C; what matters is the place in the library at which it goes on
  when it is switched to, with the local variables still needed there. There is one
  constructor per such place.
\<close>

datatype frame =
    FStart "32 word" "32 word"
    \<comment> \<open>a new task: \<open>taskstart(y, x)\<close> is about to be entered\<close>
  | FYield int
    \<comment> \<open>in \<open>taskyield\<close>, with \<open>n\<close>\<close>
  | FExit
    \<comment> \<open>in \<open>taskexit\<close>; never resumed\<close>
  | FQlock addr
  | FRlock addr
  | FWlock addr
    \<comment> \<open>in \<open>_qlock\<close>, \<open>_rlock\<close>, \<open>_wlock\<close>, waiting for the lock at the address\<close>
  | FSleep addr
    \<comment> \<open>in \<open>tasksleep\<close>, on the \<open>Rendez\<close> at the address\<close>
  | FAlt addr
    \<comment> \<open>in \<open>chanalt\<close>, with the \<open>Alt\<close> array at the address\<close>
  | FDelay "64 word"
    \<comment> \<open>in \<open>taskdelay\<close>, with \<open>now\<close>\<close>
  | FFdwait int int
    \<comment> \<open>in \<open>fdwait(fd, rw)\<close>\<close>

datatype code = Taskmainstart | Fdtask | User addr
  \<comment> \<open>the functions a task can be started on; \<open>User\<close> is any function of the program\<close>

subsection \<open>The Task structure and the heap\<close>

record task =
  tname :: string
  tstate :: string
  nxt :: "addr option"
  prv :: "addr option"
  allnext :: "addr option"
  allprev :: "addr option"
  ctxt :: frame
  ss_sp :: addr
  ss_size :: "64 word"
  alarmtime :: "64 word"
  tid :: "32 word"
  stk :: addr
  stksize :: "32 word"
  exiting :: bool
  alltaskslot :: nat
  system :: bool
  ready :: bool
  startfn :: code
  startarg :: addr
  udata :: "addr option"

type_synonym heap = "addr \<Rightarrow> task option"

definition tget :: "addr \<Rightarrow> heap \<Rightarrow> halt + task" where
  "tget t h = (case h t of None \<Rightarrow> Inl Segv | Some tk \<Rightarrow> Inr tk)"

definition tset :: "addr \<Rightarrow> (task \<Rightarrow> task) \<Rightarrow> heap \<Rightarrow> halt + heap" where
  "tset t f h = (case h t of None \<Rightarrow> Inl Segv | Some tk \<Rightarrow> Inr (h(t \<mapsto> f tk)))"

record tasklist =
  head :: "addr option"
  tail :: "addr option"

subsection \<open>addtask and deltask\<close>

text \<open>
  \<open>Tasklist *l\<close> is passed and returned by value: a list structure is never reachable from a
  task, so nothing else can see it change during the call.
\<close>

definition addtask :: "tasklist \<Rightarrow> addr \<Rightarrow> heap \<Rightarrow> halt + tasklist \<times> heap" where
  "addtask l t h =
     bindR
       (case tail l of
          Some q \<Rightarrow>
            bindR (tset q (\<lambda>tk. tk\<lparr>nxt := Some t\<rparr>) h) (\<lambda>h.
            bindR (tset t (\<lambda>tk. tk\<lparr>prv := Some q\<rparr>) h) (\<lambda>h.
            Inr (l, h)))
        | None \<Rightarrow>
            bindR (tset t (\<lambda>tk. tk\<lparr>prv := None\<rparr>) h) (\<lambda>h.
            Inr (l\<lparr>head := Some t\<rparr>, h)))
       (\<lambda>(l, h).
     bindR (tset t (\<lambda>tk. tk\<lparr>nxt := None\<rparr>) h) (\<lambda>h.
     Inr (l\<lparr>tail := Some t\<rparr>, h)))"

definition deltask :: "tasklist \<Rightarrow> addr \<Rightarrow> heap \<Rightarrow> halt + tasklist \<times> heap" where
  "deltask l t h =
     bindR (tget t h) (\<lambda>tk.
     bindR
       (case prv tk of
          Some p \<Rightarrow> bindR (tset p (\<lambda>pk. pk\<lparr>nxt := nxt tk\<rparr>) h) (\<lambda>h. Inr (l, h))
        | None \<Rightarrow> Inr (l\<lparr>head := nxt tk\<rparr>, h))
       (\<lambda>(l, h).
     bindR (tget t h) (\<lambda>tk.
     case nxt tk of
       Some n \<Rightarrow> bindR (tset n (\<lambda>nk. nk\<lparr>prv := prv tk\<rparr>) h) (\<lambda>h. Inr (l, h))
     | None \<Rightarrow> Inr (l\<lparr>tail := prv tk\<rparr>, h))))"

subsection \<open>The sequence a list holds\<close>

text \<open>
  \<open>dseg h x p ts y q\<close>: from pointer \<open>x\<close> the \<open>nxt\<close> links run through exactly the tasks \<open>ts\<close> and
  arrive at \<open>y\<close>; the \<open>prv\<close> links run back, from \<open>q\<close> to \<open>p\<close>.
\<close>

fun dseg :: "heap \<Rightarrow> addr option \<Rightarrow> addr option \<Rightarrow> addr list \<Rightarrow> addr option \<Rightarrow> addr option \<Rightarrow> bool"
where
  "dseg h x p [] y q \<longleftrightarrow> x = y \<and> p = q"
| "dseg h x p (t # ts) y q \<longleftrightarrow>
     x = Some t \<and> (case h t of None \<Rightarrow> False
       | Some tk \<Rightarrow> prv tk = p \<and> dseg h (nxt tk) (Some t) ts y q)"

definition dll :: "heap \<Rightarrow> tasklist \<Rightarrow> addr list \<Rightarrow> bool" where
  "dll h l ts \<longleftrightarrow> dseg h (head l) None ts None (tail l) \<and> distinct ts"

lemma dseg_append:
  "dseg h x p (as @ bs) y q \<longleftrightarrow> (\<exists>m r. dseg h x p as m r \<and> dseg h m r bs y q)"
  by (induction as arbitrary: x p) (auto split: option.splits)

text \<open>Two heaps in which the links of the tasks of a list agree hold the same list.\<close>

definition same_links :: "heap \<Rightarrow> heap \<Rightarrow> addr \<Rightarrow> bool" where
  "same_links h h' t \<longleftrightarrow>
     map_option nxt (h' t) = map_option nxt (h t) \<and> map_option prv (h' t) = map_option prv (h t)"

lemma dseg_cong:
  "\<forall>t \<in> set ts. same_links h h' t \<Longrightarrow> dseg h' x p ts y q = dseg h x p ts y q"
  by (induction ts arbitrary: x p)
     (auto simp: same_links_def split: option.splits)

lemma dll_cong: "\<forall>t \<in> set ts. same_links h h' t \<Longrightarrow> dll h' l ts = dll h l ts"
  by (simp add: dll_def dseg_cong)

lemma same_links_refl [simp]: "same_links h h t"
  by (simp add: same_links_def)

lemma same_links_upd [simp]: "t \<noteq> u \<Longrightarrow> same_links h (h(u := v)) t"
  by (simp add: same_links_def)

lemma dseg_upd [simp]: "u \<notin> set ts \<Longrightarrow> dseg (h(u := v)) x p ts y q = dseg h x p ts y q"
  by (rule dseg_cong) (auto simp: same_links_def)

lemma dseg_in_dom: "dseg h x p ts y q \<Longrightarrow> set ts \<subseteq> dom h"
  by (induction ts arbitrary: x p) (auto split: option.splits)

lemma dll_in_dom: "dll h l ts \<Longrightarrow> set ts \<subseteq> dom h"
  by (auto simp: dll_def dest: dseg_in_dom)

lemma dll_distinct: "dll h l ts \<Longrightarrow> distinct ts"
  by (simp add: dll_def)

lemma dseg_first: "dseg h x p ts None q \<Longrightarrow> x = first ts"
  by (cases ts) auto

lemma dll_head: "dll h l ts \<Longrightarrow> head l = first ts"
  by (auto simp: dll_def dest: dseg_first)

lemma dseg_last: "dseg h x p ts y q \<Longrightarrow> q = (case final ts of None \<Rightarrow> p | Some t \<Rightarrow> Some t)"
  by (induction ts rule: rev_induct) (auto simp: dseg_append split: option.splits)

lemma dll_tail: "dll h l ts \<Longrightarrow> tail l = final ts"
  by (auto simp: dll_def dest!: dseg_last split: option.splits)

lemma dll_empty: "dll h l [] \<longleftrightarrow> head l = None \<and> tail l = None"
  by (auto simp: dll_def)

text \<open>The sequence is determined by the heap and the list structure.\<close>

lemma dseg_unique:
  "dseg h x p ts None q \<Longrightarrow> dseg h x p us None r \<Longrightarrow> ts = us"
proof (induction ts arbitrary: x p us)
  case Nil
  then show ?case by (cases us) auto
next
  case (Cons t ts)
  then show ?case by (cases us) (auto split: option.splits)
qed

lemma dll_unique: "dll h l ts \<Longrightarrow> dll h l us \<Longrightarrow> ts = us"
  by (auto simp: dll_def intro: dseg_unique)

subsection \<open>What list operations leave unchanged\<close>

text \<open>
  \<open>fld f h t\<close> is field \<open>f\<close> of the live task \<open>t\<close>. Two heaps agree under a function \<open>b\<close> that
  blanks some fields when the same tasks are live and agree on all other fields. The list
  operations write links only (\<open>unlink\<close>); moving a task between queues also rewrites its \<open>ready\<close>
  flag and the state string shown by the debugger (\<open>undisp\<close>).
\<close>

definition fld :: "(task \<Rightarrow> 'b) \<Rightarrow> heap \<Rightarrow> addr \<Rightarrow> 'b option" where
  "fld f h t = map_option f (h t)"

definition agree :: "(task \<Rightarrow> 'b) \<Rightarrow> heap \<Rightarrow> heap \<Rightarrow> bool" where
  "agree b h h' \<longleftrightarrow> (\<forall>t. fld b h' t = fld b h t)"

definition unlink :: "task \<Rightarrow> task" where
  "unlink tk = tk\<lparr>nxt := None, prv := None\<rparr>"

definition undisp :: "task \<Rightarrow> task" where
  "undisp tk = tk\<lparr>tstate := [], nxt := None, prv := None, ready := False\<rparr>"

lemma agree_refl [simp]: "agree b h h"
  by (simp add: agree_def)

lemma agree_trans [trans]: "agree b h h' \<Longrightarrow> agree b h' h'' \<Longrightarrow> agree b h h''"
  by (simp add: agree_def)

lemma agree_fld:
  assumes "agree b h h'" and "\<And>x. f (b x) = f x"
  shows "fld f h' t = fld f h t"
proof -
  have "fld f g t = map_option f (fld b g t)" for g
    using assms(2) by (simp add: fld_def option.map_comp comp_def)
  with assms(1) show ?thesis by (simp add: agree_def)
qed

lemma fld_through:
  assumes "fld b h' t = fld b h t" and "\<And>x. f (b x) = f x"
  shows "fld f h' t = fld f h t"
proof -
  have "fld f g t = map_option f (fld b g t)" for g
    using assms(2) by (simp add: fld_def option.map_comp comp_def)
  with assms(1) show ?thesis by simp
qed

lemma agree_weaken:
  assumes "agree b h h'" "\<And>x. c (b x) = c x"
  shows "agree c h h'"
proof -
  have "fld c h' t = fld c h t" for t using assms by (rule agree_fld [of b h h' c])
  then show ?thesis by (simp add: agree_def)
qed

lemma unlink_simps [simp]:
  "tname (unlink x) = tname x" "tstate (unlink x) = tstate x" "ctxt (unlink x) = ctxt x"
  "ss_sp (unlink x) = ss_sp x" "ss_size (unlink x) = ss_size x"
  "alarmtime (unlink x) = alarmtime x" "tid (unlink x) = tid x" "stk (unlink x) = stk x"
  "stksize (unlink x) = stksize x" "exiting (unlink x) = exiting x"
  "alltaskslot (unlink x) = alltaskslot x" "system (unlink x) = system x"
  "ready (unlink x) = ready x" "startfn (unlink x) = startfn x"
  "startarg (unlink x) = startarg x" "udata (unlink x) = udata x"
  "undisp (unlink x) = undisp x"
  by (simp_all add: unlink_def undisp_def)

lemma undisp_simps [simp]:
  "tname (undisp x) = tname x" "ctxt (undisp x) = ctxt x"
  "ss_sp (undisp x) = ss_sp x" "ss_size (undisp x) = ss_size x"
  "alarmtime (undisp x) = alarmtime x" "tid (undisp x) = tid x" "stk (undisp x) = stk x"
  "stksize (undisp x) = stksize x" "exiting (undisp x) = exiting x"
  "alltaskslot (undisp x) = alltaskslot x" "system (undisp x) = system x"
  "startfn (undisp x) = startfn x" "startarg (undisp x) = startarg x" "udata (undisp x) = udata x"
  by (simp_all add: undisp_def)

lemma agree_upd [simp]:
  "h t = Some tk \<Longrightarrow> b tk' = b tk \<Longrightarrow> agree b h (h(t \<mapsto> tk'))"
  by (simp add: agree_def fld_def)

lemma fld_None: "fld f h t = None \<longleftrightarrow> h t = None"
  by (simp add: fld_def)

lemma agree_dom:
  assumes "agree b h h'"
  shows "dom h' = dom h"
proof -
  from assms have "h' t = None \<longleftrightarrow> h t = None" for t
    using fld_None [of b] by (metis agree_def)
  then show ?thesis by (auto simp: dom_def)
qed

lemma tset_runs [simp]:
  "runs (tset t f h) P \<longleftrightarrow> (\<exists>tk. h t = Some tk \<and> P (h(t \<mapsto> f tk)))"
  by (auto simp: tset_def split: option.splits)

lemma tget_runs [simp]: "runs (tget t h) P \<longleftrightarrow> (\<exists>tk. h t = Some tk \<and> P tk)"
  by (auto simp: tget_def split: option.splits)

subsection \<open>addtask appends, deltask removes\<close>

lemma dseg_snoc_link:
  assumes "dseg h x p ts None q" "distinct ts" "ts \<noteq> []" "t \<notin> set ts"
  shows "\<exists>u uk. q = Some u \<and> u \<in> set ts \<and> h u = Some uk \<and>
    dseg (h(u \<mapsto> uk\<lparr>nxt := Some t\<rparr>)) x p ts (Some t) q"
proof -
  from assms(3) obtain us u where ts: "ts = us @ [u]" by (cases ts rule: rev_cases) auto
  with assms show ?thesis by (auto simp: dseg_append split: option.splits)
qed

lemma addtask_dll:
  assumes d: "dll h l ts" and t: "t \<in> dom h" "t \<notin> set ts"
  shows "runs (addtask l t h) (\<lambda>(l', h'). dll h' l' (ts @ [t]) \<and> agree unlink h h' \<and>
           (\<forall>u. u \<noteq> t \<longrightarrow> u \<notin> set ts \<longrightarrow> same_links h h' u))"
proof (cases "ts = []")
  case True
  with d t show ?thesis
    by (auto simp: addtask_def dll_def dom_def unlink_def)
next
  case False
  with d t obtain u uk where u: "tail l = Some u" "u \<in> set ts" "h u = Some uk"
    and seg: "dseg (h(u \<mapsto> uk\<lparr>nxt := Some t\<rparr>)) (head l) None ts (Some t) (tail l)"
    using dseg_snoc_link [of h "head l" None ts "tail l" t] by (auto simp: dll_def)
  from u t have "u \<noteq> t" by auto
  with u t seg d show ?thesis
    by (auto simp: addtask_def dll_def dseg_append agree_def fld_def unlink_def same_links_def)
qed

lemma deltask_dll:
  assumes d: "dll h l (as @ t # bs)"
  shows "runs (deltask l t h) (\<lambda>(l', h'). dll h' l' (as @ bs) \<and> agree unlink h h' \<and>
           (\<forall>u. u \<notin> set as \<union> set bs \<longrightarrow> same_links h h' u))"
proof -
  from d obtain tk where tk: "h t = Some tk"
    and as: "dseg h (head l) None as (Some t) (prv tk)"
    and bs: "dseg h (nxt tk) (Some t) bs None (tail l)"
    and dist: "distinct (as @ t # bs)"
    by (auto simp: dll_def dseg_append split: option.splits)
  show ?thesis
  proof (cases as rule: rev_cases)
    case Nil
    with as have "prv tk = None" by simp
    show ?thesis
    proof (cases bs)
      case Nil
      with tk as bs \<open>as = []\<close> show ?thesis by (auto simp: deltask_def dll_def)
    next
      case (Cons b cs)
      with tk as bs dist \<open>as = []\<close> show ?thesis
        by (auto simp: deltask_def dll_def agree_def fld_def unlink_def same_links_def
             split: option.splits)
    qed
  next
    case (snoc cs c)
    then obtain ck where c: "h c = Some ck" "nxt ck = Some t" "prv tk = Some c"
      and cs: "dseg h (head l) None cs (Some c) (prv ck)"
      using as by (auto simp: dseg_append split: option.splits)
    show ?thesis
    proof (cases bs)
      case Nil
      with tk c cs bs dist snoc show ?thesis
        by (auto simp: deltask_def dll_def dseg_append agree_def fld_def unlink_def same_links_def)
    next
      case (Cons b ds)
      with tk c cs bs dist snoc show ?thesis
        by (auto simp: deltask_def dll_def dseg_append agree_def fld_def unlink_def same_links_def
             split: option.splits)
    qed
  qed
qed

subsection \<open>Several queues over one heap\<close>

text \<open>
  The run queue and all wait queues thread their links through the same two fields of a task,
  so the lists must be disjoint: a task is in at most one of them. \<open>queues_ok h T L\<close> says that
  the structures \<open>T i\<close> hold the sequences \<open>L i\<close>.
\<close>

definition queues_ok :: "heap \<Rightarrow> ('i \<Rightarrow> tasklist) \<Rightarrow> ('i \<Rightarrow> addr list) \<Rightarrow> bool" where
  "queues_ok h T L \<longleftrightarrow>
     (\<forall>i. dll h (T i) (L i)) \<and> (\<forall>i j. i \<noteq> j \<longrightarrow> set (L i) \<inter> set (L j) = {})"

lemma queues_dll: "queues_ok h T L \<Longrightarrow> dll h (T i) (L i)"
  by (simp add: queues_ok_def)

lemma queues_disjoint: "queues_ok h T L \<Longrightarrow> i \<noteq> j \<Longrightarrow> t \<in> set (L i) \<Longrightarrow> t \<notin> set (L j)"
  by (auto simp: queues_ok_def)

lemma queues_unique: "queues_ok h T L \<Longrightarrow> queues_ok h T L' \<Longrightarrow> L = L'"
  by (auto simp: queues_ok_def fun_eq_iff intro: dll_unique)

text \<open>
  An operation on queue \<open>i\<close> that changes only the links of tasks in the old or the new
  sequence of \<open>i\<close>, none of which is in another queue, keeps all other queues.
\<close>

lemma queues_upd:
  assumes q: "queues_ok h T L" and d: "dll h' l' ts"
    and same: "\<forall>u. u \<notin> set ts \<union> set (L i) \<longrightarrow> same_links h h' u"
    and fresh: "\<forall>j. j \<noteq> i \<longrightarrow> set ts \<inter> set (L j) = {}"
  shows "queues_ok h' (T(i := l')) (L(i := ts))"
proof -
  have "dll h' (T j) (L j)" if "j \<noteq> i" for j
  proof -
    from that fresh queues_disjoint [OF q, of j i]
    have "\<forall>u \<in> set (L j). u \<notin> set ts \<union> set (L i)" by blast
    with same have "\<forall>u \<in> set (L j). same_links h h' u" by blast
    with queues_dll [OF q] show ?thesis by (simp add: dll_cong)
  qed
  with q d fresh show ?thesis by (auto simp: queues_ok_def)
qed

lemma queues_same_links:
  "\<forall>t. same_links h h' t \<Longrightarrow> queues_ok h' T L = queues_ok h T L"
proof -
  assume same: "\<forall>t. same_links h h' t"
  have "dll h' (T i) (L i) = dll h (T i) (L i)" for i
    by (rule dll_cong) (use same in simp)
  then show ?thesis by (simp add: queues_ok_def)
qed

lemma addtask_queues:
  assumes q: "queues_ok h T L" and t: "t \<in> dom h" "\<forall>i. t \<notin> set (L i)"
  shows "runs (addtask (T i) t h)
           (\<lambda>(l', h'). queues_ok h' (T(i := l')) (L(i := L i @ [t])) \<and> agree unlink h h')"
proof (rule runs_mono [OF addtask_dll [OF queues_dll [OF q, of i]]])
  show "t \<in> dom h" "t \<notin> set (L i)" using t by auto
  have other: "\<forall>j. j \<noteq> i \<longrightarrow> set (L i @ [t]) \<inter> set (L j) = {}"
    using t(2) queues_disjoint [OF q, of i] by fastforce
  fix x assume "case x of (l', h') \<Rightarrow> dll h' l' (L i @ [t]) \<and> agree unlink h h' \<and>
      (\<forall>u. u \<noteq> t \<longrightarrow> u \<notin> set (L i) \<longrightarrow> same_links h h' u)"
  then show "case x of (l', h') \<Rightarrow>
      queues_ok h' (T(i := l')) (L(i := L i @ [t])) \<and> agree unlink h h'"
    using queues_upd [OF q _ _ other] by auto
qed

lemma deltask_queues:
  assumes q: "queues_ok h T L" and t: "t \<in> set (L i)"
  shows "runs (deltask (T i) t h)
           (\<lambda>(l', h'). queues_ok h' (T(i := l')) (L(i := remove1 t (L i))) \<and> agree unlink h h')"
proof -
  from t obtain as bs where L: "L i = as @ t # bs" by (auto simp: in_set_conv_decomp)
  from queues_dll [OF q, of i] have dll: "dll h (T i) (as @ t # bs)" by (simp add: L)
  then have rem: "remove1 t (L i) = as @ bs"
    using remove1_distinct_mid [OF dll_distinct] by (simp add: L)
  have other: "\<forall>j. j \<noteq> i \<longrightarrow> set (as @ bs) \<inter> set (L j) = {}"
    using q by (fastforce simp: queues_ok_def L)
  show ?thesis unfolding rem
    by (rule runs_mono [OF deltask_dll [OF dll]])
       (auto intro!: queues_upd [OF q _ _ other] simp: L)
qed

end
