(* ===== verification/Print.thy ===== *)
theory Print
  imports Prelude "HOL-Library.Sublist"
begin

text \<open>
  The formatted printing library of \<open>print.c\<close>: \<open>printstr\<close> (padding and truncation of one field),
  the number conversion and the format interpreter of \<open>vseprint\<close>, and the functions built on it.

  A buffer \<open>[dst, edst)\<close> is described by its capacity \<open>edst - dst\<close>; the model returns the string
  left in it, without the terminating NUL. A \<open>va_list\<close> is the list of the remaining argument
  slots, each a 64-bit number (of which \<open>%d\<close> reads the low 32 bits, \<open>%ld\<close> and \<open>%lld\<close> all 64,
  the LP64 convention of the 64-bit platforms) or a pointer to a string. Reading a missing slot
  or one of the wrong kind is undefined behaviour (\<open>Segv\<close>), and so is reading the format past
  its NUL. \<open>int\<close> widths are unbounded integers: the field width of a format is the only \<open>int\<close> the
  code computes.
\<close>

subsection \<open>printstr\<close>

definition printstr :: "int \<Rightarrow> string \<Rightarrow> int \<Rightarrow> string" where
  "printstr room s sz =
     (let sign = (if sz < 0 then -1 else 1 :: int);
          sz = (if sz < 0 then - sz else sz)
      in if room \<le> 0 then []
         else
           (let l = int (length s);
                n = (if l < sz then sz else l);
                n = (if n \<ge> room then room - 1 else n);
                l = (if l > n then n else l)
            in if sign < 0
               then take (nat l) s @ replicate (nat (n - l)) CHR '' ''
               else replicate (nat (n - l)) CHR '' '' @ take (nat l) s))"

subsection \<open>Numbers\<close>

record flags =
  FlagLong :: bool
  FlagLongLong :: bool
  FlagUnsigned :: bool

definition noflags :: flags where
  "noflags = \<lparr>FlagLong = False, FlagLongLong = False, FlagUnsigned = False\<rparr>"

datatype varg = Num "64 word" | Str string

definition digits :: string where
  "digits = ''0123456789abcdef''"

text \<open>The loop \<open>while(luv)\<close>, filling the buffer from its end.\<close>

fun digs :: "nat \<Rightarrow> nat \<Rightarrow> string \<Rightarrow> string" where
  "digs base luv p =
     (if luv = 0 \<or> base < 2 then p
      else digs base (luv div base) (digits ! (luv mod base) # p))"

declare digs.simps [simp del]

definition getnum :: "flags \<Rightarrow> varg list \<Rightarrow> halt + 64 word \<times> varg list" where
  "getnum fl args =
     (case args of
        Num w # rest \<Rightarrow>
          Inr (if FlagLongLong fl then w
               else if FlagLong fl then w
               else if FlagUnsigned fl then ucast (ucast w :: 32 word)
               else scast (ucast w :: 32 word), rest)
      | _ \<Rightarrow> Inl Segv)"

definition numstr :: "nat \<Rightarrow> flags \<Rightarrow> 64 word \<Rightarrow> string" where
  "numstr base fl luv =
     (let neg = (\<not> FlagUnsigned fl \<and> sint luv < 0);
          luv = (if neg then - luv else luv);
          zero = (luv = 0);
          p = digs base (unat luv) [];
          p = (if base = 16 then CHR ''0'' # CHR ''x'' # p else p)
      in if base = 8 \<or> zero then CHR ''0'' # p else p)"

subsection \<open>The format interpreter\<close>

text \<open>
  \<open>dirv\<close> is the inner loop, entered after a \<open>%\<close>; it returns what is left of the format, the
  arguments left and the characters written. The format ends with NUL: when the loop stops
  there, the \<open>p++\<close> of the outer loop steps over it.
\<close>

definition isdigit :: "char \<Rightarrow> bool" where
  "isdigit c \<longleftrightarrow> of_char c \<ge> (48 :: nat) \<and> of_char c \<le> (57 :: nat)"

fun dirv :: "string \<Rightarrow> int \<Rightarrow> string \<Rightarrow> varg list \<Rightarrow> flags \<Rightarrow> int \<Rightarrow> int \<Rightarrow>
    halt + string \<times> varg list \<times> string" where
  "dirv err room [] args fl sz sign = Inl Segv"
| "dirv err room (c # p) args fl sz sign =
     (let num = (\<lambda>base. bindR (getnum fl args) (\<lambda>(luv, args).
                   Inr (p, args, printstr room (numstr base fl luv) (sz * sign))))
      in
      if c = CHR ''-'' then dirv err room p args fl sz (-1)
      else if isdigit c then dirv err room p args fl (sz * 10 + (of_char c - 48)) sign
      else if c = CHR ''l'' then
        (if FlagLong fl then dirv err room p args (fl\<lparr>FlagLongLong := True\<rparr>) sz sign
         else dirv err room p args (fl\<lparr>FlagLong := True\<rparr>) sz sign)
      else if c = CHR ''u'' then dirv err room p args (fl\<lparr>FlagUnsigned := True\<rparr>) sz sign
      else if c = CHR ''d'' then num 10
      else if c = CHR ''o'' then num 8
      else if c = CHR ''p'' \<or> c = CHR ''x'' then num 16
      else if c = CHR ''c'' then
        (case args of
           Num w # args \<Rightarrow>
             (let ch = char_of (unat w)
              in Inr (p, args, printstr room (if ch = CHR 0x00 then [] else [ch]) (sz * sign)))
         | _ \<Rightarrow> Inl Segv)
      else if c = CHR ''s'' then
        (case args of
           Str s # args \<Rightarrow> Inr (p, args, printstr room s (sz * sign))
         | _ \<Rightarrow> Inl Segv)
      else if c = CHR ''r'' then Inr (p, args, printstr room err (sz * sign))
      else Inr (''*verb*'', args, []))"

lemma num_cases:
  "bindR (getnum fl args) (\<lambda>(luv, args). Inr (p, args, f luv)) \<in>
     {Inl Segv} \<union> {Inr (p, args', f luv) | args' luv. True}"
  by (cases "getnum fl args") (auto simp: getnum_def split: list.splits varg.splits)

lemma dirv_cases:
  obtains (opt) fl' sz' sign' where
      "dirv err room (c # p) args fl sz sign = dirv err room p args fl' sz' sign'"
  | (bad) "dirv err room (c # p) args fl sz sign = Inl Segv"
  | (verb) "dirv err room (c # p) args fl sz sign = Inr (''*verb*'', args, [])"
  | (out) args' s k where
      "dirv err room (c # p) args fl sz sign = Inr (p, args', printstr room s k)"
proof -
  consider "c = CHR ''-''" | "c \<noteq> CHR ''-''" "isdigit c"
    | "c \<noteq> CHR ''-''" "\<not> isdigit c" "c = CHR ''l''"
    | "c \<noteq> CHR ''-''" "\<not> isdigit c" "c = CHR ''u''"
    | "c \<noteq> CHR ''-''" "\<not> isdigit c" "c \<noteq> CHR ''l''" "c \<noteq> CHR ''u''" by blast
  then show thesis
  proof cases
    case 3
    then have "dirv err room (c # p) args fl sz sign =
        dirv err room p args (if FlagLong fl then fl\<lparr>FlagLongLong := True\<rparr> else fl\<lparr>FlagLong := True\<rparr>) sz sign"
      by (simp add: isdigit_def)
    then show ?thesis by (rule opt)
  next
    case 5
    note eq = dirv.simps(2) [of err room c p args fl sz sign, unfolded Let_def]
    note num = num_cases [of fl args p "\<lambda>luv. printstr room (numstr b fl luv) (sz * sign)" for b]
    consider "c = CHR ''d''" | "c = CHR ''o''" | "c = CHR ''p'' \<or> c = CHR ''x''"
      | "c = CHR ''c''" | "c = CHR ''s''" | "c = CHR ''r''"
      | "c \<notin> set ''dopxcsr''" by auto
    then show thesis
    proof cases
      case 1
      with num [of 10] eq show ?thesis by (auto simp: isdigit_def intro: bad out)
    next
      case 2
      with num [of 8] eq show ?thesis by (auto simp: isdigit_def intro: bad out)
    next
      case 3
      with num [of 16] eq show ?thesis by (auto simp: isdigit_def intro: bad out)
    next
      case 4
      with eq show ?thesis by (auto simp: isdigit_def intro: bad out split: list.splits varg.splits)
    next
      case 5
      then have "dirv err room (c # p) args fl sz sign =
          (case args of Str s # args \<Rightarrow> Inr (p, args, printstr room s (sz * sign)) | _ \<Rightarrow> Inl Segv)"
        by (simp add: isdigit_def)
      then show ?thesis using bad out by (cases args; cases "List.hd args") auto
    next
      case 6
      with eq show ?thesis by (auto simp: isdigit_def intro: out)
    next
      case 7
      with eq \<open>\<not> isdigit c\<close> \<open>c \<noteq> CHR ''-''\<close> \<open>c \<noteq> CHR ''l''\<close> \<open>c \<noteq> CHR ''u''\<close> show ?thesis
        by (auto intro: verb)
    qed
  qed (auto intro: opt)
qed

lemma dirv_rest:
  "dirv err room p args fl sz sign = Inr (rest, args', out) \<Longrightarrow>
     rest = ''*verb*'' \<or> suffix rest p"
proof (induction p arbitrary: fl sz sign)
  case (Cons c p)
  then show ?case
    by (cases rule: dirv_cases [of err room c p args fl sz sign]) (auto simp: suffix_Cons)
qed simp

lemma dirv_rest_count:
  "dirv err room p args fl sz sign = Inr (rest, args', out) \<Longrightarrow>
     count_list rest CHR ''%'' \<le> count_list p CHR ''%''"
  by (drule dirv_rest) (auto simp: suffix_def)

function vfmt :: "string \<Rightarrow> int \<Rightarrow> string \<Rightarrow> varg list \<Rightarrow> string \<Rightarrow> halt + string" where
  "vfmt err cap [] args w = Inr w"
| "vfmt err cap (c # p) args w =
     (if int (length w) < cap - 1 then
        (if c \<noteq> CHR ''%'' then vfmt err cap p args (w @ [c])
         else
           (case dirv err (cap - int (length w)) p args noflags 0 1 of
              Inl h \<Rightarrow> Inl h
            | Inr (p, args, out) \<Rightarrow> vfmt err cap p args (w @ out)))
      else Inr w)"
  by pat_completeness auto
termination
  by (relation "measures [\<lambda>(err, cap, fmt, args, w). count_list fmt CHR ''%'',
                          \<lambda>(err, cap, fmt, args, w). length fmt]")
     (auto dest!: dirv_rest_count)

definition vseprint :: "string \<Rightarrow> int \<Rightarrow> string \<Rightarrow> varg list \<Rightarrow> halt + string" where
  "vseprint err cap fmt args =
     bindR (vfmt err cap fmt args []) (\<lambda>w.
     if int (length w) < cap then Inr w else Inl (Assert ''w < edst''))"

definition vsnprint :: "string \<Rightarrow> 32 word \<Rightarrow> string \<Rightarrow> varg list \<Rightarrow> halt + string" where
  "vsnprint err n fmt args = vseprint err (uint n) fmt args"

definition snprint :: "string \<Rightarrow> 32 word \<Rightarrow> string \<Rightarrow> varg list \<Rightarrow> halt + string" where
  "snprint err n fmt args = vsnprint err n fmt args"

definition seprint :: "string \<Rightarrow> int \<Rightarrow> string \<Rightarrow> varg list \<Rightarrow> halt + string" where
  "seprint err cap fmt args = vseprint err cap fmt args"

text \<open>The bytes handed to \<open>write\<close>, and the descriptor.\<close>

definition vfprint :: "string \<Rightarrow> int \<Rightarrow> string \<Rightarrow> varg list \<Rightarrow> halt + int \<times> string" where
  "vfprint err fd fmt args = bindR (vseprint err 256 fmt args) (\<lambda>buf. Inr (fd, buf))"

definition vprint :: "string \<Rightarrow> string \<Rightarrow> varg list \<Rightarrow> halt + int \<times> string" where
  "vprint err fmt args = vfprint err 1 fmt args"

definition fprint :: "string \<Rightarrow> int \<Rightarrow> string \<Rightarrow> varg list \<Rightarrow> halt + int \<times> string" where
  "fprint err fd fmt args = vfprint err fd fmt args"

definition print :: "string \<Rightarrow> string \<Rightarrow> varg list \<Rightarrow> halt + int \<times> string" where
  "print err fmt args = vprint err fmt args"

definition strecpy :: "int \<Rightarrow> string \<Rightarrow> halt + string" where
  "strecpy room src = (if room \<le> 0 then Inl Segv else Inr (printstr room src 0))"

subsection \<open>Fields\<close>

lemma length_printstr:
  "0 < room \<Longrightarrow> int (length (printstr room s sz)) = min (max \<bar>sz\<bar> (int (length s))) (room - 1)"
  by (auto simp: printstr_def Let_def min_def max_def)

lemma printstr_fits:
  assumes "int (length s) < room" "\<bar>sz\<bar> < room"
  shows "printstr room s sz =
    (let pad = replicate (nat (\<bar>sz\<bar> - int (length s))) CHR '' ''
     in if sz < 0 then s @ pad else pad @ s)"
  using assms by (auto simp: printstr_def Let_def)

subsection \<open>The buffer is never overrun\<close>

lemma dirv_out:
  "dirv err room p args fl sz sign = Inr (rest, args', out) \<Longrightarrow> 0 < room \<Longrightarrow>
     int (length out) < room"
proof (induction p arbitrary: fl sz sign)
  case (Cons c p)
  then show ?case
    by (cases rule: dirv_cases [of err room c p args fl sz sign]) (auto simp: length_printstr)
qed simp


lemma vfmt_bound:
  "vfmt err cap fmt args w = Inr w' \<Longrightarrow> int (length w) < cap \<Longrightarrow> int (length w') < cap"
proof (induction err cap fmt args w rule: vfmt.induct)
  case (2 err cap c p args w)
  show ?case
  proof (cases "c = CHR ''%'' \<and> int (length w) < cap - 1")
    case True
    with "2.prems" obtain p' args' out where
      d: "dirv err (cap - int (length w)) p args noflags 0 1 = Inr (p', args', out)" and
      v: "vfmt err cap p' args' (w @ out) = Inr w'"
      by (auto split: sum.splits)
    from dirv_out [OF d] True have "int (length (w @ out)) < cap" by simp
    with "2.IH"(2) [OF _ _ d refl refl v] True show ?thesis by simp
  next
    case False
    with 2 show ?thesis by (auto split: if_splits)
  qed
qed simp



subsection \<open>Plain text\<close>

lemma vfmt_plain:
  "CHR ''%'' \<notin> set fmt \<Longrightarrow> int (length w) < cap \<Longrightarrow>
     vfmt err cap fmt args w = Inr (w @ take (nat (cap - 1) - length w) fmt)"
proof (induction err cap fmt args w rule: vfmt.induct)
  case (2 err cap c p args w)
  then show ?case
  proof (cases "int (length w) < cap - 1")
    case True
    then have "nat (cap - 1) - length w = Suc (nat (cap - 1) - length (w @ [c]))" by auto
    with 2 True show ?thesis by auto
  qed auto
qed simp

lemma vseprint_plain:
  "CHR ''%'' \<notin> set fmt \<Longrightarrow> 0 < cap \<Longrightarrow> vseprint err cap fmt args = Inr (take (nat (cap - 1)) fmt)"
  by (auto simp: vseprint_def vfmt_plain min_def)

subsection \<open>Digits\<close>

text \<open>The value of a string of digits of a base, by position of each character in \<open>digits\<close>.\<close>

definition digit_of :: "char \<Rightarrow> nat" where
  "digit_of c = length (takeWhile (\<lambda>d. d \<noteq> c) digits)"

definition numval :: "nat \<Rightarrow> string \<Rightarrow> nat" where
  "numval base s = foldl (\<lambda>v c. v * base + digit_of c) 0 s"

lemma digit_of_digits: "i < 16 \<Longrightarrow> digit_of (digits ! i) = i"
proof -
  have "\<forall>i \<in> {0..<16}. digit_of (digits ! i) = i"
    by code_simp
  then show "i < 16 \<Longrightarrow> digit_of (digits ! i) = i" by simp
qed

lemma foldl_digs:
  "2 \<le> base \<Longrightarrow> base \<le> 16 \<Longrightarrow>
     foldl (\<lambda>v c. v * base + digit_of c) 0 (digs base n p) =
     foldl (\<lambda>v c. v * base + digit_of c) n p"
proof (induction base n p rule: digs.induct)
  case (1 base n p)
  show ?case
  proof (cases "n = 0")
    case True
    then show ?thesis by (simp add: digs.simps)
  next
    case False
    with 1 have "n mod base < 16" by (meson mod_less_divisor order_less_le_trans zero_less_numeral less_le_trans not_gr_zero)
    with 1 False show ?thesis
      by (simp add: digs.simps [of base n p] digit_of_digits mult.commute)
  qed
qed

lemma numval_digs: "2 \<le> base \<Longrightarrow> base \<le> 16 \<Longrightarrow> numval base (digs base n []) = n"
  by (simp add: numval_def foldl_digs)

lemma length_digs: "2 \<le> base \<Longrightarrow> n < base ^ k \<Longrightarrow> length (digs base n p) \<le> k + length p"
proof (induction base n p arbitrary: k rule: digs.induct)
  case (1 base n p)
  show ?case
  proof (cases "n = 0")
    case True
    then show ?thesis by (simp add: digs.simps)
  next
    case False
    with 1 obtain k' where k: "k = Suc k'" by (cases k) auto
    with 1 False have "n div base < base ^ k'" by (simp add: div_less_iff_less_mult mult.commute)
    with 1 False k show ?thesis by (force simp: digs.simps [of base n p])
  qed
qed

lemma digs_append: "digs base n p = digs base n [] @ p"
proof (induction n arbitrary: p rule: less_induct)
  case (less n)
  show ?case
  proof (cases "n = 0 \<or> base < 2")
    case True
    then show ?thesis by (simp add: digs.simps)
  next
    case False
    then have "n div base < n" by simp
    then have "digs base (n div base) q = digs base (n div base) [] @ q" for q by (rule less)
    with False show ?thesis by (metis digs.simps append_Cons append_assoc append_Nil)
  qed
qed

lemma digs_step:
  "0 < n \<Longrightarrow> 2 \<le> base \<Longrightarrow> digs base n [] = digs base (n div base) [] @ [digits ! (n mod base)]"
  by (subst digs.simps) (simp add: digs_append [of base "n div base" "[_]"])

subsection \<open>Reference semantics of a format\<close>

text \<open>
  A format as data: literal characters and conversions with an optional \<open>-\<close>, a width (\<open>0\<close> for
  none), for numbers the count of \<open>l\<close>, a \<open>u\<close> and the verb. \<open>unparse\<close> writes the format string,
  \<open>item_args\<close> the argument slots and \<open>render\<close> the characters each item stands for.
\<close>

datatype item =
    Lit char
  | Numf bool nat nat bool char "64 word"
  | Strf bool nat string
  | Chrf bool nat "64 word"

definition opts :: "bool \<Rightarrow> nat \<Rightarrow> string" where
  "opts left width = (if left then ''-'' else []) @ digs 10 width []"

fun unparse :: "item \<Rightarrow> string" where
  "unparse (Lit c) = [c]"
| "unparse (Numf left width nl u verb w) =
     ''%'' @ opts left width @ replicate nl CHR ''l'' @ (if u then ''u'' else []) @ [verb]"
| "unparse (Strf left width s) = ''%'' @ opts left width @ ''s''"
| "unparse (Chrf left width w) = ''%'' @ opts left width @ ''c''"

fun item_args :: "item \<Rightarrow> varg list" where
  "item_args (Lit c) = []"
| "item_args (Numf left width nl u verb w) = [Num w]"
| "item_args (Strf left width s) = [Str s]"
| "item_args (Chrf left width w) = [Num w]"

fun item_ok :: "item \<Rightarrow> bool" where
  "item_ok (Lit c) \<longleftrightarrow> c \<noteq> CHR ''%''"
| "item_ok (Numf left width nl u verb w) \<longleftrightarrow> nl \<le> 2 \<and> verb \<in> set ''dopx''"
| "item_ok (Strf left width s) \<longleftrightarrow> True"
| "item_ok (Chrf left width w) \<longleftrightarrow> char_of (unat w) \<noteq> CHR 0x00"

definition pad :: "bool \<Rightarrow> nat \<Rightarrow> string \<Rightarrow> string" where
  "pad left width s =
     (let blanks = replicate (width - length s) CHR '' '' in if left then s @ blanks else blanks @ s)"

definition flags_of :: "nat \<Rightarrow> bool \<Rightarrow> flags" where
  "flags_of nl u = \<lparr>FlagLong = 0 < nl, FlagLongLong = 1 < nl, FlagUnsigned = u\<rparr>"

definition arg_value :: "nat \<Rightarrow> bool \<Rightarrow> 64 word \<Rightarrow> 64 word" where
  "arg_value nl u w = (if 0 < nl then w else if u then take_bit 32 w else signed_take_bit 31 w)"

definition base_of :: "char \<Rightarrow> nat" where
  "base_of verb = (if verb = CHR ''d'' then 10 else if verb = CHR ''o'' then 8 else 16)"

fun render :: "item \<Rightarrow> string" where
  "render (Lit c) = [c]"
| "render (Numf left width nl u verb w) =
     pad left width (numstr (base_of verb) (flags_of nl u) (arg_value nl u w))"
| "render (Strf left width s) = pad left width s"
| "render (Chrf left width w) = pad left width [char_of (unat w)]"

lemma isdigit_digits: "i < 10 \<Longrightarrow> isdigit (digits ! i) \<and> of_char (digits ! i) = (48 + int i)"
proof -
  have "\<forall>i \<in> {0..<10}. isdigit (digits ! i) \<and> of_char (digits ! i) = (48 + int i)"
    by code_simp
  then show "i < 10 \<Longrightarrow> isdigit (digits ! i) \<and> of_char (digits ! i) = (48 + int i)" by simp
qed

lemma isdigit_not: "isdigit c \<Longrightarrow> c \<noteq> CHR ''-''"
  by (auto simp: isdigit_def)

lemma dirv_digs:
  "dirv err room (digs 10 n [] @ p) args fl 0 sign = dirv err room p args fl (int n) sign"
proof (induction n arbitrary: p rule: less_induct)
  case (less n)
  show ?case
  proof (cases "n = 0")
    case True
    then show ?thesis by (simp add: digs.simps)
  next
    case False
    let ?c = "digits ! (n mod 10)"
    from False have "n div 10 < n" by simp
    from less [OF this, of "?c # p"] False
    have "dirv err room (digs 10 n [] @ p) args fl 0 sign =
        dirv err room (?c # p) args fl (int (n div 10)) sign"
      by (simp add: digs_step)
    also have "\<dots> = dirv err room p args fl (int n) sign"
      using isdigit_digits [of "n mod 10"] isdigit_not by (simp add: zdiv_int zmod_int)
    finally show ?thesis .
  qed
qed

lemma dirv_opts:
  "dirv err room (opts left width @ p) args noflags 0 1 =
     dirv err room p args noflags (int width) (if left then -1 else 1)"
  by (simp add: opts_def dirv_digs)

lemma dirv_long:
  "nl \<le> 2 \<Longrightarrow> dirv err room (replicate nl CHR ''l'' @ (if u then ''u'' else []) @ p) args noflags sz sign =
     dirv err room p args (flags_of nl u) sz sign"
proof -
  assume "nl \<le> 2"
  then consider "nl = 0" | "nl = 1" | "nl = 2" by linarith
  then show ?thesis
    by cases (auto simp: noflags_def flags_of_def isdigit_def numeral_2_eq_2)
qed

lemma printstr_pad:
  assumes "int (length (pad left width s)) < room"
  shows "printstr room s (int width * (if left then -1 else 1)) = pad left width s"
  using assms by (auto simp: printstr_fits pad_def Let_def nat_diff_distrib
      split: if_splits)

lemma getnum_arg:
  "getnum (flags_of nl u) (Num w # args) = Inr (arg_value nl u w, args)"
proof -
  have "ucast (ucast w :: 32 word) = take_bit 32 w" for w :: "64 word"
    by (rule bit_word_eqI) (auto simp: bit_simps)
  moreover have "scast (ucast w :: 32 word) = signed_take_bit 31 w" for w :: "64 word"
    by (rule bit_word_eqI) (auto simp: bit_simps min_def)
  ultimately show ?thesis by (simp add: getnum_def flags_of_def arg_value_def)
qed

lemma dirv_verb:
  assumes "verb \<in> set ''dopx''"
  shows "dirv err room (verb # p) (Num w # args) (flags_of nl u) sz sign =
    Inr (p, args, printstr room (numstr (base_of verb) (flags_of nl u) (arg_value nl u w)) (sz * sign))"
proof -
  from assms consider "verb = CHR ''d''" | "verb = CHR ''o''" | "verb = CHR ''p''" | "verb = CHR ''x''"
    by auto
  then show ?thesis
    by cases (simp_all add: isdigit_def base_of_def getnum_arg)
qed

lemma vfmt_full: "\<not> int (length w) < cap - 1 \<Longrightarrow> vfmt err cap p args w = Inr w"
  by (cases p) auto

lemma dirv_item:
  assumes "item_ok it" "it \<noteq> Lit c" "\<And>c. it \<noteq> Lit c" and fit: "int (length (render it)) < room"
  shows "dirv err room (tl (unparse it) @ p) (item_args it @ args) noflags 0 1 =
           Inr (p, args, render it)"
proof (cases it)
  case (Numf left width nl u verb w)
  with assms(1) have "nl \<le> 2" and verb: "verb \<in> set ''dopx''" by simp_all
  with Numf printstr_pad [OF fit [unfolded Numf render.simps]] show ?thesis
    using dirv_long [where p = "verb # p"]
    by (simp add: dirv_opts dirv_verb [OF verb] del: dirv.simps)
next
  case (Strf left width s)
  with printstr_pad [OF fit [unfolded Strf render.simps]] show ?thesis
    by (simp add: dirv_opts isdigit_def)
next
  case (Chrf left width w)
  with assms printstr_pad [OF fit [unfolded Chrf render.simps]] show ?thesis
    by (simp add: dirv_opts isdigit_def Let_def)
qed (use assms in auto)

lemma vfmt_item:
  assumes ok: "item_ok it" and fit: "int (length w + length (render it)) < cap"
  shows "vfmt err cap (unparse it @ p) (item_args it @ args) w = vfmt err cap p args (w @ render it)"
proof (cases "int (length w) < cap - 1")
  case False
  with fit have "render it = []" by (cases "render it") auto
  with False show ?thesis by (simp add: vfmt_full)
next
  case True
  show ?thesis
  proof (cases "\<exists>c. it = Lit c")
    case True
    with ok \<open>int (length w) < cap - 1\<close> show ?thesis by auto
  next
    case False
    then have "unparse it = CHR ''%'' # tl (unparse it)" by (cases it) auto
    then have u: "unparse it @ p = CHR ''%'' # (tl (unparse it) @ p)" by simp
    from False have "dirv err (cap - int (length w)) (tl (unparse it) @ p) (item_args it @ args)
        noflags 0 1 = Inr (p, args, render it)"
      using ok fit by (intro dirv_item) auto
    with True show ?thesis unfolding u by simp
  qed
qed

lemma vfmt_items:
  "\<forall>it \<in> set its. item_ok it \<Longrightarrow> int (length w + length (concat (map render its))) < cap \<Longrightarrow>
     vfmt err cap (concat (map unparse its)) (concat (map item_args its)) w =
       Inr (w @ concat (map render its))"
proof (induction its arbitrary: w)
  case (Cons it its)
  have "vfmt err cap (unparse it @ concat (map unparse its))
      (item_args it @ concat (map item_args its)) w =
      vfmt err cap (concat (map unparse its)) (concat (map item_args its)) (w @ render it)"
    using Cons.prems by (intro vfmt_item) auto
  also have "\<dots> = Inr ((w @ render it) @ concat (map render its))"
    using Cons.prems by (intro Cons.IH) auto
  finally show ?case by simp
qed simp

lemma vseprint_items:
  assumes "\<forall>it \<in> set its. item_ok it" "int (length (concat (map render its))) < cap"
  shows "vseprint err cap (concat (map unparse its)) (concat (map item_args its)) =
           Inr (concat (map render its))"
  using vfmt_items [OF assms(1), of "[]"] assms(2) by (simp add: vseprint_def)

text \<open>When it does not fit it is cut, but the arguments are still the right ones.\<close>

lemma dirv_item_runs:
  assumes "item_ok it" "\<And>c. it \<noteq> Lit c"
  shows "\<exists>out. dirv err room (tl (unparse it) @ p) (item_args it @ args) noflags 0 1 = Inr (p, args, out)"
proof (cases it)
  case (Numf left width nl u verb w)
  with assms(1) have "nl \<le> 2" and verb: "verb \<in> set ''dopx''" by simp_all
  with Numf show ?thesis
    using dirv_long [where p = "verb # p"]
    by (simp add: dirv_opts dirv_verb [OF verb] del: dirv.simps)
qed (use assms in \<open>simp_all add: dirv_opts isdigit_def Let_def\<close>)

lemma vfmt_items_runs:
  "\<forall>it \<in> set its. item_ok it \<Longrightarrow>
     \<exists>w'. vfmt err cap (concat (map unparse its)) (concat (map item_args its)) w = Inr w'"
proof (induction its arbitrary: w)
  case (Cons it its)
  let ?p = "concat (map unparse its)" and ?as = "concat (map item_args its)"
  show ?case
  proof (cases "int (length w) < cap - 1")
    case False
    then show ?thesis by (simp add: vfmt_full)
  next
    case True
    show ?thesis
    proof (cases "\<exists>c. it = Lit c")
      case True
      with Cons \<open>int (length w) < cap - 1\<close> show ?thesis by auto
    next
      case False
      then have u: "unparse it @ ?p = CHR ''%'' # (tl (unparse it) @ ?p)" by (cases it) auto
      from False Cons.prems obtain out where
        "dirv err (cap - int (length w)) (tl (unparse it) @ ?p) (item_args it @ ?as) noflags 0 1 =
           Inr (?p, ?as, out)"
        using dirv_item_runs [of it err "cap - int (length w)" ?p ?as] by auto
      then have "vfmt err cap (unparse it @ ?p) (item_args it @ ?as) w = vfmt err cap ?p ?as (w @ out)"
        using True unfolding u by simp
      with Cons show ?thesis by simp
    qed
  qed
qed simp

lemma vseprint_items_runs:
  assumes "\<forall>it \<in> set its. item_ok it" "0 < cap"
  shows "\<exists>w. vseprint err cap (concat (map unparse its)) (concat (map item_args its)) = Inr w"
proof -
  from vfmt_items_runs [OF assms(1)] obtain w where
    w: "vfmt err cap (concat (map unparse its)) (concat (map item_args its)) [] = Inr w" by blast
  from vfmt_bound [OF w] assms(2) w show ?thesis by (simp add: vseprint_def)
qed

subsection \<open>The value of a printed number\<close>

text \<open>The magnitude that the conversion prints.\<close>

definition magnitude :: "flags \<Rightarrow> 64 word \<Rightarrow> nat" where
  "magnitude fl w = (if FlagUnsigned fl then unat w else nat \<bar>sint w\<bar>)"

lemma sint_cases: "sint (w :: 64 word) = (if uint w < 2 ^ 63 then uint w else uint w - 2 ^ 64)"
proof -
  have u: "0 \<le> uint w" "uint w < 2 ^ 64" using uint_lt2p [of w] by simp_all
  have "sint w = (uint w + 2 ^ 63) mod 2 ^ 64 - 2 ^ 63"
    by (simp add: sint_uint signed_take_bit_eq_take_bit_shift take_bit_eq_mod)
  moreover have "(uint w + 2 ^ 63) mod 2 ^ 64 = (if uint w < 2 ^ 63 then uint w + 2 ^ 63 else uint w - 2 ^ 63)"
  proof (cases "uint w < 2 ^ 63")
    case True
    then show ?thesis using u by simp
  next
    case False
    have "(uint w + 2 ^ 63) mod 2 ^ 64 = (uint w - 2 ^ 63 + 2 ^ 64) mod 2 ^ 64" by (simp add: add.commute)
    also have "\<dots> = (uint w - 2 ^ 63) mod 2 ^ 64" by (rule mod_add_self2)
    finally show ?thesis using False u by simp
  qed
  ultimately show ?thesis by simp
qed

lemma uint_minus: "uint (- w :: 64 word) = (if w = 0 then 0 else 2 ^ 64 - uint w)"
proof -
  have u: "0 \<le> uint w" "uint w < 2 ^ 64" using uint_lt2p [of w] by simp_all
  have "uint (- w) = (- uint w) mod 2 ^ 64"
    by (simp add: uint_word_ariths)
  then show ?thesis using u by (auto simp: zmod_zminus1_eq_if uint_0_iff)
qed

lemma unat_neg_sint: "sint (w :: 64 word) < 0 \<Longrightarrow> unat (- w) = nat (- sint w)"
proof -
  assume neg: "sint w < 0"
  then have "w \<noteq> 0" by auto
  moreover from neg have "sint w = uint w - 2 ^ 64" unfolding sint_cases by (simp split: if_splits)
  ultimately have "uint (- w) = - sint w" unfolding uint_minus by simp
  then show ?thesis by (metis nat_uint_eq)
qed

lemma sint_nonneg: "0 \<le> sint (w :: 64 word) \<Longrightarrow> unat w = nat (sint w)"
proof -
  assume "0 \<le> sint w"
  then have "sint w = uint w" unfolding sint_cases using uint_lt2p [of w] by (simp split: if_splits)
  then show ?thesis by (metis nat_uint_eq)
qed

lemma abs_sint_minus: "\<bar>sint (- w :: 64 word)\<bar> = \<bar>sint w\<bar>"
  unfolding sint_cases uint_minus using uint_lt2p [of w] by auto

lemma numstr_magnitude:
  "numstr base fl luv =
     (if base = 8 \<or> magnitude fl luv = 0 then ''0'' else []) @ (if base = 16 then ''0x'' else []) @
     digs base (magnitude fl luv) []"
proof -
  define l where "l = (if \<not> FlagUnsigned fl \<and> sint luv < 0 then - luv else luv)"
  have m: "unat l = magnitude fl luv"
    by (simp add: l_def magnitude_def unat_neg_sint sint_nonneg not_less)
  moreover have "l = 0 \<longleftrightarrow> unat l = 0" by (simp add: unat_eq_0)
  ultimately show ?thesis by (simp add: numstr_def Let_def l_def [symmetric])
qed

subsection \<open>Properties\<close>



text \<open>
  C29: Formatted printing has the meaning of its format. For a format made of literal characters
  and of the directives \<open>%d %o %p %x %s %c\<close> with an optional minus sign, width, \<open>l\<close>, \<open>ll\<close> and \<open>u\<close>, and
  the arguments it calls for, \<open>vseprint\<close> writes the concatenation of what each item stands for,
  padded to its width, when that fits into the buffer.
\<close>

theorem vseprint_meaning:
  assumes "\<forall>it \<in> set its. item_ok it" "int (length (concat (map render its))) < cap"
  shows "vseprint err cap (concat (map unparse its)) (concat (map item_args its)) =
    Inr (concat (map render its))"
  by (rule vseprint_items [OF assms])

lemma vseprint_meaning_witness:
  "vseprint ''e'' 20 (concat (map unparse [Lit CHR ''t'', Numf True 4 1 True CHR ''d'' 42, Strf False 3 ''x'']))
      (concat (map item_args [Lit CHR ''t'', Numf True 4 1 True CHR ''d'' 42, Strf False 3 ''x''])) =
    Inr ''t42    x''"
proof -
  let ?its = "[Lit CHR ''t'', Numf True 4 1 True CHR ''d'' 42, Strf False 3 ''x'']"
  have r: "concat (map render ?its) = ''t42    x''" by code_simp
  have "vseprint ''e'' 20 (concat (map unparse ?its)) (concat (map item_args ?its)) =
      Inr (concat (map render ?its))"
    by (rule vseprint_meaning) (simp, simp only: r, simp)
  then show ?thesis by (simp only: r)
qed

text \<open>
  C30: A printed number can be read back. The text that the number conversion produces in base 8,
  10 or 16 is, after the prefix \<open>0x\<close> of base 16 (which zero gets after its \<open>0\<close>), a string of digits
  whose value is the magnitude of the argument, and it fits into the 30 bytes of the local buffer.
\<close>

theorem number_conversion:
  assumes "base = 8 \<or> base = 10 \<or> base = 16"
  shows "\<exists>pre ds. numstr base fl luv = pre @ ds \<and> numval base ds = magnitude fl luv \<and>
    pre = (if base = 8 \<or> magnitude fl luv = 0 then ''0'' else []) @ (if base = 16 then ''0x'' else []) \<and>
    length (numstr base fl luv) < 30"
proof -
  let ?m = "magnitude fl luv"
  have "?m < 2 ^ 64"
    using unsigned_less [of luv] sint_ge [of luv] sint_lt [of luv] by (auto simp: magnitude_def)
  moreover have "(2 :: nat) ^ 64 \<le> base ^ 22 \<and> (base \<noteq> 8 \<longrightarrow> (2 :: nat) ^ 64 \<le> base ^ 20)"
    using assms by auto
  ultimately have "length (digs base ?m []) \<le> 22"
    using length_digs [of base ?m 22 "[]"] assms by auto
  moreover have "numval base (digs base ?m []) = ?m" using assms by (intro numval_digs) auto
  moreover define pre where
    "pre = (if base = 8 \<or> ?m = 0 then ''0'' else []) @ (if base = 16 then ''0x'' else [])"
  moreover have "numstr base fl luv = pre @ digs base ?m []" by (simp add: numstr_magnitude pre_def)
  moreover have "length pre \<le> 3" by (simp add: pre_def)
  ultimately show ?thesis by (intro exI [of _ pre] exI [of _ "digs base ?m []"]) simp
qed

lemma number_conversion_witness:
  "\<exists>pre ds. numstr 16 noflags 255 = pre @ ds \<and> numval 16 ds = magnitude noflags 255 \<and>
    pre = (if (16 :: nat) = 8 \<or> magnitude noflags 255 = 0 then ''0'' else []) @
      (if (16 :: nat) = 16 then ''0x'' else []) \<and>
    length (numstr 16 noflags 255) < 30"
  by (rule number_conversion) simp

text \<open>
  The sign of a negative number is not printed: \<open>%d\<close> and its long forms print a number and its
  negation alike (the code computes \<open>neg\<close> and never uses it).
\<close>

theorem sign_not_printed:
  "numstr base (fl\<lparr>FlagUnsigned := False\<rparr>) (- luv) = numstr base (fl\<lparr>FlagUnsigned := False\<rparr>) luv"
  by (auto simp: numstr_magnitude magnitude_def abs_sint_minus)

end
