(* ===== verification/Task.thy ===== *)
theory Task
  imports Tasklist Print
begin

unbundle bit_operations_syntax

text \<open>
  The tasks and the scheduler of \<open>task.c\<close>. The record \<open>kern\<close> holds the global variables of the
  file and the memory it works on: the heap of tasks, the \<open>Tasklist\<close> structures (by the place
  they live in, \<open>lref\<close>), the array \<open>alltask\<close>. The components that are built on tasks extend it
  with their own state, so every operation here is polymorphic in the extension.

  Three fields describe the machine and are only read: \<open>sp\<close>, the address of the local variable
  that \<open>needstack\<close> compares with the stack's bounds, \<open>swapcontext_r\<close>, what \<open>swapcontext\<close> returns,
  and \<open>errstr\<close>, the text of \<open>strerror(errno)\<close>.
\<close>

subsection \<open>State\<close>

datatype lref =
    RunQueue            \<comment> \<open>\<open>taskrunqueue\<close>\<close>
  | QWait addr          \<comment> \<open>\<open>waiting\<close> of the \<open>QLock\<close> at the address\<close>
  | RWait addr          \<comment> \<open>\<open>rwaiting\<close> of the \<open>RWLock\<close> at the address\<close>
  | WWait addr          \<comment> \<open>\<open>wwaiting\<close> of the \<open>RWLock\<close> at the address\<close>
  | RzWait addr         \<comment> \<open>\<open>waiting\<close> of the \<open>Rendez\<close> at the address\<close>
  | Sleeping            \<comment> \<open>\<open>sleeping\<close> of \<open>fd.c\<close>\<close>

record kern =
  heap :: heap
  tlists :: "lref \<Rightarrow> tasklist"
  taskcount :: int
  tasknswitch :: int
  taskexitval :: int
  taskrunning :: "addr option"
  alltask :: "addr list"
  nalltask :: nat
  taskidgen :: "32 word"
  sp :: addr
  swapcontext_r :: int
  sizeof_Task :: "64 word"
  errstr :: string

text \<open>Dereferences: \<open>taskrunning->...\<close> and \<open>t->...\<close>.\<close>

definition running :: "'a kern_scheme \<Rightarrow> halt + addr" where
  "running s = (case taskrunning s of None \<Rightarrow> Inl Segv | Some t \<Rightarrow> Inr t)"

definition kget :: "addr \<Rightarrow> 'a kern_scheme \<Rightarrow> halt + task" where
  "kget t s = tget t (heap s)"

definition kset :: "addr \<Rightarrow> (task \<Rightarrow> task) \<Rightarrow> 'a kern_scheme \<Rightarrow> halt + 'a kern_scheme" where
  "kset t f s = bindR (tset t f (heap s)) (\<lambda>h. Inr (s\<lparr>heap := h\<rparr>))"

text \<open>\<open>addtask(&l, t)\<close> and \<open>deltask(&l, t)\<close> on a list of the program.\<close>

definition addq :: "lref \<Rightarrow> addr \<Rightarrow> 'a kern_scheme \<Rightarrow> halt + 'a kern_scheme" where
  "addq l t s =
     bindR (addtask (tlists s l) t (heap s)) (\<lambda>(q, h).
     Inr (s\<lparr>heap := h, tlists := (tlists s)(l := q)\<rparr>))"

definition delq :: "lref \<Rightarrow> addr \<Rightarrow> 'a kern_scheme \<Rightarrow> halt + 'a kern_scheme" where
  "delq l t s =
     bindR (deltask (tlists s l) t (heap s)) (\<lambda>(q, h).
     Inr (s\<lparr>heap := h, tlists := (tlists s)(l := q)\<rparr>))"

definition headq :: "lref \<Rightarrow> 'a kern_scheme \<Rightarrow> addr option" where
  "headq l s = head (tlists s l)"

subsection \<open>Stack check and context switch\<close>

definition needstack :: "int \<Rightarrow> 'a kern_scheme \<Rightarrow> halt + unit" where
  "needstack n s =
     bindR (running s) (\<lambda>t.
     bindR (kget t s) (\<lambda>tk.
     if uint (sp s) \<le> uint (stk tk) \<or> uint (sp s) - uint (stk tk) < 256 + n
     then Inl (Abort ''task stack overflow'') else Inr ()))"

text \<open>
  \<open>contextswitch\<close> in its two uses: from the running task to the scheduler, saving the place to
  resume, and from the scheduler to a task, which goes on at the place saved there.
\<close>

definition contextswitch_out :: "frame \<Rightarrow> 'a kern_scheme \<Rightarrow> halt + 'a kern_scheme" where
  "contextswitch_out f s =
     bindR (running s) (\<lambda>t.
     if swapcontext_r s < 0 then Inl (Assert ''0'') else kset t (\<lambda>tk. tk\<lparr>ctxt := f\<rparr>) s)"

definition contextswitch_in :: "addr \<Rightarrow> 'a kern_scheme \<Rightarrow> halt + frame" where
  "contextswitch_in t s =
     bindR (kget t s) (\<lambda>tk. if swapcontext_r s < 0 then Inl (Assert ''0'') else Inr (ctxt tk))"

definition taskswitch :: "frame \<Rightarrow> 'a kern_scheme \<Rightarrow> halt + 'a kern_scheme" where
  "taskswitch f s = bindR (needstack 0 s) (\<lambda>_. contextswitch_out f s)"

subsection \<open>Names and states\<close>

definition taskname :: "string \<Rightarrow> varg list \<Rightarrow> 'a kern_scheme \<Rightarrow> halt + 'a kern_scheme" where
  "taskname fmt args s =
     bindR (running s) (\<lambda>t.
     bindR (vsnprint (errstr s) 256 fmt args) (\<lambda>str.
     kset t (\<lambda>tk. tk\<lparr>tname := str\<rparr>) s))"

definition taskgetname :: "'a kern_scheme \<Rightarrow> halt + string" where
  "taskgetname s = bindR (running s) (\<lambda>t. bindR (kget t s) (\<lambda>tk. Inr (tname tk)))"

definition taskstate :: "string \<Rightarrow> varg list \<Rightarrow> 'a kern_scheme \<Rightarrow> halt + 'a kern_scheme" where
  "taskstate fmt args s =
     bindR (running s) (\<lambda>t.
     bindR (vsnprint (errstr s) 256 fmt args) (\<lambda>str.
     kset t (\<lambda>tk. tk\<lparr>tstate := str\<rparr>) s))"

definition taskgetstate :: "'a kern_scheme \<Rightarrow> halt + string" where
  "taskgetstate s = bindR (running s) (\<lambda>t. bindR (kget t s) (\<lambda>tk. Inr (tstate tk)))"

definition taskid :: "'a kern_scheme \<Rightarrow> halt + 32 word" where
  "taskid s = bindR (running s) (\<lambda>t. bindR (kget t s) (\<lambda>tk. Inr (tid tk)))"

text \<open>\<open>taskdata\<close> returns the address of a field; the model returns the task that holds it.\<close>

definition taskdata :: "'a kern_scheme \<Rightarrow> halt + addr" where
  "taskdata s = bindR (running s) (\<lambda>t. bindR (kget t s) (\<lambda>_. Inr t))"

subsection \<open>Creation\<close>

text \<open>
  What the C library answers while a task is created: the address \<open>malloc\<close> returns, the result
  of \<open>getcontext\<close>, and whether \<open>realloc\<close> succeeds.
\<close>

record libc =
  malloc_r :: "addr option"
  getcontext_r :: int
  realloc_ok :: bool

text \<open>
  The address of the task passes through \<open>makecontext\<close> as two 32-bit arguments, which
  \<open>taskstart\<close> puts together again. The shift \<open>x << 16\<close> of \<open>taskstart\<close> is a shift of a 32-bit
  value.
\<close>

definition split_ptr :: "addr \<Rightarrow> 32 word \<times> 32 word" where
  "split_ptr z = (let y = ucast z; z = drop_bit 16 z; x = ucast (drop_bit 16 z) in (y, x))"

definition join_ptr :: "32 word \<Rightarrow> 32 word \<Rightarrow> addr" where
  "join_ptr y x =
     (let z = ucast (push_bit 16 x :: 32 word) :: addr; z = push_bit 16 z in z OR ucast y)"

definition taskalloc ::
  "code \<Rightarrow> addr \<Rightarrow> 32 word \<Rightarrow> libc \<Rightarrow> 'a kern_scheme \<Rightarrow> halt + addr \<times> 'a kern_scheme" where
  "taskalloc fn arg stack lib s =
     (case malloc_r lib of
        None \<Rightarrow> Inl (Abort ''taskalloc malloc'')
      | Some t \<Rightarrow>
          (let stk = t + sizeof_Task s;
               idgen = taskidgen s + 1;
               (y, x) = split_ptr t
           in
           if getcontext_r lib < 0 then Inl (Abort ''getcontext'')
           else
             Inr (t, s\<lparr>taskidgen := idgen, heap := (heap s)(t \<mapsto>
               \<lparr>tname = [], tstate = [], nxt = None, prv = None, allnext = None, allprev = None,
                 ctxt = FStart y x, ss_sp = stk + 8, ss_size = ucast (stack - 64),
                 alarmtime = 0, tid = idgen, stk = stk, stksize = stack, exiting = False,
                 alltaskslot = 0, system = False, ready = False, startfn = fn, startarg = arg,
                 udata = None\<rparr>)\<rparr>)))"

definition taskready :: "addr \<Rightarrow> 'a kern_scheme \<Rightarrow> halt + 'a kern_scheme" where
  "taskready t s = bindR (kset t (\<lambda>tk. tk\<lparr>ready := True\<rparr>) s) (\<lambda>s. addq RunQueue t s)"

text \<open>\<open>realloc(alltask, n * sizeof(alltask[0]))\<close>; the cells that are added hold garbage.\<close>

definition realloc :: "addr list \<Rightarrow> nat \<Rightarrow> addr list" where
  "realloc a n = take n a @ replicate (n - length a) 0"

definition taskcreate ::
  "code \<Rightarrow> addr \<Rightarrow> 32 word \<Rightarrow> libc \<Rightarrow> 'a kern_scheme \<Rightarrow> halt + 32 word \<times> 'a kern_scheme" where
  "taskcreate fn arg stack lib s =
     bindR (taskalloc fn arg stack lib s) (\<lambda>(t, s).
     let s = s\<lparr>taskcount := taskcount s + 1\<rparr> in
     bindR (kget t s) (\<lambda>tk.
     let id = tid tk in
     bindR
       (if nalltask s mod 64 = 0
        then (if realloc_ok lib
              then Inr (s\<lparr>alltask := realloc (alltask s) (nalltask s + 64)\<rparr>)
              else Inl (Abort ''out of memory''))
        else Inr s)
       (\<lambda>s.
     bindR (kset t (\<lambda>tk. tk\<lparr>alltaskslot := nalltask s\<rparr>) s) (\<lambda>s.
     if nalltask s \<ge> length (alltask s) then Inl Segv
     else
       (let s = s\<lparr>alltask := (alltask s)[nalltask s := t], nalltask := nalltask s + 1\<rparr> in
        bindR (taskready t s) (\<lambda>s. Inr (id, s)))))))"

definition tasksystem :: "'a kern_scheme \<Rightarrow> halt + 'a kern_scheme" where
  "tasksystem s =
     bindR (running s) (\<lambda>t.
     bindR (kget t s) (\<lambda>tk.
     if \<not> system tk
     then bindR (kset t (\<lambda>tk. tk\<lparr>system := True\<rparr>) s) (\<lambda>s. Inr (s\<lparr>taskcount := taskcount s - 1\<rparr>))
     else Inr s))"

subsection \<open>Entering a new task\<close>

text \<open>\<open>taskstart\<close> calls the function and argument returned here, and then \<open>taskexit(0)\<close>.\<close>

definition taskstart :: "32 word \<Rightarrow> 32 word \<Rightarrow> 'a kern_scheme \<Rightarrow> halt + code \<times> addr" where
  "taskstart y x s =
     (let t = join_ptr y x in bindR (kget t s) (\<lambda>tk. Inr (startfn tk, startarg tk)))"

text \<open>\<open>taskmainstart\<close> goes on with the program's \<open>taskmain\<close>.\<close>

definition taskmainstart :: "'a kern_scheme \<Rightarrow> halt + 'a kern_scheme" where
  "taskmainstart s = taskname ''taskmain'' [] s"

subsection \<open>Giving up the processor\<close>

definition taskyield :: "'a kern_scheme \<Rightarrow> (int, 'a kern_scheme) co" where
  "taskyield s =
     (let n = tasknswitch s in
      blocks (
        bindR (running s) (\<lambda>t.
        bindR (taskready t s) (\<lambda>s.
        bindR (taskstate ''yield'' [] s) (\<lambda>s.
        taskswitch (FYield n) s)))))"

definition taskyield_resume :: "int \<Rightarrow> 'a kern_scheme \<Rightarrow> (int, 'a kern_scheme) co" where
  "taskyield_resume n s = Done (tasknswitch s - n - 1) s"

definition anyready :: "'a kern_scheme \<Rightarrow> bool" where
  "anyready s \<longleftrightarrow> headq RunQueue s \<noteq> None"

definition taskexitall :: "int \<Rightarrow> 'a kern_scheme \<Rightarrow> (unit, 'a kern_scheme) co" where
  "taskexitall val s = Halted (Exit val)"

definition taskexit :: "int \<Rightarrow> 'a kern_scheme \<Rightarrow> (unit, 'a kern_scheme) co" where
  "taskexit val s =
     (let s = s\<lparr>taskexitval := val\<rparr> in
      blocks (
        bindR (running s) (\<lambda>t.
        bindR (kset t (\<lambda>tk. tk\<lparr>exiting := True\<rparr>) s) (\<lambda>s.
        taskswitch FExit s))))"

subsection \<open>The scheduler\<close>

text \<open>
  One turn of the loop of \<open>taskscheduler\<close>, cut at the context switch in its middle:
  \<open>sched_pick\<close> runs up to the switch and yields the task switched to with the place at which it
  resumes; \<open>sched_back\<close> runs from the return of the switch to the end of the turn.
\<close>

definition sched_pick :: "'a kern_scheme \<Rightarrow> (addr \<times> frame, 'a kern_scheme) co" where
  "sched_pick s =
     (if taskcount s = 0 then Halted (Exit (taskexitval s))
      else
        (case headq RunQueue s of
           None \<Rightarrow> Halted (Exit 1)
         | Some t \<Rightarrow>
             bindC (delq RunQueue t s) (\<lambda>s.
             bindC (kset t (\<lambda>tk. tk\<lparr>ready := False\<rparr>) s) (\<lambda>s.
             let s = s\<lparr>taskrunning := Some t, tasknswitch := tasknswitch s + 1\<rparr> in
             bindC (contextswitch_in t s) (\<lambda>f. Done (t, f) s)))))"

definition sched_back :: "addr \<Rightarrow> 'a kern_scheme \<Rightarrow> halt + 'a kern_scheme" where
  "sched_back t s =
     (let s = s\<lparr>taskrunning := None\<rparr> in
      bindR (kget t s) (\<lambda>tk.
      if exiting tk then
        (let s = (if \<not> system tk then s\<lparr>taskcount := taskcount s - 1\<rparr> else s);
             i = alltaskslot tk
         in
         if nalltask s = 0 \<or> nalltask s > length (alltask s) \<or> i \<ge> length (alltask s) then Inl Segv
         else
           (let n = nalltask s - 1;
                u = alltask s ! n;
                s = s\<lparr>nalltask := n, alltask := (alltask s)[i := u]\<rparr>
            in
            bindR (kset u (\<lambda>uk. uk\<lparr>alltaskslot := i\<rparr>) s) (\<lambda>s.
            Inr (s\<lparr>heap := (heap s)(t := None)\<rparr>))))
      else Inr s))"

subsection \<open>Listing the tasks\<close>

definition taskinfo_line :: "addr \<Rightarrow> 'a kern_scheme \<Rightarrow> halt + int \<times> string" where
  "taskinfo_line t s =
     bindR (kget t s) (\<lambda>tk.
     let extra = (if taskrunning s = Some t then '' (running)''
                  else if ready tk then '' (ready)'' else '''')
     in fprint (errstr s) 2 (''%6d%c %-20s %s%s'' @ [CHR 0x0A])
          [Num (ucast (tid tk)), Num (if system tk then 115 else 32),
           Str (tname tk), Str (tstate tk), Str extra])"

fun taskinfo_loop :: "addr list \<Rightarrow> 'a kern_scheme \<Rightarrow> halt + (int \<times> string) list" where
  "taskinfo_loop [] s = Inr []"
| "taskinfo_loop (t # ts) s =
     bindR (taskinfo_line t s) (\<lambda>l. bindR (taskinfo_loop ts s) (\<lambda>ls. Inr (l # ls)))"

definition taskinfo :: "'a kern_scheme \<Rightarrow> halt + (int \<times> string) list" where
  "taskinfo s =
     bindR (fprint (errstr s) 2 (''task list:'' @ [CHR 0x0A]) []) (\<lambda>l.
     if nalltask s > length (alltask s) then Inl Segv
     else bindR (taskinfo_loop (take (nalltask s) (alltask s)) s) (\<lambda>ls. Inr (l # ls)))"

subsection \<open>Startup\<close>

text \<open>All globals are zero when \<open>main\<close> starts.\<close>

definition init_kern :: "addr \<Rightarrow> int \<Rightarrow> 64 word \<Rightarrow> string \<Rightarrow> kern" where
  "init_kern sp0 sw sz err =
     \<lparr>heap = (\<lambda>_. None), tlists = (\<lambda>_. \<lparr>head = None, tail = None\<rparr>), taskcount = 0,
       tasknswitch = 0, taskexitval = 0, taskrunning = None, alltask = [], nalltask = 0,
       taskidgen = 0, sp = sp0, swapcontext_r = sw, sizeof_Task = sz, errstr = err\<rparr>"

definition main :: "32 word \<Rightarrow> libc \<Rightarrow> 'a kern_scheme \<Rightarrow> halt + 32 word \<times> 'a kern_scheme" where
  "main mainstacksize lib s =
     (let mainstacksize = (if mainstacksize = 0 then 256 * 1024 else mainstacksize)
      in taskcreate Taskmainstart 0 mainstacksize lib s)"

subsection \<open>The kernel invariant\<close>

text \<open>
  \<open>kinv s L\<close>: the lists hold the disjoint sequences \<open>L\<close>, a task is marked ready exactly when it
  is in the run queue, and \<open>alltask\<close> lists every live task once, each at the index it records in
  \<open>alltaskslot\<close>, in an array whose size is at least the next multiple of 64.
\<close>

definition slots_ok :: "'a kern_scheme \<Rightarrow> bool" where
  "slots_ok s \<longleftrightarrow>
     64 * ((nalltask s + 63) div 64) \<le> length (alltask s) \<and>
     distinct (take (nalltask s) (alltask s)) \<and>
     set (take (nalltask s) (alltask s)) = dom (heap s) \<and>
     (\<forall>i < nalltask s. fld alltaskslot (heap s) (alltask s ! i) = Some i)"

definition ready_ok :: "'a kern_scheme \<Rightarrow> (lref \<Rightarrow> addr list) \<Rightarrow> bool" where
  "ready_ok s L \<longleftrightarrow> (\<forall>t. fld ready (heap s) t = Some True \<longleftrightarrow> t \<in> set (L RunQueue))"

definition kinv :: "'a kern_scheme \<Rightarrow> (lref \<Rightarrow> addr list) \<Rightarrow> bool" where
  "kinv s L \<longleftrightarrow> queues_ok (heap s) (tlists s) L \<and> ready_ok s L \<and> slots_ok s"

text \<open>\<open>off s L t\<close>: the live task \<open>t\<close> is in no list.\<close>

definition off :: "'a kern_scheme \<Rightarrow> (lref \<Rightarrow> addr list) \<Rightarrow> addr \<Rightarrow> bool" where
  "off s L t \<longleftrightarrow> t \<in> dom (heap s) \<and> (\<forall>l. t \<notin> set (L l))"

text \<open>
  \<open>kframe s s'\<close>: apart from links, ready flags and state strings of tasks, nothing changed; in
  particular the state of every component built on the kernel is the same.
\<close>

definition kframe :: "'a kern_scheme \<Rightarrow> 'a kern_scheme \<Rightarrow> bool" where
  "kframe s s' \<longleftrightarrow>
     s' = s\<lparr>heap := heap s', tlists := tlists s'\<rparr> \<and> agree undisp (heap s) (heap s')"

lemma kframe_refl [simp]: "kframe s s"
  by (simp add: kframe_def)

lemma kframe_intro:
  "agree undisp (heap s) h \<Longrightarrow> kframe s (s\<lparr>heap := h, tlists := q\<rparr>)"
  by (simp add: kframe_def)

lemma kframe_elim:
  assumes "kframe s s'"
  obtains h q where "s' = s\<lparr>heap := h, tlists := q\<rparr>" "agree undisp (heap s) h"
  using assms unfolding kframe_def by blast

lemma kframe_trans [trans]:
  assumes "kframe s s'" "kframe s' s''"
  shows "kframe s s''"
proof -
  from assms(1) obtain h q where 1: "s' = s\<lparr>heap := h, tlists := q\<rparr>" "agree undisp (heap s) h"
    by (rule kframe_elim)
  from assms(2) obtain h' q' where 2: "s'' = s'\<lparr>heap := h', tlists := q'\<rparr>" "agree undisp (heap s') h'"
    by (rule kframe_elim)
  from 1 2 have "agree undisp (heap s) h'" by (auto intro: agree_trans)
  then show ?thesis by (simp add: 1 2 kframe_def)
qed

lemma kframe_fields:
  assumes "kframe s s'"
  shows "taskcount s' = taskcount s" "tasknswitch s' = tasknswitch s"
    "taskexitval s' = taskexitval s" "taskrunning s' = taskrunning s"
    "alltask s' = alltask s" "nalltask s' = nalltask s" "taskidgen s' = taskidgen s"
    "sp s' = sp s" "swapcontext_r s' = swapcontext_r s" "sizeof_Task s' = sizeof_Task s"
    "errstr s' = errstr s" "kern.more s' = kern.more s"
  by (rule kframe_elim [OF assms], simp)+

lemma kframe_heap: "kframe s s' \<Longrightarrow> agree undisp (heap s) (heap s')"
  by (simp add: kframe_def)

lemma kframe_dom: "kframe s s' \<Longrightarrow> dom (heap s') = dom (heap s)"
  by (rule agree_dom [OF kframe_heap])

lemma slots_ok_frame: "kframe s s' \<Longrightarrow> slots_ok s \<Longrightarrow> slots_ok s'"
  by (simp add: slots_ok_def kframe_fields kframe_dom agree_fld [OF kframe_heap])

lemma off_frame: "kframe s s' \<Longrightarrow> off s' L t \<longleftrightarrow> off s L t"
  by (simp add: off_def kframe_dom)

text \<open>Operations on the lists, for a caller that keeps track of the sequences.\<close>

lemma headq_first: "kinv s L \<Longrightarrow> headq l s = first (L l)"
  using queues_dll [of "heap s" "tlists s" L l] by (auto simp: kinv_def headq_def dest: dll_head)

lemma addq_runs:
  assumes "queues_ok (heap s) (tlists s) L" "off s L t"
  shows "runs (addq l t s) (\<lambda>s'. queues_ok (heap s') (tlists s') (L(l := L l @ [t])) \<and> kframe s s' \<and> agree unlink (heap s) (heap s'))"
  using addtask_queues [OF assms(1), of t l] assms(2)
  by (auto simp: addq_def off_def runs_iff bindR_eq_Inr intro!: kframe_intro elim!: agree_weaken)

lemma delq_runs:
  assumes "queues_ok (heap s) (tlists s) L" "t \<in> set (L l)"
  shows "runs (delq l t s) (\<lambda>s'. queues_ok (heap s') (tlists s') (L(l := remove1 t (L l))) \<and> kframe s s' \<and> agree unlink (heap s) (heap s'))"
  using deltask_queues [OF assms(1), of t l] assms(2)
  by (auto simp: delq_def runs_iff bindR_eq_Inr intro!: kframe_intro elim!: agree_weaken)

lemma kget_runs [simp]: "runs (kget t s) P \<longleftrightarrow> (\<exists>tk. heap s t = Some tk \<and> P tk)"
  by (simp add: kget_def)

lemma kset_runs [simp]:
  "runs (kset t f s) P \<longleftrightarrow> (\<exists>tk. heap s t = Some tk \<and> P (s\<lparr>heap := (heap s)(t \<mapsto> f tk)\<rparr>))"
  by (simp add: kset_def)

lemma running_runs [simp]: "runs (running s) P \<longleftrightarrow> (\<exists>t. taskrunning s = Some t \<and> P t)"
  by (simp add: running_def split: option.split)

text \<open>Writing a field other than the links keeps every list.\<close>

lemma queues_data:
  assumes "queues_ok h T L" "h t = Some tk" "nxt tk' = nxt tk" "prv tk' = prv tk"
  shows "queues_ok (h(t \<mapsto> tk')) T L"
proof -
  have "\<forall>u. same_links h (h(t \<mapsto> tk')) u" using assms by (simp add: same_links_def)
  with assms(1) show ?thesis by (simp add: queues_same_links)
qed

lemma addq_kinv:
  assumes k: "kinv s L" and t: "off s L t" and l: "l \<noteq> RunQueue"
  shows "runs (addq l t s) (\<lambda>s'. kinv s' (L(l := L l @ [t])) \<and> kframe s s')"
proof (rule runs_mono [OF addq_runs [OF _ t]])
  show "queues_ok (heap s) (tlists s) L" using k by (simp add: kinv_def)
  fix s' assume s': "queues_ok (heap s') (tlists s') (L(l := L l @ [t])) \<and> kframe s s' \<and>
      agree unlink (heap s) (heap s')"
  then have "fld ready (heap s') u = fld ready (heap s) u" for u
    by (auto intro: agree_fld)
  with s' k l show "kinv s' (L(l := L l @ [t])) \<and> kframe s s'"
    by (auto simp: kinv_def ready_ok_def intro: slots_ok_frame)
qed

lemma delq_kinv:
  assumes k: "kinv s L" and t: "t \<in> set (L l)" and l: "l \<noteq> RunQueue"
  shows "runs (delq l t s)
    (\<lambda>s'. kinv s' (L(l := remove1 t (L l))) \<and> kframe s s' \<and> off s' (L(l := remove1 t (L l))) t)"
proof (rule runs_mono [OF delq_runs [of s L t l]])
  show q: "queues_ok (heap s) (tlists s) L" using k by (simp add: kinv_def)
  show "t \<in> set (L l)" by (rule t)
  fix s' assume s': "queues_ok (heap s') (tlists s') (L(l := remove1 t (L l))) \<and> kframe s s' \<and>
      agree unlink (heap s) (heap s')"
  then have "fld ready (heap s') u = fld ready (heap s) u" for u
    by (auto intro: agree_fld)
  moreover have "off s (L(l := remove1 t (L l))) t"
    using dll_distinct [OF queues_dll [OF q]] dll_in_dom [OF queues_dll [OF q]]
      queues_disjoint [OF q _ t] t by (force simp: off_def)
  ultimately show "kinv s' (L(l := remove1 t (L l))) \<and> kframe s s' \<and>
      off s' (L(l := remove1 t (L l))) t"
    using s' k l by (auto simp: kinv_def ready_ok_def off_frame intro: slots_ok_frame)
qed

lemma taskready_kinv:
  assumes k: "kinv s L" and t: "off s L t"
  shows "runs (taskready t s)
    (\<lambda>s'. kinv s' (L(RunQueue := L RunQueue @ [t])) \<and> kframe s s')"
proof -
  from t obtain tk where tk: "heap s t = Some tk" by (auto simp: off_def)
  let ?s = "s\<lparr>heap := (heap s)(t \<mapsto> tk\<lparr>ready := True\<rparr>)\<rparr>"
  have q: "queues_ok (heap ?s) (tlists ?s) L"
    using k tk by (auto simp: kinv_def intro: queues_data)
  have fr: "kframe s ?s"
    using tk kframe_intro [of s "heap ?s" "tlists s"] by (simp add: undisp_def)
  from t fr have "off ?s L t" by (simp add: off_frame)
  note add = addq_runs [OF q this, of RunQueue]
  have "runs (addq RunQueue t ?s) (\<lambda>s'. kinv s' (L(RunQueue := L RunQueue @ [t])) \<and> kframe s s')"
  proof (rule runs_mono [OF add])
    fix s' assume s': "queues_ok (heap s') (tlists s') (L(RunQueue := L RunQueue @ [t])) \<and>
        kframe ?s s' \<and> agree unlink (heap ?s) (heap s')"
    then have "fld ready (heap s') u = fld ready (heap ?s) u" for u
      by (auto intro: agree_fld)
    moreover have "fld ready (heap ?s) u = (if u = t then Some True else fld ready (heap s) u)" for u
      by (simp add: fld_def)
    ultimately have "ready_ok s' (L(RunQueue := L RunQueue @ [t]))"
      using k by (auto simp: kinv_def ready_ok_def)
    moreover have fr': "kframe s s'" using fr s' kframe_trans by blast
    moreover have "slots_ok s'" using k slots_ok_frame [OF fr'] by (simp add: kinv_def)
    ultimately show "kinv s' (L(RunQueue := L RunQueue @ [t])) \<and> kframe s s'"
      using s' by (simp add: kinv_def)
  qed
  with tk show ?thesis by (simp add: taskready_def)
qed

subsection \<open>Strings, the stack check and the switch\<close>

definition plain :: "string \<Rightarrow> bool" where
  "plain fmt \<longleftrightarrow> CHR ''%'' \<notin> set fmt"

lemma vsnprint_plain:
  "plain fmt \<Longrightarrow> vsnprint err 256 fmt args = Inr (take 255 fmt)"
  by (simp add: vsnprint_def vseprint_plain plain_def)

text \<open>\<open>stack_room n t s\<close>: task \<open>t\<close> has the processor, \<open>needstack(n)\<close> passes and \<open>swapcontext\<close> works.\<close>

definition stack_room :: "int \<Rightarrow> addr \<Rightarrow> 'a kern_scheme \<Rightarrow> bool" where
  "stack_room n t s \<longleftrightarrow>
     taskrunning s = Some t \<and> 0 \<le> swapcontext_r s \<and>
     (\<exists>k. fld stk (heap s) t = Some k \<and>
        uint k < uint (sp s) \<and> 256 + n \<le> uint (sp s) - uint k)"

lemma stack_room_frame: "kframe s s' \<Longrightarrow> stack_room n t s' = stack_room n t s"
  by (simp add: stack_room_def kframe_fields agree_fld [OF kframe_heap])

lemma stack_room_mono: "stack_room n t s \<Longrightarrow> m \<le> n \<Longrightarrow> stack_room m t s"
  by (auto simp: stack_room_def)

lemma needstack_ok: "stack_room n t s \<Longrightarrow> needstack n s = Inr ()"
  by (auto simp: stack_room_def needstack_def running_def kget_def tget_def fld_def
      split: option.splits)

text \<open>
  \<open>kblock t f s s'\<close>: task \<open>t\<close> has left the processor, to resume at \<open>f\<close>; the saved places of all
  other tasks and everything that \<open>kframe\<close> keeps are as before.
\<close>

definition unctx :: "task \<Rightarrow> task" where
  "unctx tk = undisp tk\<lparr>ctxt := FExit\<rparr>"

lemma unctx_simps [simp]:
  "tname (unctx x) = tname x" "ss_sp (unctx x) = ss_sp x" "ss_size (unctx x) = ss_size x"
  "alarmtime (unctx x) = alarmtime x" "tid (unctx x) = tid x" "stk (unctx x) = stk x"
  "stksize (unctx x) = stksize x" "exiting (unctx x) = exiting x"
  "alltaskslot (unctx x) = alltaskslot x" "system (unctx x) = system x"
  "startfn (unctx x) = startfn x" "startarg (unctx x) = startarg x" "udata (unctx x) = udata x"
  "unctx (undisp x) = unctx x" "unctx (x\<lparr>ctxt := f\<rparr>) = unctx x"
  by (simp_all add: unctx_def undisp_def)

definition kblock :: "addr \<Rightarrow> frame \<Rightarrow> 'a kern_scheme \<Rightarrow> 'a kern_scheme \<Rightarrow> bool" where
  "kblock t f s s' \<longleftrightarrow>
     s' = s\<lparr>heap := heap s', tlists := tlists s'\<rparr> \<and> agree unctx (heap s) (heap s') \<and>
     fld ctxt (heap s') = (fld ctxt (heap s))(t \<mapsto> f)"

lemma kblock_elim:
  assumes "kblock t f s s'"
  obtains h q where "s' = s\<lparr>heap := h, tlists := q\<rparr>" "agree unctx (heap s) h"
    "fld ctxt h = (fld ctxt (heap s))(t \<mapsto> f)"
  using assms unfolding kblock_def by blast

lemma kblock_fields:
  assumes "kblock t f s s'"
  shows "taskcount s' = taskcount s" "tasknswitch s' = tasknswitch s"
    "taskexitval s' = taskexitval s" "taskrunning s' = taskrunning s"
    "alltask s' = alltask s" "nalltask s' = nalltask s" "taskidgen s' = taskidgen s"
    "sp s' = sp s" "swapcontext_r s' = swapcontext_r s" "sizeof_Task s' = sizeof_Task s"
    "errstr s' = errstr s" "kern.more s' = kern.more s"
  by (rule kblock_elim [OF assms], simp)+

lemma kblock_heap: "kblock t f s s' \<Longrightarrow> agree unctx (heap s) (heap s')"
  by (simp add: kblock_def)

lemma kblock_dom: "kblock t f s s' \<Longrightarrow> dom (heap s') = dom (heap s)"
  by (rule agree_dom [OF kblock_heap])

lemma kblock_ctxt: "kblock t f s s' \<Longrightarrow> fld ctxt (heap s') = (fld ctxt (heap s))(t \<mapsto> f)"
  by (simp add: kblock_def)

lemma kframe_kblock:
  assumes "kframe s s'" "kblock t f s' s''"
  shows "kblock t f s s''"
proof -
  from assms(1) obtain h q where 1: "s' = s\<lparr>heap := h, tlists := q\<rparr>" "agree undisp (heap s) h"
    by (rule kframe_elim)
  from assms(2) obtain h' q' where 2: "s'' = s'\<lparr>heap := h', tlists := q'\<rparr>" "agree unctx (heap s') h'"
    "fld ctxt h' = (fld ctxt (heap s'))(t \<mapsto> f)"
    by (rule kblock_elim)
  from 1(2) have "agree unctx (heap s) h" by (rule agree_weaken) simp
  moreover from 1(2) have "fld ctxt h = fld ctxt (heap s)" by (auto simp: agree_fld)
  ultimately show ?thesis using 1 2 by (auto simp: kblock_def intro: agree_trans)
qed

lemma ctxt_frame: "kframe s s' \<Longrightarrow> fld ctxt (heap s') = fld ctxt (heap s)"
  by (rule ext) (rule agree_fld [OF kframe_heap], simp_all)

lemma kinv_data:
  assumes k: "kinv s L" and t: "heap s t = Some tk"
    and same: "nxt tk' = nxt tk" "prv tk' = prv tk" "ready tk' = ready tk" "alltaskslot tk' = alltaskslot tk"
  shows "kinv (s\<lparr>heap := (heap s)(t \<mapsto> tk')\<rparr>) L"
proof -
  have "queues_ok ((heap s)(t \<mapsto> tk')) (tlists s) L"
    using k t same by (auto simp: kinv_def intro: queues_data)
  moreover have "fld ready ((heap s)(t \<mapsto> tk')) = fld ready (heap s)"
    "fld alltaskslot ((heap s)(t \<mapsto> tk')) = fld alltaskslot (heap s)"
    using t same by (auto simp: fld_def)
  moreover have "dom ((heap s)(t \<mapsto> tk')) = dom (heap s)" using t by auto
  ultimately show ?thesis
    using k by (simp add: kinv_def ready_ok_def slots_ok_def del: dom_fun_upd)
qed

lemma taskstate_kinv:
  assumes "kinv s L" "stack_room n t s" "plain fmt"
  shows "runs (taskstate fmt args s) (\<lambda>s'. kinv s' L \<and> kframe s s')"
proof -
  from assms(2) obtain tk where "taskrunning s = Some t" "heap s t = Some tk"
    by (auto simp: stack_room_def fld_def split: option.splits)
  with assms kinv_data [OF assms(1)] show ?thesis
    by (simp add: taskstate_def vsnprint_plain kframe_def undisp_def)
qed

lemma taskswitch_kinv:
  assumes "kinv s L" "stack_room 0 t s"
  shows "runs (taskswitch f s) (\<lambda>s'. kinv s' L \<and> kblock t f s s')"
proof -
  from assms(2) obtain tk where "taskrunning s = Some t" "heap s t = Some tk" "0 \<le> swapcontext_r s"
    by (auto simp: stack_room_def fld_def split: option.splits)
  with assms kinv_data [OF assms(1)] show ?thesis
    by (simp add: taskswitch_def contextswitch_out_def needstack_ok kblock_def)
       (auto simp: fld_def)
qed

subsection \<open>The interface to the components\<close>

text \<open>
  What a component that makes tasks wait needs of the kernel: queues that it can append to and
  remove from, a way to make a task ready, and a way to leave the processor. Its two idioms,
  waiting on a queue and waking the first waiter, are proved once here.
\<close>

locale task_services =
  fixes inv :: "'s \<Rightarrow> ('q \<Rightarrow> 't list) \<Rightarrow> bool"
    and idle :: "'s \<Rightarrow> ('q \<Rightarrow> 't list) \<Rightarrow> 't \<Rightarrow> bool"
    and same :: "'s \<Rightarrow> 's \<Rightarrow> bool"
    and slept :: "'t \<Rightarrow> 'f \<Rightarrow> 's \<Rightarrow> 's \<Rightarrow> bool"
    and cpu :: "'t \<Rightarrow> 's \<Rightarrow> bool"
    and runq :: 'q
    and hd_of :: "'q \<Rightarrow> 's \<Rightarrow> 't option"
    and add :: "'q \<Rightarrow> 't \<Rightarrow> 's \<Rightarrow> halt + 's"
    and del :: "'q \<Rightarrow> 't \<Rightarrow> 's \<Rightarrow> halt + 's"
    and rdy :: "'t \<Rightarrow> 's \<Rightarrow> halt + 's"
    and say :: "string \<Rightarrow> 's \<Rightarrow> halt + 's"
    and switch :: "'f \<Rightarrow> 's \<Rightarrow> halt + 's"
  assumes head_law: "inv s L \<Longrightarrow> hd_of l s = first (L l)"
    and add_law: "inv s L \<Longrightarrow> idle s L t \<Longrightarrow> l \<noteq> runq \<Longrightarrow>
      runs (add l t s) (\<lambda>s'. inv s' (L(l := L l @ [t])) \<and> same s s')"
    and del_law: "inv s L \<Longrightarrow> t \<in> set (L l) \<Longrightarrow> l \<noteq> runq \<Longrightarrow>
      runs (del l t s) (\<lambda>s'. inv s' (L(l := remove1 t (L l))) \<and> same s s' \<and>
        idle s' (L(l := remove1 t (L l))) t)"
    and ready_law: "inv s L \<Longrightarrow> idle s L t \<Longrightarrow>
      runs (rdy t s) (\<lambda>s'. inv s' (L(runq := L runq @ [t])) \<and> same s s')"
    and say_law: "inv s L \<Longrightarrow> cpu t s \<Longrightarrow> plain m \<Longrightarrow> runs (say m s) (\<lambda>s'. inv s' L \<and> same s s')"
    and switch_law: "inv s L \<Longrightarrow> cpu t s \<Longrightarrow> runs (switch f s) (\<lambda>s'. inv s' L \<and> slept t f s s')"
    and same_trans: "same s s' \<Longrightarrow> same s' s'' \<Longrightarrow> same s s''"
    and same_cpu: "same s s' \<Longrightarrow> cpu t s \<Longrightarrow> cpu t s'"
    and same_slept: "same s s' \<Longrightarrow> slept t f s' s'' \<Longrightarrow> slept t f s s''"
begin

lemma wake_first:
  assumes "inv s L" "L l = t # ts" "l \<noteq> runq"
  shows "runs (bindR (del l t s) (rdy t))
    (\<lambda>s'. inv s' (L(l := ts, runq := L runq @ [t])) \<and> same s s')"
proof -
  let ?L = "L(l := ts)"
  from assms del_law [of s L t l] obtain s1
    where s1: "del l t s = Inr s1" "inv s1 ?L" "same s s1" "idle s1 ?L t"
    by (auto simp: runs_iff)
  from ready_law [OF s1(2,4)] obtain s2
    where "rdy t s1 = Inr s2" "inv s2 (?L(runq := ?L runq @ [t]))" "same s1 s2"
    by (auto simp: runs_iff)
  with s1 assms(3) show ?thesis by (auto intro: same_trans)
qed

text \<open>The same with a change \<open>g\<close> to the component's own state between the two calls.\<close>

lemma wake_first_upd:
  assumes "inv s L" "L l = t # ts" "l \<noteq> runq"
    and g: "\<And>s L. inv s L \<Longrightarrow> inv (g s) L" "\<And>s L. idle s L t \<Longrightarrow> idle (g s) L t"
  shows "runs (bindR (del l t s) (\<lambda>s. rdy t (g s)))
    (\<lambda>s'. inv s' (L(l := ts, runq := L runq @ [t])) \<and> (\<exists>s1. same s s1 \<and> same (g s1) s'))"
proof -
  let ?L = "L(l := ts)"
  from assms(1-3) del_law [of s L t l] obtain s1
    where s1: "del l t s = Inr s1" "inv s1 ?L" "same s s1" "idle s1 ?L t"
    by (auto simp: runs_iff)
  from ready_law [OF g(1) [OF s1(2)] g(2) [OF s1(4)]] obtain s2
    where "rdy t (g s1) = Inr s2" "inv s2 (?L(runq := ?L runq @ [t]))" "same (g s1) s2"
    by (auto simp: runs_iff)
  with s1 assms(3) show ?thesis by auto
qed

lemma wait_on:
  assumes "inv s L" "idle s L t" "cpu t s" "l \<noteq> runq" "plain m"
  shows "runs (bindR (add l t s) (\<lambda>s. bindR (say m s) (switch f)))
    (\<lambda>s'. inv s' (L(l := L l @ [t])) \<and> slept t f s s')"
proof -
  let ?L = "L(l := L l @ [t])"
  from add_law [OF assms(1,2,4)] obtain s1
    where s1: "add l t s = Inr s1" "inv s1 ?L" "same s s1"
    by (auto simp: runs_iff)
  from same_cpu [OF s1(3) assms(3)] have c1: "cpu t s1" .
  from say_law [OF s1(2) c1 assms(5)] obtain s2
    where s2: "say m s1 = Inr s2" "inv s2 ?L" "same s1 s2"
    by (auto simp: runs_iff)
  from switch_law [OF s2(2) same_cpu [OF s2(3) c1]] obtain s3
    where s3: "switch f s2 = Inr s3" "inv s3 ?L" "slept t f s2 s3"
    by (auto simp: runs_iff)
  from same_slept [OF same_trans [OF s1(3) s2(3)] s3(3)] have "slept t f s s3" .
  with s1 s2 s3 show ?thesis by simp
qed

end

interpretation kt: task_services kinv off kframe kblock "stack_room 0" RunQueue headq addq delq
  taskready "\<lambda>m s. taskstate m [] s" taskswitch
proof
qed (auto intro: headq_first addq_kinv delq_kinv taskready_kinv taskstate_kinv taskswitch_kinv
       kframe_trans kframe_kblock simp: stack_room_frame)

end
