(* ===== verification/Fifo.thy ===== *)
theory Fifo
  imports Prelude
begin

text \<open>
  The contract of a first-in first-out queue, which several parts of the library keep: the run
  queue of the scheduler, the waiters of a \<open>QLock\<close>, the ring buffer of a channel. It is stated for
  operations on a state \<open>'s\<close> of any kind; \<open>flow\<close> follows a queue through any interleaving of
  additions, removals and steps that leave it alone.
\<close>

text \<open>
  \<open>put v\<close> adds the element \<open>val v s\<close>, where it is allowed; \<open>get w\<close> takes out the element \<open>out s\<close>.
  The parameters \<open>v\<close> and \<open>w\<close> say what is added and where a removed element goes.
\<close>

inductive flow ::
  "('s \<Rightarrow> bool) \<Rightarrow> ('s \<Rightarrow> 'e list) \<Rightarrow> ('v \<Rightarrow> 's \<Rightarrow> bool) \<Rightarrow> ('s \<Rightarrow> bool) \<Rightarrow>
     ('v \<Rightarrow> 's \<Rightarrow> halt + 's) \<Rightarrow> ('v \<Rightarrow> 's \<Rightarrow> 'e) \<Rightarrow> ('w \<Rightarrow> 's \<Rightarrow> halt + 's) \<Rightarrow> ('s \<Rightarrow> 'e) \<Rightarrow>
     's \<Rightarrow> 'e list \<Rightarrow> 'e list \<Rightarrow> 's \<Rightarrow> bool"
  for ok queue can_put can_get put val get out
where
  start: "flow ok queue can_put can_get put val get out s [] [] s"
| sent: "flow ok queue can_put can_get put val get out s xs ys s' \<Longrightarrow> can_put v s' \<Longrightarrow>
     put v s' = Inr s'' \<Longrightarrow> flow ok queue can_put can_get put val get out s (xs @ [val v s']) ys s''"
| received: "flow ok queue can_put can_get put val get out s xs ys s' \<Longrightarrow> can_get s' \<Longrightarrow>
     get w s' = Inr s'' \<Longrightarrow> flow ok queue can_put can_get put val get out s xs (ys @ [out s']) s''"
| other: "flow ok queue can_put can_get put val get out s xs ys s' \<Longrightarrow> ok s'' \<Longrightarrow>
     queue s'' = queue s' \<Longrightarrow> flow ok queue can_put can_get put val get out s xs ys s''"

locale fifo =
  fixes ok :: "'s \<Rightarrow> bool"
    and queue :: "'s \<Rightarrow> 'e list"
    and can_put :: "'v \<Rightarrow> 's \<Rightarrow> bool"
    and can_get :: "'s \<Rightarrow> bool"
    and put :: "'v \<Rightarrow> 's \<Rightarrow> halt + 's"
    and val :: "'v \<Rightarrow> 's \<Rightarrow> 'e"
    and get :: "'w \<Rightarrow> 's \<Rightarrow> halt + 's"
    and out :: "'s \<Rightarrow> 'e"
  assumes put_law: "ok s \<Longrightarrow> can_put v s \<Longrightarrow>
      runs (put v s) (\<lambda>s'. ok s' \<and> queue s' = queue s @ [val v s])"
    and get_law: "ok s \<Longrightarrow> can_get s \<Longrightarrow>
      runs (get w s) (\<lambda>s'. ok s' \<and> queue s = out s # queue s')"
begin

text \<open>Whatever the interleaving, what came out followed by what is still inside is what went in.\<close>

lemma stream:
  assumes "flow ok queue can_put can_get put val get out s xs ys s'" "ok s"
  shows "ok s' \<and> ys @ queue s' = queue s @ xs"
  using assms
proof (induction rule: flow.induct)
  case (sent s xs ys s' v s'')
  then show ?case using put_law [of s' v] by (auto simp: runs_iff)
next
  case (received s xs ys s' w s'')
  then show ?case using get_law [of s' w] by (auto simp: runs_iff)
qed simp_all

text \<open>From an empty queue, the elements come out in the order in which they went in.\<close>

lemma in_order:
  assumes "flow ok queue can_put can_get put val get out s xs ys s'" "ok s" "queue s = []"
  shows "ys = take (length ys) xs" "queue s' = drop (length ys) xs"
proof -
  have "xs = ys @ queue s'" using stream [OF assms(1,2)] assms(3) by simp
  then show "ys = take (length ys) xs" "queue s' = drop (length ys) xs" by simp_all
qed

end

end
