(* ===== verification/Scheduler.thy ===== *)
theory Scheduler
  imports Task Fifo
begin

text \<open>
  What the operations of \<open>task.c\<close> do to the sequences of the kernel: creation, the turns of the
  scheduler, yielding, exiting. Each lemma gives the result under the kernel invariant \<open>kinv\<close>,
  shows that the invariant holds again, and says what is unchanged.
\<close>

subsection \<open>The pointer passed through makecontext\<close>

lemma join_split_ptr: "uint z < 2 ^ 48 \<Longrightarrow> (case split_ptr z of (y, x) \<Rightarrow> join_ptr y x) = z"
proof -
  assume "uint z < 2 ^ 48"
  then have "take_bit 48 (uint z) = uint z" by (simp add: take_bit_int_eq_self_iff)
  then have "take_bit 48 z = z" by (metis unsigned_take_bit_eq unsigned_word_eqI)
  then have hi: "bit z n \<Longrightarrow> n < 48" for n by (metis bit_take_bit_iff)
  show ?thesis
    unfolding split_ptr_def join_ptr_def Let_def prod.case
    by (rule bit_word_eqI) (auto simp: bit_simps dest: hi)
qed

subsection \<open>Creation\<close>

text \<open>The C library calls succeed, and \<open>malloc\<close> returns memory that no live task occupies.\<close>

definition alloc_ok :: "libc \<Rightarrow> addr \<Rightarrow> 'a kern_scheme \<Rightarrow> bool" where
  "alloc_ok lib p s \<longleftrightarrow>
     malloc_r lib = Some p \<and> heap s p = None \<and> 0 \<le> getcontext_r lib \<and> realloc_ok lib"

lemma round_up_64:
  fixes n :: nat
  shows "64 * ((n + 1 + 63) div 64) = (if n mod 64 = 0 then n + 64 else 64 * ((n + 63) div 64))"
    and "n mod 64 \<noteq> 0 \<Longrightarrow> n < 64 * ((n + 63) div 64)"
proof -
  obtain q r where n: "n = 64 * q + r" and r: "r < 64"
    by (metis mod_less_divisor mult_div_mod_eq zero_less_numeral)
  have 0: "n mod 64 = r" using n r by simp
  have 1: "(n + 1 + 63) div 64 = q + 1" using n r by (intro div_nat_eqI) auto
  have 2: "(n + 63) div 64 = (if r = 0 then q else q + 1)" using n r by (intro div_nat_eqI) auto
  from n r 0 1 2 show
    "64 * ((n + 1 + 63) div 64) = (if n mod 64 = 0 then n + 64 else 64 * ((n + 63) div 64))"
    by auto
  from n r 0 2 show "n mod 64 \<noteq> 0 \<Longrightarrow> n < 64 * ((n + 63) div 64)" by auto
qed

lemma slots_ok_insert:
  assumes "slots_ok s" "heap s p = None"
    and a: "a = (if nalltask s mod 64 = 0 then realloc (alltask s) (nalltask s + 64) else alltask s)"
    and tk: "alltaskslot tk = nalltask s"
  shows "nalltask s < length a"
    "slots_ok (s\<lparr>heap := (heap s)(p \<mapsto> tk), alltask := a[nalltask s := p], nalltask := nalltask s + 1\<rparr>)"
proof -
  let ?n = "nalltask s"
  from assms(1) have cap: "64 * ((?n + 63) div 64) \<le> length (alltask s)"
    and dist: "distinct (take ?n (alltask s))" and dom: "set (take ?n (alltask s)) = dom (heap s)"
    and slot: "\<forall>i < ?n. fld alltaskslot (heap s) (alltask s ! i) = Some i"
    by (auto simp: slots_ok_def)
  from cap have n: "?n \<le> length (alltask s)" by linarith
  have la: "length a = (if ?n mod 64 = 0 then ?n + 64 else length (alltask s))"
    using a n by (auto simp: realloc_def min_def)
  with la cap round_up_64(2) [of ?n] show lt: "?n < length a" by (auto simp: not_less)
  have take: "take ?n a = take ?n (alltask s)"
    using a n by (simp add: realloc_def)
  then have nth: "i < ?n \<Longrightarrow> a ! i = alltask s ! i" for i by (metis nth_take)
  from lt take have t': "take (?n + 1) (a[?n := p]) = take ?n (alltask s) @ [p]"
    by (simp add: take_Suc_conv_app_nth)
  have cap': "64 * ((?n + 1 + 63) div 64) \<le> length a"
    using la cap round_up_64(1) [of ?n] by (simp split: if_splits)
  from assms(2) dom have new: "p \<notin> set (take ?n (alltask s))" by auto
  have "fld alltaskslot ((heap s)(p \<mapsto> tk)) (a[?n := p] ! i) = Some i" if "i < ?n + 1" for i
  proof (cases "i = ?n")
    case True
    with lt tk show ?thesis by (simp add: fld_def)
  next
    case False
    with that have i: "i < ?n" by simp
    then have "alltask s ! i \<in> set (take ?n (alltask s))"
      using n by (auto simp: in_set_conv_nth intro!: exI [of _ i])
    with new have "alltask s ! i \<noteq> p" by auto
    with i slot nth False show ?thesis by (simp add: fld_def)
  qed
  with cap' t' dist dom new lt show "slots_ok (s\<lparr>heap := (heap s)(p \<mapsto> tk),
      alltask := a[?n := p], nalltask := ?n + 1\<rparr>)"
    by (auto simp: slots_ok_def)
qed

lemma queues_insert:
  assumes "queues_ok h T L" "h p = None"
  shows "queues_ok (h(p \<mapsto> tk)) T L"
proof -
  have "dll (h(p \<mapsto> tk)) (T i) (L i)" for i
  proof -
    from dll_in_dom [OF queues_dll [OF assms(1), of i]] assms(2) have "p \<notin> set (L i)" by auto
    then have "dll (h(p \<mapsto> tk)) (T i) (L i) = dll h (T i) (L i)"
      by (intro dll_cong) (auto simp: same_links_def)
    with queues_dll [OF assms(1)] show ?thesis by simp
  qed
  with assms(1) show ?thesis by (simp add: queues_ok_def)
qed

definition fresh_task :: "code \<Rightarrow> addr \<Rightarrow> 32 word \<Rightarrow> addr \<Rightarrow> 'a kern_scheme \<Rightarrow> task" where
  "fresh_task fn arg stack p s =
     \<lparr>tname = [], tstate = [], nxt = None, prv = None, allnext = None, allprev = None,
       ctxt = FStart (fst (split_ptr p)) (snd (split_ptr p)), ss_sp = p + sizeof_Task s + 8,
       ss_size = ucast (stack - 64), alarmtime = 0, tid = taskidgen s + 1,
       stk = p + sizeof_Task s, stksize = stack, exiting = False, alltaskslot = nalltask s,
       system = False, ready = False, startfn = fn, startarg = arg, udata = None\<rparr>"

lemma taskcreate_runs:
  assumes k: "kinv s L" and a: "alloc_ok lib p s"
  shows "runs (taskcreate fn arg stack lib s) (\<lambda>(id, s').
    id = taskidgen s + 1 \<and> kinv s' (L(RunQueue := L RunQueue @ [p])) \<and>
    taskcount s' = taskcount s + 1 \<and> taskrunning s' = taskrunning s \<and>
    agree undisp ((heap s)(p \<mapsto> fresh_task fn arg stack p s)) (heap s') \<and>
    sp s' = sp s \<and> swapcontext_r s' = swapcontext_r s \<and> kern.more s' = kern.more s)"
proof -
  let ?a = "if nalltask s mod 64 = 0 then realloc (alltask s) (nalltask s + 64) else alltask s"
  let ?tk = "fresh_task fn arg stack p s"
  let ?s = "s\<lparr>taskidgen := taskidgen s + 1, taskcount := taskcount s + 1,
    heap := (heap s)(p \<mapsto> ?tk), alltask := ?a[nalltask s := p], nalltask := nalltask s + 1\<rparr>"
  from k a have new: "heap s p = None" and slots: "slots_ok s" by (auto simp: alloc_ok_def kinv_def)
  note ins = slots_ok_insert [OF slots new refl, of ?tk]
  have q: "queues_ok (heap ?s) (tlists ?s) L"
    using k new by (auto simp: kinv_def intro: queues_insert)
  have notin: "p \<notin> set (L l)" for l
    using dll_in_dom [OF queues_dll, of "heap s" "tlists s" L l] k new by (auto simp: kinv_def)
  have "ready_ok ?s L"
    using k notin by (auto simp: kinv_def ready_ok_def fld_def fresh_task_def)
  moreover have "slots_ok ?s"
    using ins(2) by (auto simp: slots_ok_def fresh_task_def)
  ultimately have "kinv ?s L" using q by (simp add: kinv_def)
  moreover have "off ?s L p" using notin by (simp add: off_def)
  ultimately have rdy: "runs (taskready p ?s)
      (\<lambda>s'. kinv s' (L(RunQueue := L RunQueue @ [p])) \<and> kframe ?s s')"
    by (rule taskready_kinv)
  then obtain s' where s': "taskready p ?s = Inr s'" "kinv s' (L(RunQueue := L RunQueue @ [p]))"
    "kframe ?s s'" by (auto simp: runs_iff)
  have "taskcreate fn arg stack lib s = Inr (taskidgen s + 1, s')"
    using a ins(1) s'(1)
    by (cases "nalltask s mod 64 = 0")
       (simp_all add: taskcreate_def taskalloc_def alloc_ok_def split_beta Let_def kget_def tget_def
        kset_def tset_def fresh_task_def)
  with s' kframe_fields [OF s'(3)] kframe_heap [OF s'(3)] show ?thesis by simp
qed

subsection \<open>Choosing the next task\<close>

text \<open>
  \<open>picked t s s'\<close>: \<open>t\<close> has been given the processor; only links, ready flags, the running task
  and the count of switches changed.
\<close>

definition picked :: "addr \<Rightarrow> 'a kern_scheme \<Rightarrow> 'a kern_scheme \<Rightarrow> bool" where
  "picked t s s' \<longleftrightarrow>
     s' = s\<lparr>heap := heap s', tlists := tlists s', taskrunning := Some t,
       tasknswitch := tasknswitch s + 1\<rparr> \<and> agree undisp (heap s) (heap s')"

lemma picked_elim:
  assumes "picked t s s'"
  obtains h q where "s' = s\<lparr>heap := h, tlists := q, taskrunning := Some t, tasknswitch := tasknswitch s + 1\<rparr>"
    "agree undisp (heap s) h"
  using assms unfolding picked_def by blast

lemma picked_fields:
  assumes "picked t s s'"
  shows "taskrunning s' = Some t" "tasknswitch s' = tasknswitch s + 1" "taskcount s' = taskcount s"
    "taskexitval s' = taskexitval s" "swapcontext_r s' = swapcontext_r s" "sp s' = sp s"
    "kern.more s' = kern.more s"
  by (rule picked_elim [OF assms], simp)+

lemma sched_pick_stop:
  assumes "kinv s L"
  shows "taskcount s = 0 \<Longrightarrow> sched_pick s = Halted (Exit (taskexitval s))"
    and "taskcount s \<noteq> 0 \<Longrightarrow> L RunQueue = [] \<Longrightarrow> sched_pick s = Halted (Exit 1)"
  using headq_first [OF assms, of RunQueue] by (simp_all add: sched_pick_def)

lemma sched_pick_first:
  assumes k: "kinv s L" and L: "L RunQueue = t # ts" and c: "taskcount s \<noteq> 0" "0 \<le> swapcontext_r s"
  shows "\<exists>f s'. sched_pick s = Done (t, f) s' \<and> fld ctxt (heap s) t = Some f \<and>
    kinv s' (L(RunQueue := ts)) \<and> off s' (L(RunQueue := ts)) t \<and> picked t s s'"
proof -
  have q: "queues_ok (heap s) (tlists s) L" using k by (simp add: kinv_def)
  let ?L = "L(RunQueue := ts)"
  have "remove1 t (L RunQueue) = ts" by (simp add: L)
  with delq_runs [OF q, of t RunQueue] L obtain s1 where
    d: "delq RunQueue t s = Inr s1" and q1: "queues_ok (heap s1) (tlists s1) ?L" and
    f1: "kframe s s1" and u1: "agree unlink (heap s) (heap s1)"
    by (auto simp: runs_iff)
  have tdom: "t \<in> dom (heap s)"
    using dll_in_dom [OF queues_dll [OF q, of RunQueue]] by (simp add: L)
  then obtain tk where tk: "heap s1 t = Some tk" using kframe_dom [OF f1] by (metis domD)
  have dist: "t \<notin> set (?L l)" for l
    using dll_distinct [OF queues_dll [OF q, of RunQueue]] queues_disjoint [OF q, of RunQueue l t] L
    by (auto split: if_splits)
  let ?s = "s1\<lparr>heap := (heap s1)(t \<mapsto> tk\<lparr>ready := False\<rparr>), taskrunning := Some t,
    tasknswitch := tasknswitch s1 + 1\<rparr>"
  have "queues_ok (heap ?s) (tlists ?s) ?L" using q1 tk by (auto intro: queues_data)
  moreover have "ready_ok ?s ?L"
  proof -
    have "fld ready (heap s1) u = fld ready (heap s) u" for u by (rule agree_fld [OF u1]) simp
    moreover have "fld ready (heap ?s) u = (if u = t then Some False else fld ready (heap s1) u)" for u
      by (simp add: fld_def)
    moreover have "ready_ok s L" using k by (simp add: kinv_def)
    ultimately show ?thesis using dist [of RunQueue] L by (auto simp: ready_ok_def)
  qed
  moreover have "slots_ok ?s"
  proof -
    have "slots_ok s1" using k slots_ok_frame [OF f1] by (simp add: kinv_def)
    moreover have "fld alltaskslot ((heap s1)(t \<mapsto> tk\<lparr>ready := False\<rparr>)) = fld alltaskslot (heap s1)"
      "dom ((heap s1)(t \<mapsto> tk\<lparr>ready := False\<rparr>)) = dom (heap s1)"
      using tk by (auto simp: fld_def)
    ultimately show ?thesis by (simp add: slots_ok_def)
  qed
  ultimately have "kinv ?s ?L" by (simp add: kinv_def)
  moreover have "off ?s ?L t" using dist by (simp add: off_def)
  moreover have "picked t s ?s"
  proof -
    from f1 obtain h r where "s1 = s\<lparr>heap := h, tlists := r\<rparr>" "agree undisp (heap s) h"
      by (rule kframe_elim)
    moreover from tk have "agree undisp (heap s1) ((heap s1)(t \<mapsto> tk\<lparr>ready := False\<rparr>))"
      by (simp add: undisp_def)
    ultimately have "agree undisp (heap s) (heap ?s)" using agree_trans by fastforce
    with \<open>s1 = _\<close> show ?thesis by (simp add: picked_def)
  qed
  moreover have "sched_pick s = Done (t, ctxt tk) ?s"
    using c d tk headq_first [OF k, of RunQueue] L kframe_fields [OF f1]
    by (simp add: sched_pick_def kset_def tset_def kget_def tget_def contextswitch_in_def)
  moreover have "fld ctxt (heap s) t = Some (ctxt tk)"
    using agree_fld [OF u1, of ctxt t] tk by (simp add: fld_def)
  ultimately show ?thesis by blast
qed

subsection \<open>Back in the scheduler\<close>

lemma sched_back_stay:
  assumes "kinv s L" "fld exiting (heap s) t = Some False"
  shows "sched_back t s = Inr (s\<lparr>taskrunning := None\<rparr>)" "kinv (s\<lparr>taskrunning := None\<rparr>) L"
  using assms
  by (auto simp: sched_back_def kget_def tget_def fld_def kinv_def ready_ok_def slots_ok_def Let_def)

text \<open>The task is taken out of \<open>alltask\<close>, its memory freed, and it no longer counts.\<close>

lemma slots_ok_remove:
  assumes s: "slots_ok s" and t: "heap s t = Some tk" and n: "n = nalltask s - 1"
    and uk: "u = alltask s ! n"
  defines "i \<equiv> alltaskslot tk"
  shows "i < nalltask s" "nalltask s \<le> length (alltask s)" "u \<in> dom (heap s)"
    "heap s u = Some k \<Longrightarrow> slots_ok (s\<lparr>nalltask := n, alltask := (alltask s)[i := u],
       heap := ((heap s)(u \<mapsto> k\<lparr>alltaskslot := i\<rparr>))(t := None)\<rparr>)"
proof -
  let ?N = "nalltask s" and ?a = "alltask s"
  from s have cap: "64 * ((?N + 63) div 64) \<le> length ?a" and dist: "distinct (take ?N ?a)"
    and dom: "set (take ?N ?a) = dom (heap s)"
    and slot: "\<forall>j < ?N. fld alltaskslot (heap s) (?a ! j) = Some j"
    by (auto simp: slots_ok_def)
  from cap show N: "?N \<le> length ?a" by linarith
  from t dom have "t \<in> set (take ?N ?a)" by auto
  then obtain j where j: "j < ?N" "?a ! j = t" by (auto simp: in_set_conv_nth)
  with slot t have "j = i" by (auto simp: fld_def i_def)
  with j show i: "i < ?N" by simp
  from j \<open>j = i\<close> have ti: "?a ! i = t" by simp
  from i n have n1: "n < ?N" "?N = n + 1" by auto
  with N dom uk show udom: "u \<in> dom (heap s)" by (metis in_set_conv_nth length_take min.absorb2 nth_take)
  assume k: "heap s u = Some k"
  let ?b = "take n (?a[i := u])"
  have b: "?b = swap_remove (take ?N ?a) i"
    using take_swap_remove [of ?N ?a i] i N n uk by simp
  have db: "distinct ?b" and sb: "set ?b = dom (heap s) - {t}"
    using b dist dom i N ti by (simp_all add: distinct_swap_remove set_swap_remove)
  have capn: "64 * ((n + 63) div 64) \<le> length ?a"
    using cap n1 by (meson add_le_cancel_right div_le_mono le_trans less_imp_le mult_le_mono2)
  have "fld alltaskslot (((heap s)(u \<mapsto> k\<lparr>alltaskslot := i\<rparr>))(t := None)) (?a[i := u] ! m) = Some m"
    if m: "m < n" for m
  proof -
    from m n1 N have "?b ! m \<in> set ?b" by (intro nth_mem) simp
    with m sb have mt: "?a[i := u] ! m \<noteq> t" by auto
    show ?thesis
    proof (cases "m = i")
      case True
      with mt i N n1 show ?thesis by (simp add: fld_def)
    next
      case False
      have "take ?N ?a ! m \<noteq> take ?N ?a ! n"
        using m n1 N by (subst nth_eq_iff_index_eq [OF dist]) auto
      with m n1 uk have "?a ! m \<noteq> u" by simp
      with False mt m n1 slot show ?thesis by (simp add: fld_def)
    qed
  qed
  moreover have "dom (((heap s)(u \<mapsto> k\<lparr>alltaskslot := i\<rparr>))(t := None)) = dom (heap s) - {t}"
    using udom by auto
  ultimately show "slots_ok (s\<lparr>nalltask := n, alltask := (alltask s)[i := u],
       heap := ((heap s)(u \<mapsto> k\<lparr>alltaskslot := i\<rparr>))(t := None)\<rparr>)"
    using capn db sb by (simp add: slots_ok_def)
qed

lemma queues_delete:
  assumes "queues_ok h T L" "\<forall>l. t \<notin> set (L l)"
  shows "queues_ok (h(t := None)) T L"
proof -
  have "dll (h(t := None)) (T i) (L i) = dll h (T i) (L i)" for i
    using assms(2) by (intro dll_cong) (auto simp: same_links_def)
  with assms(1) show ?thesis by (simp add: queues_ok_def)
qed

definition unslot :: "task \<Rightarrow> task" where
  "unslot tk = tk\<lparr>alltaskslot := 0\<rparr>"

definition reaped :: "addr \<Rightarrow> 'a kern_scheme \<Rightarrow> 'a kern_scheme \<Rightarrow> bool" where
  "reaped t s s' \<longleftrightarrow>
     s' = s\<lparr>heap := heap s', alltask := alltask s', nalltask := nalltask s - 1,
       taskrunning := None, taskcount := taskcount s'\<rparr> \<and>
     heap s' t = None \<and>
     (\<forall>u. u \<noteq> t \<longrightarrow> fld unslot (heap s') u = fld unslot (heap s) u) \<and>
     taskcount s' = (if fld system (heap s) t = Some True then taskcount s else taskcount s - 1)"

lemma sched_back_exit:
  assumes k: "kinv s L" and t: "off s L t" and x: "fld exiting (heap s) t = Some True"
  shows "runs (sched_back t s) (\<lambda>s'. kinv s' L \<and> reaped t s s')"
proof -
  from x obtain tk where tk: "heap s t = Some tk" and ex: "exiting tk" by (auto simp: fld_def)
  let ?n = "nalltask s - 1" and ?i = "alltaskslot tk"
  let ?u = "alltask s ! ?n"
  from k have sl: "slots_ok s" and q: "queues_ok (heap s) (tlists s) L" and r: "ready_ok s L"
    by (simp_all add: kinv_def)
  note rem = slots_ok_remove [OF sl tk refl refl]
  from rem(3) obtain uk where uk: "heap s ?u = Some uk" by blast
  let ?h = "((heap s)(?u \<mapsto> uk\<lparr>alltaskslot := ?i\<rparr>))(t := None)"
  let ?c = "if system tk then taskcount s else taskcount s - 1"
  let ?s = "s\<lparr>nalltask := ?n, alltask := (alltask s)[?i := ?u], heap := ?h, taskrunning := None,
    taskcount := ?c\<rparr>"
  have off: "\<forall>l. t \<notin> set (L l)" using t by (simp add: off_def)
  have "queues_ok ((heap s)(?u \<mapsto> uk\<lparr>alltaskslot := ?i\<rparr>)) (tlists s) L"
    by (rule queues_data [OF q uk]) simp_all
  then have "queues_ok ?h (tlists s) L" using off by (rule queues_delete)
  moreover have "fld ready ?h v = (if v = t then None else fld ready (heap s) v)" for v
    using uk by (simp add: fld_def)
  then have "ready_ok ?s L" using r off by (auto simp: ready_ok_def)
  moreover have "slots_ok ?s" using rem(4) [OF uk] by (simp add: slots_ok_def)
  ultimately have "kinv ?s L" by (simp add: kinv_def)
  moreover have "reaped t s ?s"
    using tk uk by (simp add: reaped_def fld_def unslot_def)
  moreover have "sched_back t s = Inr ?s"
    using tk uk ex rem(1,2)
    by (cases "system tk")
       (simp_all add: sched_back_def kget_def tget_def kset_def tset_def Let_def)
  ultimately show ?thesis by simp
qed

subsection \<open>Yielding and exiting\<close>

lemma plain_yield: "plain ''yield''"
  by (simp add: plain_def)

text \<open>A task that yields goes to the end of the run queue.\<close>

lemma taskyield_runs:
  assumes k: "kinv s L" and t: "off s L t" and c: "stack_room 0 t s"
  shows "\<exists>s'. taskyield s = Blocked s' \<and> kinv s' (L(RunQueue := L RunQueue @ [t])) \<and>
    kblock t (FYield (tasknswitch s)) s s'"
proof -
  let ?L = "L(RunQueue := L RunQueue @ [t])" and ?f = "FYield (tasknswitch s)"
  from kt.ready_law [OF k t] obtain s1 where
    s1: "taskready t s = Inr s1" "kinv s1 ?L" "kframe s s1" by (auto simp: runs_iff)
  from c have c1: "stack_room 0 t s1" by (simp add: stack_room_frame [OF s1(3)])
  from kt.say_law [OF s1(2) c1 plain_yield] obtain s2 where
    s2: "taskstate ''yield'' [] s1 = Inr s2" "kinv s2 ?L" "kframe s1 s2" by (auto simp: runs_iff)
  from c1 have c2: "stack_room 0 t s2" by (simp add: stack_room_frame [OF s2(3)])
  from kt.switch_law [OF s2(2) c2, of ?f] obtain s3 where
    s3: "taskswitch ?f s2 = Inr s3" "kinv s3 ?L" "kblock t ?f s2 s3" by (auto simp: runs_iff)
  have "kblock t ?f s s3" using kframe_kblock [OF kframe_trans [OF s1(3) s2(3)] s3(3)] .
  moreover have "running s = Inr t" using c by (simp add: stack_room_def running_def)
  ultimately show ?thesis using s1 s2 s3 by (simp add: taskyield_def)
qed

text \<open>A task that exits is marked and never put in a list; the status is recorded.\<close>

definition exited :: "addr \<Rightarrow> int \<Rightarrow> 'a kern_scheme \<Rightarrow> 'a kern_scheme \<Rightarrow> bool" where
  "exited t v s s' \<longleftrightarrow>
     (\<exists>tk. heap s t = Some tk \<and>
       s' = s\<lparr>heap := (heap s)(t \<mapsto> tk\<lparr>exiting := True, ctxt := FExit\<rparr>), taskexitval := v\<rparr>)"

lemma taskexit_runs:
  assumes k: "kinv s L" and c: "stack_room 0 t s"
  shows "\<exists>s'. taskexit v s = Blocked s' \<and> kinv s' L \<and> exited t v s s'"
proof -
  from c obtain tk where tk: "heap s t = Some tk" and r: "taskrunning s = Some t"
    and sw: "0 \<le> swapcontext_r s"
    by (auto simp: stack_room_def fld_def)
  let ?s1 = "s\<lparr>taskexitval := v, heap := (heap s)(t \<mapsto> tk\<lparr>exiting := True\<rparr>)\<rparr>"
  let ?s2 = "s\<lparr>taskexitval := v, heap := (heap s)(t \<mapsto> tk\<lparr>exiting := True, ctxt := FExit\<rparr>)\<rparr>"
  have "kinv (s\<lparr>heap := (heap s)(t \<mapsto> tk\<lparr>exiting := True, ctxt := FExit\<rparr>)\<rparr>) L"
    by (rule kinv_data [OF k tk]) simp_all
  then have "kinv ?s2 L" by (simp add: kinv_def ready_ok_def slots_ok_def)
  moreover have "stack_room 0 t ?s1" using c tk by (simp add: stack_room_def fld_def)
  then have "taskexit v s = Blocked ?s2"
    using tk r sw by (simp add: taskexit_def running_def kset_def tset_def taskswitch_def
        needstack_ok contextswitch_out_def)
  moreover have "exited t v s ?s2" using tk by (simp add: exited_def)
  ultimately show ?thesis by blast
qed

subsection \<open>Counting tasks\<close>

text \<open>The tasks that keep the program alive: those that are not marked as system tasks.\<close>

definition users :: "'a kern_scheme \<Rightarrow> addr set" where
  "users s = {t. fld system (heap s) t = Some False}"

lemma users_agree: "agree undisp (heap s) (heap s') \<Longrightarrow> users s' = users s"
  by (simp add: users_def agree_fld)

lemma finite_users: "slots_ok s \<Longrightarrow> finite (users s)"
proof (rule finite_subset)
  show "users s \<subseteq> dom (heap s)" by (auto simp: users_def fld_def)
  show "slots_ok s \<Longrightarrow> finite (dom (heap s))" by (metis List.finite_set slots_ok_def)
qed

lemma tasksystem_runs:
  assumes k: "kinv s L" and r: "taskrunning s = Some t" and tk: "heap s t = Some tk"
  shows "runs (tasksystem s) (\<lambda>s'. kinv s' L \<and> users s' = users s - {t} \<and>
    taskcount s' = (if t \<in> users s then taskcount s - 1 else taskcount s))"
proof (cases "system tk")
  case True
  then show ?thesis
    using k r tk by (auto simp: tasksystem_def running_def kget_def tget_def users_def fld_def)
next
  case False
  have "kinv (s\<lparr>heap := (heap s)(t \<mapsto> tk\<lparr>system := True\<rparr>)\<rparr>) L"
    by (rule kinv_data [OF k tk]) simp_all
  with False show ?thesis
    using r tk
    by (auto simp: tasksystem_def running_def kget_def tget_def kset_def tset_def users_def fld_def
        kinv_def ready_ok_def slots_ok_def)
qed

subsection \<open>The run queue is first-in first-out\<close>

definition run_put :: "addr \<Rightarrow> 'a kern_scheme \<times> (lref \<Rightarrow> addr list) \<Rightarrow>
    halt + 'a kern_scheme \<times> (lref \<Rightarrow> addr list)" where
  "run_put t sL =
     bindR (taskready t (fst sL)) (\<lambda>s'.
     Inr (s', (snd sL)(RunQueue := snd sL RunQueue @ [t])))"

definition run_get :: "unit \<Rightarrow> 'a kern_scheme \<times> (lref \<Rightarrow> addr list) \<Rightarrow>
    halt + 'a kern_scheme \<times> (lref \<Rightarrow> addr list)" where
  "run_get u sL =
     (case sched_pick (fst sL) of
        Done tf s' \<Rightarrow> Inr (s', (snd sL)(RunQueue := remove1 (fst tf) (snd sL RunQueue)))
      | Blocked s' \<Rightarrow> Inl Segv
      | Halted h \<Rightarrow> Inl h)"

definition can_run :: "'a kern_scheme \<times> (lref \<Rightarrow> addr list) \<Rightarrow> bool" where
  "can_run sL \<longleftrightarrow>
     snd sL RunQueue \<noteq> [] \<and> taskcount (fst sL) \<noteq> 0 \<and> 0 \<le> swapcontext_r (fst sL)"

interpretation rq: fifo "\<lambda>sL. kinv (fst sL) (snd sL)" "\<lambda>sL. snd sL RunQueue"
  "\<lambda>t sL. off (fst sL) (snd sL) t" can_run run_put "\<lambda>t sL. t" run_get "\<lambda>sL. hd (snd sL RunQueue)"
proof (unfold_locales, goal_cases)
  case (1 sL t)
  then show ?case
    using taskready_kinv [of "fst sL" "snd sL" t] by (auto simp: run_put_def runs_iff)
next
  case (2 sL u)
  obtain s L where sL: "sL = (s, L)" by (cases sL)
  from 2 obtain t ts where L: "L RunQueue = t # ts" by (auto simp: sL can_run_def neq_Nil_conv)
  from 2 have k: "kinv s L" and c: "taskcount s \<noteq> 0" "0 \<le> swapcontext_r s"
    by (simp_all add: sL can_run_def)
  from sched_pick_first [of s L t ts, OF k L c] obtain f s' where
    "sched_pick s = Done (t, f) s'" "kinv s' (L(RunQueue := ts))" by blast
  with L show ?case by (simp add: sL run_get_def)
qed

end
