(* ===== verification/Qlock.thy ===== *)
theory Qlock
  imports Scheduler Fifo
begin

text \<open>
  Queueing locks and reader-writer locks (\<open>qlock.c\<close>). A lock is named by its address; its owner,
  readers and writer are fields of the state \<open>locks\<close>, its wait queues are the lists \<open>QWait l\<close>,
  \<open>RWait l\<close> and \<open>WWait l\<close> of the kernel. The leading underscore of \<open>_qlock\<close>, \<open>_rlock\<close> and
  \<open>_wlock\<close> is written \<open>do_\<close>; the part of each after \<open>taskswitch()\<close> is \<open>..._resume\<close>.
\<close>

record locks = kern +
  qowner :: "addr \<Rightarrow> addr option"
  readers :: "addr \<Rightarrow> int"
  writer :: "addr \<Rightarrow> addr option"

subsection \<open>QLock\<close>

definition do_qlock :: "addr \<Rightarrow> bool \<Rightarrow> 'a locks_scheme \<Rightarrow> (int, 'a locks_scheme) co" where
  "do_qlock l block s =
     (if qowner s l = None then Done 1 (s\<lparr>qowner := (qowner s)(l := taskrunning s)\<rparr>)
      else if \<not> block then Done 0 s
      else
        blocks (
          bindR (running s) (\<lambda>t.
          bindR (addq (QWait l) t s) (\<lambda>s.
          bindR (taskstate ''qlock'' [] s) (\<lambda>s.
          taskswitch (FQlock l) s)))))"

definition do_qlock_resume :: "addr \<Rightarrow> 'a locks_scheme \<Rightarrow> (int, 'a locks_scheme) co" where
  "do_qlock_resume l s =
     (if qowner s l \<noteq> taskrunning s then Halted (Abort ''qlock: owner'') else Done 1 s)"

definition qlock :: "addr \<Rightarrow> 'a locks_scheme \<Rightarrow> (int, 'a locks_scheme) co" where
  "qlock l s = do_qlock l True s"

definition canqlock :: "addr \<Rightarrow> 'a locks_scheme \<Rightarrow> (int, 'a locks_scheme) co" where
  "canqlock l s = do_qlock l False s"

definition qunlock :: "addr \<Rightarrow> 'a locks_scheme \<Rightarrow> halt + 'a locks_scheme" where
  "qunlock l s =
     (if qowner s l = None then Inl (Abort ''qunlock: owner=0'')
      else
        (let ready = headq (QWait l) s; s = s\<lparr>qowner := (qowner s)(l := ready)\<rparr>
         in case ready of
              None \<Rightarrow> Inr s
            | Some t \<Rightarrow> bindR (delq (QWait l) t s) (\<lambda>s. taskready t s)))"

subsection \<open>RWLock\<close>

definition do_rlock :: "addr \<Rightarrow> bool \<Rightarrow> 'a locks_scheme \<Rightarrow> (int, 'a locks_scheme) co" where
  "do_rlock l block s =
     (if writer s l = None \<and> headq (WWait l) s = None
      then Done 1 (s\<lparr>readers := (readers s)(l := readers s l + 1)\<rparr>)
      else if \<not> block then Done 0 s
      else
        blocks (
          bindR (running s) (\<lambda>t.
          bindR (addq (RWait l) t s) (\<lambda>s.
          bindR (taskstate ''rlock'' [] s) (\<lambda>s.
          taskswitch (FRlock l) s)))))"

definition do_rlock_resume :: "addr \<Rightarrow> 'a locks_scheme \<Rightarrow> (int, 'a locks_scheme) co" where
  "do_rlock_resume l s = Done 1 s"

definition rlock :: "addr \<Rightarrow> 'a locks_scheme \<Rightarrow> (int, 'a locks_scheme) co" where
  "rlock l s = do_rlock l True s"

definition canrlock :: "addr \<Rightarrow> 'a locks_scheme \<Rightarrow> (int, 'a locks_scheme) co" where
  "canrlock l s = do_rlock l False s"

definition do_wlock :: "addr \<Rightarrow> bool \<Rightarrow> 'a locks_scheme \<Rightarrow> (int, 'a locks_scheme) co" where
  "do_wlock l block s =
     (if writer s l = None \<and> readers s l = 0
      then Done 1 (s\<lparr>writer := (writer s)(l := taskrunning s)\<rparr>)
      else if \<not> block then Done 0 s
      else
        blocks (
          bindR (running s) (\<lambda>t.
          bindR (addq (WWait l) t s) (\<lambda>s.
          bindR (taskstate ''wlock'' [] s) (\<lambda>s.
          taskswitch (FWlock l) s)))))"

definition do_wlock_resume :: "addr \<Rightarrow> 'a locks_scheme \<Rightarrow> (int, 'a locks_scheme) co" where
  "do_wlock_resume l s = Done 1 s"

definition wlock :: "addr \<Rightarrow> 'a locks_scheme \<Rightarrow> (int, 'a locks_scheme) co" where
  "wlock l s = do_wlock l True s"

definition canwlock :: "addr \<Rightarrow> 'a locks_scheme \<Rightarrow> (int, 'a locks_scheme) co" where
  "canwlock l s = do_wlock l False s"

definition runlock :: "addr \<Rightarrow> 'a locks_scheme \<Rightarrow> halt + 'a locks_scheme" where
  "runlock l s =
     (let s = s\<lparr>readers := (readers s)(l := readers s l - 1)\<rparr> in
      if readers s l = 0 then
        (case headq (WWait l) s of
           None \<Rightarrow> Inr s
         | Some t \<Rightarrow>
             bindR (delq (WWait l) t s) (\<lambda>s.
             taskready t (s\<lparr>writer := (writer s)(l := Some t)\<rparr>)))
      else Inr s)"

definition wunlock_readers :: "addr \<Rightarrow> 'a locks_scheme \<Rightarrow> halt + bool \<times> 'a locks_scheme" where
  "wunlock_readers l s =
     (case headq (RWait l) s of
        None \<Rightarrow> Inr (False, s)
      | Some t \<Rightarrow>
          bindR
            (bindR (delq (RWait l) t s) (\<lambda>s.
             taskready t (s\<lparr>readers := (readers s)(l := readers s l + 1)\<rparr>)))
            (\<lambda>s. Inr (True, s)))"

definition wunlock :: "addr \<Rightarrow> 'a locks_scheme \<Rightarrow> halt + 'a locks_scheme" where
  "wunlock l s =
     (if writer s l = None then Inl (Abort ''wunlock: not locked'')
      else
        (let s = s\<lparr>writer := (writer s)(l := None)\<rparr> in
         if readers s l \<noteq> 0 then Inl (Abort ''wunlock: readers'')
         else
           bindR (cloop (wunlock_readers l) s) (\<lambda>s.
           if readers s l = 0 then
             (case headq (WWait l) s of
                None \<Rightarrow> Inr s
              | Some t \<Rightarrow>
                  bindR (delq (WWait l) t s) (\<lambda>s.
                  taskready t (s\<lparr>writer := (writer s)(l := Some t)\<rparr>)))
           else Inr s)))"

subsection \<open>The kernel does not see the fields of locks\<close>

lemma kinv_locks [simp]:
  "kinv (s\<lparr>qowner := a\<rparr>) L = kinv s L" "kinv (s\<lparr>readers := b\<rparr>) L = kinv s L"
  "kinv (s\<lparr>writer := c\<rparr>) L = kinv s L"
  by (simp_all add: kinv_def ready_ok_def slots_ok_def)

lemma off_locks [simp]:
  "off (s\<lparr>qowner := a\<rparr>) L t = off s L t" "off (s\<lparr>readers := b\<rparr>) L t = off s L t"
  "off (s\<lparr>writer := c\<rparr>) L t = off s L t"
  by (simp_all add: off_def)

lemma stack_room_locks [simp]:
  "stack_room n t (s\<lparr>qowner := a\<rparr>) = stack_room n t s"
  "stack_room n t (s\<lparr>readers := b\<rparr>) = stack_room n t s"
  "stack_room n t (s\<lparr>writer := c\<rparr>) = stack_room n t s"
  by (simp_all add: stack_room_def)

lemma kframe_locks:
  assumes "kframe s s'"
  shows "qowner s' = qowner s" "readers s' = readers s" "writer s' = writer s"
    "locks.more s' = locks.more s"
  by (rule kframe_elim [OF assms], simp)+

lemma kblock_locks:
  assumes "kblock t f s s'"
  shows "qowner s' = qowner s" "readers s' = readers s" "writer s' = writer s"
    "locks.more s' = locks.more s"
  by (rule kblock_elim [OF assms], simp)+

lemma kframe_upd_locks:
  assumes "kframe s s'"
  shows "kframe (s\<lparr>qowner := a\<rparr>) (s'\<lparr>qowner := a\<rparr>)" "kframe (s\<lparr>readers := b\<rparr>) (s'\<lparr>readers := b\<rparr>)"
    "kframe (s\<lparr>writer := c\<rparr>) (s'\<lparr>writer := c\<rparr>)"
  by (rule kframe_elim [OF assms], simp add: kframe_def)+

subsection \<open>QLock: every branch\<close>

lemma qlock_free:
  "qowner s l = None \<Longrightarrow> do_qlock l block s = Done 1 (s\<lparr>qowner := (qowner s)(l := taskrunning s)\<rparr>)"
  by (simp add: do_qlock_def)

lemma qlock_busy: "qowner s l \<noteq> None \<Longrightarrow> do_qlock l False s = Done 0 s"
  by (simp add: do_qlock_def)

lemma plain_lits [simp]: "plain ''qlock''" "plain ''rlock''" "plain ''wlock''" "plain ''sleep''"
  "plain ''yield''" "plain ''poll''"
  by (simp_all add: plain_def)

lemma stack_room_running: "stack_room n t s \<Longrightarrow> running s = Inr t"
  by (simp add: stack_room_def running_def)

lemma qlock_wait:
  assumes "kinv s L" "off s L t" "stack_room 0 t s" "qowner s l \<noteq> None"
  shows "\<exists>s'. do_qlock l True s = Blocked s' \<and>
    kinv s' (L(QWait l := L (QWait l) @ [t])) \<and> kblock t (FQlock l) s s'"
  using kt.wait_on [OF assms(1-3), of "QWait l" "''qlock''" "FQlock l"] assms(3,4)
  by (auto simp: do_qlock_def runs_iff stack_room_running)

lemma qunlock_last:
  "kinv s L \<Longrightarrow> qowner s l \<noteq> None \<Longrightarrow> L (QWait l) = [] \<Longrightarrow>
     qunlock l s = Inr (s\<lparr>qowner := (qowner s)(l := None)\<rparr>)"
  by (auto simp: qunlock_def headq_first)

lemma qunlock_next:
  assumes "kinv s L" "qowner s l \<noteq> None" "L (QWait l) = t # ts"
  shows "runs (qunlock l s) (\<lambda>s'. kinv s' (L(QWait l := ts, RunQueue := L RunQueue @ [t])) \<and>
    kframe (s\<lparr>qowner := (qowner s)(l := Some t)\<rparr>) s')"
  using kt.wake_first [of "s\<lparr>qowner := (qowner s)(l := Some t)\<rparr>" L "QWait l" t ts] assms
  by (auto simp: qunlock_def headq_first)

text \<open>Owner and queues after an unlock; \<open>None\<close> for no lock at all, as in a \<open>Rendez\<close> without one.\<close>

definition unlocked :: "addr option \<Rightarrow> (lref \<Rightarrow> addr list) \<Rightarrow> (addr \<Rightarrow> addr option) \<Rightarrow>
    (addr \<Rightarrow> addr option) \<times> (lref \<Rightarrow> addr list)" where
  "unlocked ol L own =
     (case ol of
        None \<Rightarrow> (own, L)
      | Some l \<Rightarrow>
          (own(l := first (L (QWait l))),
           case L (QWait l) of
             [] \<Rightarrow> L
           | t # ts \<Rightarrow> L(QWait l := ts, RunQueue := L RunQueue @ [t])))"

lemma qunlock_runs:
  assumes "kinv s L" "qowner s l \<noteq> None"
  shows "runs (qunlock l s) (\<lambda>s'. case unlocked (Some l) L (qowner s) of (own, L') \<Rightarrow>
    kinv s' L' \<and> kframe (s\<lparr>qowner := own\<rparr>) s')"
proof (cases "L (QWait l)")
  case Nil
  with qunlock_last [OF assms] assms(1) show ?thesis by (simp add: unlocked_def)
next
  case (Cons t ts)
  with qunlock_next [OF assms Cons] show ?thesis by (simp add: unlocked_def)
qed

subsection \<open>QLock: a first-in first-out queue whose first element owns the lock\<close>

type_synonym 'a lockst = "'a locks_scheme \<times> (lref \<Rightarrow> addr list)"

definition lock_ok :: "addr \<Rightarrow> 'a lockst \<Rightarrow> bool" where
  "lock_ok l sL \<longleftrightarrow>
     kinv (fst sL) (snd sL) \<and> (qowner (fst sL) l = None \<longrightarrow> snd sL (QWait l) = [])"

definition lock_queue :: "addr \<Rightarrow> 'a lockst \<Rightarrow> addr list" where
  "lock_queue l sL =
     (case qowner (fst sL) l of None \<Rightarrow> [] | Some t \<Rightarrow> t # snd sL (QWait l))"

text \<open>\<open>qlock\<close> by the running task \<open>t\<close>, and \<open>qunlock\<close>, with the queues they leave.\<close>

definition lock_put :: "addr \<Rightarrow> addr \<Rightarrow> 'a lockst \<Rightarrow> halt + 'a lockst" where
  "lock_put l t sL =
     (case qlock l (fst sL) of
        Done _ s' \<Rightarrow> Inr (s', snd sL)
      | Blocked s' \<Rightarrow> Inr (s', (snd sL)(QWait l := snd sL (QWait l) @ [t]))
      | Halted h \<Rightarrow> Inl h)"

definition lock_get :: "addr \<Rightarrow> unit \<Rightarrow> 'a lockst \<Rightarrow> halt + 'a lockst" where
  "lock_get l u sL =
     bindR (qunlock l (fst sL)) (\<lambda>s'.
     Inr (s', snd (unlocked (Some l) (snd sL) (qowner (fst sL)))))"

definition can_lock :: "addr \<Rightarrow> 'a lockst \<Rightarrow> bool" where
  "can_lock t sL \<longleftrightarrow> off (fst sL) (snd sL) t \<and> stack_room 0 t (fst sL)"

definition locked :: "addr \<Rightarrow> 'a lockst \<Rightarrow> bool" where
  "locked l sL \<longleftrightarrow> qowner (fst sL) l \<noteq> None"

definition owner_of :: "addr \<Rightarrow> 'a lockst \<Rightarrow> addr" where
  "owner_of l sL = the (qowner (fst sL) l)"

lemma lock_put_law:
  assumes "lock_ok l sL" "can_lock t sL"
  shows "runs (lock_put l t sL) (\<lambda>sL'. lock_ok l sL' \<and> lock_queue l sL' = lock_queue l sL @ [t])"
proof -
  obtain s L where sL: "sL = (s, L)" by (cases sL)
  from assms have k: "kinv s L" "off s L t" "stack_room 0 t s" "qowner s l = None \<longrightarrow> L (QWait l) = []"
    by (simp_all add: sL lock_ok_def can_lock_def)
  show ?thesis
  proof (cases "qowner s l")
    case None
    with k show ?thesis
      by (simp add: sL lock_put_def qlock_def qlock_free lock_ok_def lock_queue_def stack_room_def)
  next
    case (Some u)
    with qlock_wait [OF k(1-3), of l] obtain s' where
      s': "do_qlock l True s = Blocked s'" "kinv s' (L(QWait l := L (QWait l) @ [t]))"
        "kblock t (FQlock l) s s'" by auto
    with Some show ?thesis
      by (simp add: sL lock_put_def qlock_def lock_ok_def lock_queue_def kblock_locks [OF s'(3)])
  qed
qed

lemma lock_get_law:
  assumes "lock_ok l sL" "locked l sL"
  shows "runs (lock_get l u sL) (\<lambda>sL'. lock_ok l sL' \<and> lock_queue l sL = owner_of l sL # lock_queue l sL')"
proof -
  obtain s L where sL: "sL = (s, L)" by (cases sL)
  from assms obtain o' where k: "kinv s L" and o': "qowner s l = Some o'"
    by (auto simp: sL lock_ok_def locked_def)
  obtain own L' where un: "unlocked (Some l) L (qowner s) = (own, L')"
    by (cases "unlocked (Some l) L (qowner s)")
  with qunlock_runs [OF k, of l] o' obtain s' where
    s': "qunlock l s = Inr s'" "kinv s' L'" "kframe (s\<lparr>qowner := own\<rparr>) s'" by (auto simp: runs_iff)
  from kframe_locks(1) [OF s'(3)] have "qowner s' = own" by simp
  moreover have "own l = first (L (QWait l))" "L' (QWait l) = tl (L (QWait l))"
    using un by (auto simp: unlocked_def split: list.splits)
  ultimately show ?thesis
    using s'(1,2) un o'
    by (cases "L (QWait l)") (simp_all add: sL lock_get_def lock_ok_def lock_queue_def owner_of_def)
qed

interpretation lk: fifo "lock_ok l" "lock_queue l" can_lock "locked l" "lock_put l" "\<lambda>t sL. t"
  "lock_get l" "owner_of l"
  by unfold_locales (auto intro: lock_put_law lock_get_law)

end
