(* ===== verification/Rendez.thy ===== *)
theory Rendez
  imports Qlock
begin

text \<open>
  Rendezvous points (\<open>rendez.c\<close>), the condition variables of libtask. \<open>rzl s r\<close> is the field \<open>l\<close>
  of the \<open>Rendez\<close> at \<open>r\<close>, its list of sleeping tasks is \<open>RzWait r\<close>.
\<close>

record rendez = locks +
  rzl :: "addr \<Rightarrow> addr option"

definition tasksleep :: "addr \<Rightarrow> 'a rendez_scheme \<Rightarrow> (int, 'a rendez_scheme) co" where
  "tasksleep r s =
     blocks (
       bindR (running s) (\<lambda>t.
       bindR (addq (RzWait r) t s) (\<lambda>s.
       bindR (case rzl s r of None \<Rightarrow> Inr s | Some l \<Rightarrow> qunlock l s) (\<lambda>s.
       bindR (taskstate ''sleep'' [] s) (\<lambda>s.
       taskswitch (FSleep r) s)))))"

definition tasksleep_resume :: "addr \<Rightarrow> 'a rendez_scheme \<Rightarrow> (int, 'a rendez_scheme) co" where
  "tasksleep_resume r s = (case rzl s r of None \<Rightarrow> Done 0 s | Some l \<Rightarrow> qlock l s)"

definition taskwakeup_body ::
  "addr \<Rightarrow> bool \<Rightarrow> int \<times> 'a rendez_scheme \<Rightarrow> halt + bool \<times> int \<times> 'a rendez_scheme" where
  "taskwakeup_body r all is =
     (case is of (i, s) \<Rightarrow>
        if i = 1 \<and> \<not> all then Inr (False, i, s)
        else
          (case headq (RzWait r) s of
             None \<Rightarrow> Inr (False, i, s)
           | Some t \<Rightarrow>
               bindR (bindR (delq (RzWait r) t s) (taskready t)) (\<lambda>s. Inr (True, i + 1, s))))"

definition do_taskwakeup :: "addr \<Rightarrow> bool \<Rightarrow> 'a rendez_scheme \<Rightarrow> halt + int \<times> 'a rendez_scheme" where
  "do_taskwakeup r all s = cloop (taskwakeup_body r all) (0, s)"

definition taskwakeup :: "addr \<Rightarrow> 'a rendez_scheme \<Rightarrow> halt + int \<times> 'a rendez_scheme" where
  "taskwakeup r s = do_taskwakeup r False s"

definition taskwakeupall :: "addr \<Rightarrow> 'a rendez_scheme \<Rightarrow> halt + int \<times> 'a rendez_scheme" where
  "taskwakeupall r s = do_taskwakeup r True s"

subsection \<open>Waking\<close>

lemma taskwakeup_step:
  assumes "kinv s L" "L (RzWait r) = t # ts" "all \<or> i \<noteq> 1"
  shows "\<exists>s'. taskwakeup_body r all (i, s) = Inr (True, i + 1, s') \<and>
    kinv s' (L(RzWait r := ts, RunQueue := L RunQueue @ [t])) \<and> kframe s s'"
  using kt.wake_first [of s L "RzWait r" t ts] assms headq_first [of s L "RzWait r"]
  by (auto simp: taskwakeup_body_def runs_iff)

lemma taskwakeup_stop:
  "kinv s L \<Longrightarrow> L (RzWait r) = [] \<or> \<not> all \<and> i = 1 \<Longrightarrow>
     cloop (taskwakeup_body r all) (i, s) = Inr (i, s)"
  by (auto simp: cloop_unfold [of _ "(i, s)"] taskwakeup_body_def headq_first)

lemma taskwakeup_all_loop:
  "kinv s L \<Longrightarrow> L (RzWait r) = ts \<Longrightarrow>
     runs (cloop (taskwakeup_body r True) (i, s)) (\<lambda>(j, s').
       j = i + int (length ts) \<and>
       kinv s' (L(RzWait r := [], RunQueue := L RunQueue @ ts)) \<and> kframe s s')"
proof (induction ts arbitrary: i s L)
  case Nil
  from Nil(2) have "L(RzWait r := [], RunQueue := L RunQueue @ []) = L" by auto
  with Nil(1) have "kinv s (L(RzWait r := [], RunQueue := L RunQueue @ []))" by (simp only:)
  moreover from taskwakeup_stop [of s L r True i] Nil
  have "cloop (taskwakeup_body r True) (i, s) = Inr (i, s)" by simp
  ultimately show ?case by (simp only: runs_Inr prod.case list.size int_ops kframe_refl) simp
next
  case (Cons t ts)
  let ?L = "L(RzWait r := ts, RunQueue := L RunQueue @ [t])"
  from taskwakeup_step [OF Cons.prems, of True i] obtain s1 where
    s1: "taskwakeup_body r True (i, s) = Inr (True, i + 1, s1)" "kinv s1 ?L" "kframe s s1" by auto
  have "?L (RzWait r) = ts" by simp
  from Cons.IH [OF s1(2) this, of "i + 1"] obtain j s' where
    s': "cloop (taskwakeup_body r True) (i + 1, s1) = Inr (j, s')"
      "j = i + 1 + int (length ts)"
      "kinv s' (?L(RzWait r := [], RunQueue := ?L RunQueue @ ts))" "kframe s1 s'"
    unfolding runs_iff by blast
  have "?L(RzWait r := [], RunQueue := ?L RunQueue @ ts) =
      L(RzWait r := [], RunQueue := L RunQueue @ t # ts)" by (rule ext) auto
  with s' have "kinv s' (L(RzWait r := [], RunQueue := L RunQueue @ t # ts))" by (simp only:)
  moreover have "cloop (taskwakeup_body r True) (i, s) = Inr (j, s')"
    using s1(1) s'(1) by (simp add: cloop_unfold [of _ "(i, s)"])
  ultimately show ?case using s'(2) kframe_trans [OF s1(3) s'(4)] by (simp only: runs_Inr) simp
qed

lemma taskwakeup_one:
  assumes "kinv s L"
  shows "L (RzWait r) = [] \<Longrightarrow> taskwakeup r s = Inr (0, s)"
    and "L (RzWait r) = t # ts \<Longrightarrow>
      runs (taskwakeup r s) (\<lambda>(i, s'). i = 1 \<and>
        kinv s' (L(RzWait r := ts, RunQueue := L RunQueue @ [t])) \<and> kframe s s')"
proof -
  show "L (RzWait r) = [] \<Longrightarrow> taskwakeup r s = Inr (0, s)"
    using taskwakeup_stop [OF assms] by (simp add: taskwakeup_def do_taskwakeup_def)
  let ?L = "L(RzWait r := ts, RunQueue := L RunQueue @ [t])"
  assume "L (RzWait r) = t # ts"
  from taskwakeup_step [OF assms this, of False 0] obtain s1 where
    s1: "taskwakeup_body r False (0, s) = Inr (True, 1, s1)" "kinv s1 ?L" "kframe s s1" by auto
  from taskwakeup_stop [OF s1(2), of r False 1] s1 show
    "runs (taskwakeup r s) (\<lambda>(i, s'). i = 1 \<and> kinv s' ?L \<and> kframe s s')"
    by (simp add: taskwakeup_def do_taskwakeup_def cloop_unfold [of _ "(0, s)"])
qed

subsection \<open>Sleeping\<close>

lemma kframe_rzl: "kframe s s' \<Longrightarrow> rzl s' = rzl s"
  by (erule kframe_elim) simp

lemma kinv_rzl [simp]: "kinv (s\<lparr>rzl := a\<rparr>) L = kinv s L"
  by (simp add: kinv_def ready_ok_def slots_ok_def)

text \<open>
  The lock of the rendezvous point is passed on while the task goes to sleep: its state
  afterwards is that of \<open>qunlock\<close>.
\<close>

lemma tasksleep_runs:
  assumes k: "kinv s L" and t: "off s L t" and c: "stack_room 0 t s"
    and own: "\<And>l. rzl s r = Some l \<Longrightarrow> qowner s l \<noteq> None"
  shows "\<exists>s'. tasksleep r s = Blocked s' \<and>
    (case unlocked (rzl s r) (L(RzWait r := L (RzWait r) @ [t])) (qowner s) of (own, L') \<Rightarrow>
       kinv s' L' \<and> kblock t (FSleep r) (s\<lparr>qowner := own\<rparr>) s')"
proof -
  let ?L = "L(RzWait r := L (RzWait r) @ [t])"
  obtain own' L' where u: "unlocked (rzl s r) ?L (qowner s) = (own', L')" by (cases "unlocked (rzl s r) ?L (qowner s)")
  from kt.add_law [OF k t, of "RzWait r"] obtain s1 where
    s1: "addq (RzWait r) t s = Inr s1" "kinv s1 ?L" "kframe s s1" by (auto simp: runs_iff)
  have "\<exists>s2. (case rzl s1 r of None \<Rightarrow> Inr s1 | Some l \<Rightarrow> qunlock l s1) = Inr s2 \<and>
      kinv s2 L' \<and> kframe (s\<lparr>qowner := own'\<rparr>) s2"
  proof (cases "rzl s r")
    case None
    with u have "own' = qowner s" "L' = ?L" by (auto simp: unlocked_def)
    with None s1 show ?thesis by (simp add: kframe_rzl)
  next
    case (Some l)
    with own have "qowner s1 l \<noteq> None" by (simp add: kframe_locks [OF s1(3)])
    from qunlock_runs [OF s1(2) this] u Some obtain s2 where
      s2: "qunlock l s1 = Inr s2" "kinv s2 L'" "kframe (s1\<lparr>qowner := own'\<rparr>) s2"
      by (auto simp: runs_iff kframe_locks [OF s1(3)])
    with Some kframe_trans [OF kframe_upd_locks(1) [OF s1(3)] s2(3)] show ?thesis
      by (simp add: kframe_rzl [OF s1(3)])
  qed
  then obtain s2 where s2: "(case rzl s1 r of None \<Rightarrow> Inr s1 | Some l \<Rightarrow> qunlock l s1) = Inr s2"
    "kinv s2 L'" "kframe (s\<lparr>qowner := own'\<rparr>) s2" by blast
  from c have c2: "stack_room 0 t s2" using stack_room_frame [OF s2(3)] by simp
  from kt.say_law [OF s2(2) c2, of "''sleep''"] obtain s3 where
    s3: "taskstate ''sleep'' [] s2 = Inr s3" "kinv s3 L'" "kframe s2 s3" by (auto simp: runs_iff)
  from c2 have c3: "stack_room 0 t s3" by (simp add: stack_room_frame [OF s3(3)])
  from kt.switch_law [OF s3(2) c3, of "FSleep r"] obtain s4 where
    s4: "taskswitch (FSleep r) s3 = Inr s4" "kinv s4 L'" "kblock t (FSleep r) s3 s4"
    by (auto simp: runs_iff)
  have "kblock t (FSleep r) (s\<lparr>qowner := own'\<rparr>) s4"
    using kframe_kblock [OF kframe_trans [OF s2(3) s3(3)] s4(3)] .
  moreover have "tasksleep r s = Blocked s4"
    using s1(1) s2(1) s3(1) s4(1) stack_room_running [OF c] by (simp add: tasksleep_def)
  ultimately show ?thesis using s4(2) u by auto
qed

end
