(* ===== verification/Channel.thy ===== *)
theory Channel
  imports Rendez
begin

text \<open>
  Channels (\<open>channel.c\<close>). A channel has a ring buffer of \<open>bufsize\<close> elements of \<open>elemsize\<close> bytes
  and two arrays of the \<open>Alt\<close> structures that wait to send and to receive on it.

  An \<open>Alt*\<close> is an element of an array: \<open>(b, i)\<close> is \<open>&b[i]\<close>. The arrays are memory of the
  program (usually on a task's stack): \<open>alts s b\<close> is the array at \<open>b\<close>, and \<open>None\<close> when there is
  none, so that a pointer that outlives its array is caught. \<open>mem\<close> is the memory the \<open>v\<close> pointers
  point to; the ring buffer of a channel is the list \<open>buf\<close>, disjoint from \<open>mem\<close>. Sizes and counts
  are \<open>unsigned int\<close>, words of 32 bits. \<open>realloc_fails\<close> says what the \<open>realloc\<close> of \<open>addarray\<close>
  answers; its result is not checked by the code.
\<close>

subsection \<open>Data\<close>

abbreviation (input) CHANEND :: "32 word" where "CHANEND \<equiv> 0"
abbreviation (input) CHANSND :: "32 word" where "CHANSND \<equiv> 1"
abbreviation (input) CHANRCV :: "32 word" where "CHANRCV \<equiv> 2"
abbreviation (input) CHANNOP :: "32 word" where "CHANNOP \<equiv> 3"
abbreviation (input) CHANNOBLK :: "32 word" where "CHANNOBLK \<equiv> 4"

type_synonym aptr = "addr \<times> nat"

record alt =
  achan :: "addr option"
  av :: "addr option"
  aop :: "32 word"
  atask :: "addr option"
  xalt :: "aptr option"

record altarray =
  aa :: "aptr list"
  an :: "32 word"
  am :: "32 word"

record channel =
  bufsize :: "32 word"
  elemsize :: "32 word"
  buf :: "byte list"
  nbuf :: "32 word"
  coff :: "32 word"
  asend :: altarray
  arecv :: altarray
  cname :: "string option"

record chanst = rendez +
  chans :: "addr \<Rightarrow> channel option"
  alts :: "addr \<Rightarrow> alt list option"
  mem :: "addr \<Rightarrow> byte"
  realloc_fails :: bool

definition cget :: "addr option \<Rightarrow> 'a chanst_scheme \<Rightarrow> halt + channel" where
  "cget c s =
     (case c of None \<Rightarrow> Inl Segv
      | Some c \<Rightarrow> (case chans s c of None \<Rightarrow> Inl Segv | Some ch \<Rightarrow> Inr ch))"

definition cset :: "addr option \<Rightarrow> channel \<Rightarrow> 'a chanst_scheme \<Rightarrow> halt + 'a chanst_scheme" where
  "cset c ch s =
     (case c of None \<Rightarrow> Inl Segv
      | Some c \<Rightarrow>
          (case chans s c of None \<Rightarrow> Inl Segv
           | Some _ \<Rightarrow> Inr (s\<lparr>chans := (chans s)(c \<mapsto> ch)\<rparr>)))"

definition aarr :: "addr \<Rightarrow> 'a chanst_scheme \<Rightarrow> halt + alt list" where
  "aarr b s = (case alts s b of None \<Rightarrow> Inl Segv | Some as \<Rightarrow> Inr as)"

definition aget :: "aptr \<Rightarrow> 'a chanst_scheme \<Rightarrow> halt + alt" where
  "aget p s = bindR (aarr (fst p) s) (\<lambda>as.
     if snd p < length as then Inr (as ! snd p) else Inl Segv)"

definition aset :: "aptr \<Rightarrow> (alt \<Rightarrow> alt) \<Rightarrow> 'a chanst_scheme \<Rightarrow> halt + 'a chanst_scheme" where
  "aset p f s = bindR (aarr (fst p) s) (\<lambda>as.
     if snd p < length as
     then Inr (s\<lparr>alts := (alts s)(fst p \<mapsto> as[snd p := f (as ! snd p)])\<rparr>) else Inl Segv)"

subsection \<open>Creation and release\<close>

definition int_range :: "int \<Rightarrow> bool" where
  "int_range i \<longleftrightarrow> - (2 ^ 31) \<le> i \<and> i < 2 ^ 31"

text \<open>
  \<open>m\<close> is what \<open>malloc\<close> returns and \<open>junk\<close> what its memory holds. The size is computed in \<open>int\<close>,
  whose overflow is undefined; a negative one makes the block smaller than the header that
  \<open>memset\<close> clears.
\<close>

definition chancreate ::
  "int \<Rightarrow> int \<Rightarrow> addr option \<Rightarrow> (nat \<Rightarrow> byte) \<Rightarrow> 'a chanst_scheme \<Rightarrow> halt + addr \<times> 'a chanst_scheme" where
  "chancreate esz bsz m junk s =
     (if \<not> int_range (bsz * esz) then Inl Segv
      else
        (case m of
           None \<Rightarrow> Inl (Exit 1)
         | Some c \<Rightarrow>
             if bsz * esz < 0 then Inl Segv
             else Inr (c, s\<lparr>chans := (chans s)(c \<mapsto>
               \<lparr>bufsize = word_of_int bsz, elemsize = word_of_int esz,
                 buf = map junk [0..<nat (bsz * esz)], nbuf = 0, coff = 0,
                 asend = \<lparr>aa = [], an = 0, am = 0\<rparr>, arecv = \<lparr>aa = [], an = 0, am = 0\<rparr>,
                 cname = None\<rparr>)\<rparr>)))"

definition chanfree :: "addr option \<Rightarrow> 'a chanst_scheme \<Rightarrow> halt + 'a chanst_scheme" where
  "chanfree c s =
     (case c of None \<Rightarrow> Inr s
      | Some a \<Rightarrow> bindR (cget c s) (\<lambda>_. Inr (s\<lparr>chans := (chans s)(a := None)\<rparr>)))"

subsection \<open>Arrays of waiting Alts\<close>

definition addarray :: "bool \<Rightarrow> altarray \<Rightarrow> aptr \<Rightarrow> halt + altarray" where
  "addarray fails a alt =
     bindR
       (if an a = am a then
          (let m = am a + 16 in
           if fails then Inl Segv
           else Inr (a\<lparr>am := m, aa := take (unat m) (aa a) @ replicate (unat m - length (aa a)) (0, 0)\<rparr>))
        else Inr a)
       (\<lambda>a.
     if unat (an a) < length (aa a)
     then Inr (a\<lparr>aa := (aa a)[unat (an a) := alt], an := an a + 1\<rparr>) else Inl Segv)"

definition delarray :: "altarray \<Rightarrow> nat \<Rightarrow> halt + altarray" where
  "delarray a i =
     (let a = a\<lparr>an := an a - 1\<rparr> in
      if unat (an a) < length (aa a) \<and> i < length (aa a)
      then Inr (a\<lparr>aa := (aa a)[i := aa a ! unat (an a)]\<rparr>) else Inl Segv)"

definition otherop :: "32 word \<Rightarrow> 32 word" where
  "otherop op = CHANSND + CHANRCV - op"

datatype side = Asend | Arecv

definition chanarray :: "32 word \<Rightarrow> side option" where
  "chanarray op = (if op = CHANSND then Some Asend else if op = CHANRCV then Some Arecv else None)"

fun side_get :: "side \<Rightarrow> channel \<Rightarrow> altarray" where
  "side_get Asend c = asend c"
| "side_get Arecv c = arecv c"

fun side_set :: "side \<Rightarrow> altarray \<Rightarrow> channel \<Rightarrow> channel" where
  "side_set Asend a c = c\<lparr>asend := a\<rparr>"
| "side_set Arecv a c = c\<lparr>arecv := a\<rparr>"

definition altcanexec :: "aptr \<Rightarrow> 'a chanst_scheme \<Rightarrow> halt + bool" where
  "altcanexec p s =
     bindR (aget p s) (\<lambda>a.
     if aop a = CHANNOP then Inr False
     else
       bindR (cget (achan a) s) (\<lambda>c.
       if bufsize c = 0 then
         (case chanarray (otherop (aop a)) of
            None \<Rightarrow> Inr False
          | Some w \<Rightarrow> Inr (an (side_get w c) \<noteq> 0))
       else if aop a = CHANSND then Inr (nbuf c < bufsize c)
       else if aop a = CHANRCV then Inr (nbuf c > 0)
       else Inr False))"

definition altqueue :: "aptr \<Rightarrow> 'a chanst_scheme \<Rightarrow> halt + 'a chanst_scheme" where
  "altqueue p s =
     bindR (aget p s) (\<lambda>a.
     bindR (cget (achan a) s) (\<lambda>c.
     case chanarray (aop a) of
       None \<Rightarrow> Inl Segv
     | Some w \<Rightarrow>
         bindR (addarray (realloc_fails s) (side_get w c) p) (\<lambda>ar.
         cset (achan a) (side_set w ar c) s)))"

fun index_of :: "'b \<Rightarrow> 'b list \<Rightarrow> nat option" where
  "index_of x [] = None"
| "index_of x (y # ys) = (if y = x then Some 0 else map_option Suc (index_of x ys))"

definition altdequeue :: "aptr \<Rightarrow> 'a chanst_scheme \<Rightarrow> halt + 'a chanst_scheme" where
  "altdequeue p s =
     bindR (aget p s) (\<lambda>a.
     case chanarray (aop a) of
       None \<Rightarrow> Inl (Abort ''bad use of altdequeue'')
     | Some w \<Rightarrow>
         bindR (cget (achan a) s) (\<lambda>c.
         let ar = side_get w c in
         if unat (an ar) > length (aa ar) then Inl Segv
         else
           (case index_of p (take (unat (an ar)) (aa ar)) of
              None \<Rightarrow> Inl (Abort ''cannot find self in altdq'')
            | Some i \<Rightarrow>
                bindR (delarray ar i) (\<lambda>ar. cset (achan a) (side_set w ar c) s))))"

text \<open>The loops over an array run to its end mark; an array without one is overrun.\<close>

definition end_mark :: "alt \<Rightarrow> bool" where
  "end_mark a \<longleftrightarrow> aop a = CHANEND \<or> aop a = CHANNOBLK"

fun dequeue_from :: "addr \<Rightarrow> nat \<Rightarrow> alt list \<Rightarrow> 'a chanst_scheme \<Rightarrow> halt + 'a chanst_scheme" where
  "dequeue_from b i [] s = Inl Segv"
| "dequeue_from b i (a # as) s =
     (if end_mark a then Inr s
      else if aop a \<noteq> CHANNOP then bindR (altdequeue (b, i) s) (\<lambda>s. dequeue_from b (i + 1) as s)
      else dequeue_from b (i + 1) as s)"

definition altalldequeue :: "aptr \<Rightarrow> 'a chanst_scheme \<Rightarrow> halt + 'a chanst_scheme" where
  "altalldequeue p s =
     bindR (aarr (fst p) s) (\<lambda>as. dequeue_from (fst p) (snd p) (drop (snd p) as) s)"

subsection \<open>Moving data\<close>

text \<open>A pointer to data: into the program's memory, or into the ring buffer of the channel.\<close>

datatype loc = Mem addr | Buf nat

definition mem_read :: "(addr \<Rightarrow> byte) \<Rightarrow> addr \<Rightarrow> nat \<Rightarrow> byte list" where
  "mem_read m a n = map (\<lambda>i. m (a + of_nat i)) [0..<n]"

fun mem_write :: "(addr \<Rightarrow> byte) \<Rightarrow> addr \<Rightarrow> byte list \<Rightarrow> addr \<Rightarrow> byte" where
  "mem_write m a [] = m"
| "mem_write m a (b # bs) = mem_write (m(a := b)) (a + 1) bs"

definition move_read :: "loc \<Rightarrow> nat \<Rightarrow> (addr \<Rightarrow> byte) \<times> byte list \<Rightarrow> halt + byte list" where
  "move_read l n mb =
     (case l of
        Mem a \<Rightarrow> Inr (mem_read (fst mb) a n)
      | Buf k \<Rightarrow> if k + n \<le> length (snd mb) then Inr (take n (drop k (snd mb))) else Inl Segv)"

definition move_write ::
  "loc \<Rightarrow> byte list \<Rightarrow> (addr \<Rightarrow> byte) \<times> byte list \<Rightarrow> halt + (addr \<Rightarrow> byte) \<times> byte list" where
  "move_write l bs mb =
     (case l of
        Mem a \<Rightarrow> Inr (mem_write (fst mb) a bs, snd mb)
      | Buf k \<Rightarrow>
          if k + length bs \<le> length (snd mb)
          then Inr (fst mb, take k (snd mb) @ bs @ drop (k + length bs) (snd mb)) else Inl Segv)"

definition amove ::
  "loc option \<Rightarrow> loc option \<Rightarrow> nat \<Rightarrow> (addr \<Rightarrow> byte) \<times> byte list \<Rightarrow> halt + (addr \<Rightarrow> byte) \<times> byte list"
where
  "amove dst src n mb =
     (case dst of
        None \<Rightarrow> Inr mb
      | Some d \<Rightarrow>
          (case src of
             None \<Rightarrow> move_write d (replicate n 0) mb
           | Some q \<Rightarrow> bindR (move_read q n mb) (\<lambda>bs. move_write d bs mb)))"

text \<open>
  The two halves of \<open>altcopy\<close> after the sender and the receiver are known: \<open>rv\<close> and \<open>sv\<close> are
  the \<open>v\<close> fields. \<open>c\<close> is the channel and \<open>m\<close> the memory.
\<close>

definition copy_recv ::
  "addr option \<Rightarrow> (addr \<Rightarrow> byte) \<times> channel \<Rightarrow> halt + (addr \<Rightarrow> byte) \<times> channel" where
  "copy_recv rv mc =
     (case mc of (m, c) \<Rightarrow>
      let cp = unat (coff c * elemsize c) in
      bindR (amove (map_option Mem rv) (Some (Buf cp)) (unat (elemsize c)) (m, buf c)) (\<lambda>(m, b).
      let c = c\<lparr>buf := b, nbuf := nbuf c - 1, coff := coff c + 1\<rparr>
      in Inr (m, if coff c = bufsize c then c\<lparr>coff := 0\<rparr> else c)))"

definition copy_send ::
  "addr option \<Rightarrow> (addr \<Rightarrow> byte) \<times> channel \<Rightarrow> halt + (addr \<Rightarrow> byte) \<times> channel" where
  "copy_send sv mc =
     (case mc of (m, c) \<Rightarrow>
      if bufsize c = 0 then Inl Segv
      else
        (let cp = unat ((coff c + nbuf c) mod bufsize c * elemsize c) in
         bindR (amove (Some (Buf cp)) (map_option Mem sv) (unat (elemsize c)) (m, buf c)) (\<lambda>(m, b).
         Inr (m, c\<lparr>buf := b, nbuf := nbuf c + 1\<rparr>))))"

text \<open>\<open>copy\<close>: the data movement for the \<open>v\<close> of a sender and of a receiver, if there is one.\<close>

definition copy ::
  "addr option option \<Rightarrow> addr option option \<Rightarrow> (addr \<Rightarrow> byte) \<times> channel \<Rightarrow>
     halt + (addr \<Rightarrow> byte) \<times> channel" where
  "copy sv rv mc =
     (case (sv, rv) of
        (Some v, Some w) \<Rightarrow>
          if nbuf (snd mc) = 0
          then bindR (amove (map_option Mem w) (map_option Mem v) (unat (elemsize (snd mc)))
                 (fst mc, buf (snd mc))) (\<lambda>(m, b). Inr (m, (snd mc)\<lparr>buf := b\<rparr>))
          else bindR (copy_recv w mc) (copy_send v)
      | (None, Some w) \<Rightarrow> copy_recv w mc
      | (Some v, None) \<Rightarrow> copy_send v mc
      | (None, None) \<Rightarrow> Inr mc)"

definition opt_aget :: "aptr option \<Rightarrow> 'a chanst_scheme \<Rightarrow> halt + alt option" where
  "opt_aget p s = (case p of None \<Rightarrow> Inr None | Some p \<Rightarrow> bindR (aget p s) (\<lambda>a. Inr (Some a)))"

definition altcopy ::
  "aptr option \<Rightarrow> aptr option \<Rightarrow> 'a chanst_scheme \<Rightarrow> halt + 'a chanst_scheme" where
  "altcopy p q s =
     (if p = None \<and> q = None then Inr s
      else
        bindR (opt_aget p s) (\<lambda>sa.
        bindR (opt_aget q s) (\<lambda>ra.
        case sa of
          None \<Rightarrow> Inl (Assert ''s != nil'')
        | Some a \<Rightarrow>
            bindR (cget (achan a) s) (\<lambda>c.
            let (sa, ra) = (if aop a = CHANRCV then (ra, sa) else (sa, ra)) in
            if \<not> (case sa of None \<Rightarrow> True | Some x \<Rightarrow> aop x = CHANSND)
            then Inl (Assert ''s==nil || s->op == CHANSND'')
            else if \<not> (case ra of None \<Rightarrow> True | Some x \<Rightarrow> aop x = CHANRCV)
            then Inl (Assert ''r==nil || r->op == CHANRCV'')
            else
              bindR (copy (map_option av sa) (map_option av ra) (mem s, c)) (\<lambda>(m, c).
              cset (achan a) c (s\<lparr>mem := m\<rparr>))))))"

subsection \<open>Executing an operation\<close>

text \<open>\<open>r\<close> is the value of \<open>rand()\<close>.\<close>

definition altexec :: "nat \<Rightarrow> aptr \<Rightarrow> 'a chanst_scheme \<Rightarrow> halt + 'a chanst_scheme" where
  "altexec r p s =
     bindR (aget p s) (\<lambda>a.
     bindR (cget (achan a) s) (\<lambda>c.
     case chanarray (otherop (aop a)) of
       None \<Rightarrow> altcopy (Some p) None s
     | Some w \<Rightarrow>
         (let ar = side_get w c in
          if an ar = 0 then altcopy (Some p) None s
          else
            (let i = r mod unat (an ar) in
             if length (aa ar) \<le> i then Inl Segv
             else
               (let other = aa ar ! i in
                bindR (altcopy (Some p) (Some other) s) (\<lambda>s.
                bindR (aget other s) (\<lambda>oa.
                case xalt oa of
                  None \<Rightarrow> Inl Segv
                | Some x \<Rightarrow>
                    bindR (altalldequeue x s) (\<lambda>s.
                    bindR (aset x (\<lambda>xa. xa\<lparr>xalt := Some other\<rparr>) s) (\<lambda>s.
                    case atask oa of
                      None \<Rightarrow> Inl Segv
                    | Some t \<Rightarrow> taskready t s)))))))))"

subsection \<open>chanalt\<close>

fun alt_end :: "alt list \<Rightarrow> nat option" where
  "alt_end [] = None"
| "alt_end (a # as) = (if end_mark a then Some 0 else map_option Suc (alt_end as))"

fun count_can :: "addr \<Rightarrow> nat \<Rightarrow> nat \<Rightarrow> 'a chanst_scheme \<Rightarrow> halt + nat" where
  "count_can b i 0 s = Inr 0"
| "count_can b i (Suc n) s =
     bindR (altcanexec (b, i) s) (\<lambda>can.
     bindR (count_can b (i + 1) n s) (\<lambda>k. Inr (if can then k + 1 else k)))"

fun nth_can :: "addr \<Rightarrow> nat \<Rightarrow> nat \<Rightarrow> nat \<Rightarrow> 'a chanst_scheme \<Rightarrow> halt + nat option" where
  "nth_can b i 0 j s = Inr None"
| "nth_can b i (Suc n) j s =
     bindR (altcanexec (b, i) s) (\<lambda>can.
     if can then (if j = 0 then Inr (Some i) else nth_can b (i + 1) n (j - 1) s)
     else nth_can b (i + 1) n j s)"

fun queue_all :: "addr \<Rightarrow> nat \<Rightarrow> alt list \<Rightarrow> 'a chanst_scheme \<Rightarrow> halt + 'a chanst_scheme" where
  "queue_all b i [] s = Inr s"
| "queue_all b i (a # as) s =
     (if aop a \<noteq> CHANNOP then bindR (altqueue (b, i) s) (\<lambda>s. queue_all b (i + 1) as s)
      else queue_all b (i + 1) as s)"

text \<open>\<open>r1\<close> and \<open>r2\<close> are the values of \<open>rand()\<close> here and in \<open>altexec\<close>.\<close>

definition chanalt :: "addr \<Rightarrow> nat \<Rightarrow> nat \<Rightarrow> 'a chanst_scheme \<Rightarrow> (int, 'a chanst_scheme) co" where
  "chanalt b r1 r2 s =
     bindC (needstack 512 s) (\<lambda>_.
     bindC (aarr b s) (\<lambda>as.
     case alt_end as of
       None \<Rightarrow> Halted Segv
     | Some n \<Rightarrow>
         (let canblock = (aop (as ! n) = CHANEND);
              t = taskrunning s;
              as = map (\<lambda>a. a\<lparr>atask := t, xalt := Some (b, 0)\<rparr>) (take n as) @ drop n as;
              s = s\<lparr>alts := (alts s)(b \<mapsto> as)\<rparr>
          in
          bindC (count_can b 0 n s) (\<lambda>ncan.
          bindC (if ncan \<noteq> 0 then nth_can b 0 n (r1 mod ncan) s else Inr None) (\<lambda>pick.
          case pick of
            Some i \<Rightarrow> bindC (altexec r2 (b, i) s) (\<lambda>s. Done (int i) s)
          | None \<Rightarrow>
              if \<not> canblock then Done (-1) s
              else
                blocks (
                  bindR (queue_all b 0 (take n as) s) (\<lambda>s.
                  taskswitch (FAlt b) s)))))))"

text \<open>\<open>a[0].xalt - a\<close>; the difference of pointers into two arrays is undefined.\<close>

definition chanalt_resume :: "addr \<Rightarrow> 'a chanst_scheme \<Rightarrow> (int, 'a chanst_scheme) co" where
  "chanalt_resume b s =
     bindC (aget (b, 0) s) (\<lambda>a.
     case xalt a of
       None \<Rightarrow> Halted Segv
     | Some p \<Rightarrow> if fst p = b then Done (int (snd p)) s else Halted Segv)"

subsection \<open>Sending and receiving\<close>

text \<open>
  \<open>_chanop\<close> with its local array \<open>a\<close> at the address \<open>b\<close>; the array is gone when it returns.
\<close>

fun chanop_ret :: "addr \<Rightarrow> (int, 'a chanst_scheme) co \<Rightarrow> (int, 'a chanst_scheme) co" where
  "chanop_ret b (Done i s) = Done (if i < 0 then -1 else 1) (s\<lparr>alts := (alts s)(b := None)\<rparr>)"
| "chanop_ret b (Blocked s) = Blocked s"
| "chanop_ret b (Halted h) = Halted h"

definition do_chanop ::
  "addr \<Rightarrow> nat \<Rightarrow> nat \<Rightarrow> addr option \<Rightarrow> 32 word \<Rightarrow> addr option \<Rightarrow> bool \<Rightarrow>
     'a chanst_scheme \<Rightarrow> (int, 'a chanst_scheme) co" where
  "do_chanop b r1 r2 c op p canblock s =
     (let a = [\<lparr>achan = c, av = p, aop = op, atask = None, xalt = None\<rparr>,
               \<lparr>achan = None, av = None, aop = (if canblock then CHANEND else CHANNOBLK),
                 atask = None, xalt = None\<rparr>]
      in chanop_ret b (chanalt b r1 r2 (s\<lparr>alts := (alts s)(b \<mapsto> a)\<rparr>)))"

definition do_chanop_resume :: "addr \<Rightarrow> 'a chanst_scheme \<Rightarrow> (int, 'a chanst_scheme) co" where
  "do_chanop_resume b s = chanop_ret b (chanalt_resume b s)"

definition chansend ::
  "addr \<Rightarrow> nat \<Rightarrow> nat \<Rightarrow> addr option \<Rightarrow> addr option \<Rightarrow> 'a chanst_scheme \<Rightarrow> (int, 'a chanst_scheme) co"
where
  "chansend b r1 r2 c v s = do_chanop b r1 r2 c CHANSND v True s"

definition channbsend ::
  "addr \<Rightarrow> nat \<Rightarrow> nat \<Rightarrow> addr option \<Rightarrow> addr option \<Rightarrow> 'a chanst_scheme \<Rightarrow> (int, 'a chanst_scheme) co"
where
  "channbsend b r1 r2 c v s = do_chanop b r1 r2 c CHANSND v False s"

definition chanrecv ::
  "addr \<Rightarrow> nat \<Rightarrow> nat \<Rightarrow> addr option \<Rightarrow> addr option \<Rightarrow> 'a chanst_scheme \<Rightarrow> (int, 'a chanst_scheme) co"
where
  "chanrecv b r1 r2 c v s = do_chanop b r1 r2 c CHANRCV v True s"

definition channbrecv ::
  "addr \<Rightarrow> nat \<Rightarrow> nat \<Rightarrow> addr option \<Rightarrow> addr option \<Rightarrow> 'a chanst_scheme \<Rightarrow> (int, 'a chanst_scheme) co"
where
  "channbrecv b r1 r2 c v s = do_chanop b r1 r2 c CHANRCV v False s"

text \<open>
  The variants for pointers and for \<open>unsigned long\<close> pass the address \<open>lv\<close> of a parameter or a
  local variable of eight bytes, the least significant first. The variable that the receiving
  variants return is not initialised: what it holds is what the memory held.
\<close>

definition le_bytes :: "64 word \<Rightarrow> byte list" where
  "le_bytes v = map (\<lambda>i. word_of_int (uint v div 256 ^ i)) [0..<8]"

definition of_le :: "byte list \<Rightarrow> 64 word" where
  "of_le bs = word_of_int (foldr (\<lambda>b n. uint b + 256 * n) bs 0)"

fun map_done :: "('a \<Rightarrow> 's \<Rightarrow> 'b) \<Rightarrow> ('a, 's) co \<Rightarrow> ('b, 's) co" where
  "map_done f (Done x s) = Done (f x s) s"
| "map_done f (Blocked s) = Blocked s"
| "map_done f (Halted h) = Halted h"

definition send_word ::
  "addr \<Rightarrow> addr \<Rightarrow> nat \<Rightarrow> nat \<Rightarrow> addr option \<Rightarrow> 64 word \<Rightarrow> bool \<Rightarrow>
     'a chanst_scheme \<Rightarrow> (int, 'a chanst_scheme) co" where
  "send_word b lv r1 r2 c v canblock s =
     do_chanop b r1 r2 c CHANSND (Some lv) canblock (s\<lparr>mem := mem_write (mem s) lv (le_bytes v)\<rparr>)"

definition recv_word ::
  "addr \<Rightarrow> addr \<Rightarrow> nat \<Rightarrow> nat \<Rightarrow> addr option \<Rightarrow> bool \<Rightarrow>
     'a chanst_scheme \<Rightarrow> (64 word, 'a chanst_scheme) co" where
  "recv_word b lv r1 r2 c canblock s =
     map_done (\<lambda>_ s. of_le (mem_read (mem s) lv 8)) (do_chanop b r1 r2 c CHANRCV (Some lv) canblock s)"

definition recv_word_resume :: "addr \<Rightarrow> addr \<Rightarrow> 'a chanst_scheme \<Rightarrow> (64 word, 'a chanst_scheme) co" where
  "recv_word_resume b lv s =
     map_done (\<lambda>_ s. of_le (mem_read (mem s) lv 8)) (do_chanop_resume b s)"

definition chansendp ::
  "addr \<Rightarrow> addr \<Rightarrow> nat \<Rightarrow> nat \<Rightarrow> addr option \<Rightarrow> 64 word \<Rightarrow> 'a chanst_scheme \<Rightarrow> (int, 'a chanst_scheme) co"
where
  "chansendp b lv r1 r2 c v s = send_word b lv r1 r2 c v True s"

definition chanrecvp ::
  "addr \<Rightarrow> addr \<Rightarrow> nat \<Rightarrow> nat \<Rightarrow> addr option \<Rightarrow> 'a chanst_scheme \<Rightarrow> (64 word, 'a chanst_scheme) co"
where
  "chanrecvp b lv r1 r2 c s = recv_word b lv r1 r2 c True s"

definition channbsendp ::
  "addr \<Rightarrow> addr \<Rightarrow> nat \<Rightarrow> nat \<Rightarrow> addr option \<Rightarrow> 64 word \<Rightarrow> 'a chanst_scheme \<Rightarrow> (int, 'a chanst_scheme) co"
where
  "channbsendp b lv r1 r2 c v s = send_word b lv r1 r2 c v False s"

definition channbrecvp ::
  "addr \<Rightarrow> addr \<Rightarrow> nat \<Rightarrow> nat \<Rightarrow> addr option \<Rightarrow> 'a chanst_scheme \<Rightarrow> (64 word, 'a chanst_scheme) co"
where
  "channbrecvp b lv r1 r2 c s = recv_word b lv r1 r2 c False s"

definition chansendul ::
  "addr \<Rightarrow> addr \<Rightarrow> nat \<Rightarrow> nat \<Rightarrow> addr option \<Rightarrow> 64 word \<Rightarrow> 'a chanst_scheme \<Rightarrow> (int, 'a chanst_scheme) co"
where
  "chansendul b lv r1 r2 c val s = send_word b lv r1 r2 c val True s"

definition chanrecvul ::
  "addr \<Rightarrow> addr \<Rightarrow> nat \<Rightarrow> nat \<Rightarrow> addr option \<Rightarrow> 'a chanst_scheme \<Rightarrow> (64 word, 'a chanst_scheme) co"
where
  "chanrecvul b lv r1 r2 c s = recv_word b lv r1 r2 c True s"

definition channbsendul ::
  "addr \<Rightarrow> addr \<Rightarrow> nat \<Rightarrow> nat \<Rightarrow> addr option \<Rightarrow> 64 word \<Rightarrow> 'a chanst_scheme \<Rightarrow> (int, 'a chanst_scheme) co"
where
  "channbsendul b lv r1 r2 c val s = send_word b lv r1 r2 c val False s"

definition channbrecvul ::
  "addr \<Rightarrow> addr \<Rightarrow> nat \<Rightarrow> nat \<Rightarrow> addr option \<Rightarrow> 'a chanst_scheme \<Rightarrow> (64 word, 'a chanst_scheme) co"
where
  "channbrecvul b lv r1 r2 c s = recv_word b lv r1 r2 c False s"

end
