(* ===== verification/Fd.thy ===== *)
theory Fd
  imports Channel
begin

text \<open>
  Timers and descriptors (\<open>fd.c\<close>): the list of sleeping tasks, the table of tasks that wait for a
  descriptor, and the system task \<open>fdtask\<close> that polls for them when nothing else can run.

  The tables \<open>pollfd\<close> and \<open>polltask\<close> have \<open>MAXFD\<close> cells. The events of an entry are the set of the
  constants of \<open>poll.h\<close> that are or-ed together. What the system answers is a parameter: the time
  \<open>now\<close> that \<open>nsec\<close> returns, the result of \<open>poll\<close> and the \<open>revents\<close> it stores, and the results of
  \<open>read\<close> and \<open>write\<close>, each with whether \<open>errno\<close> is \<open>EAGAIN\<close>.
\<close>

subsection \<open>State\<close>

abbreviation (input) MAXFD :: nat where "MAXFD \<equiv> 1024"

datatype pollbit = POLLIN | POLLOUT

record pollent =
  pfd :: int
  events :: "pollbit set"
  revents :: int

record fdst = chanst +
  pollfd :: "pollent list"
  polltask :: "addr list"
  npollfd :: nat
  startedfdtask :: bool
  sleepingcounted :: int

record pollres =
  poll_r :: int
  poll_eintr :: bool
  poll_revents :: "nat \<Rightarrow> int"

text \<open>\<open>r\<close> is what \<open>gettimeofday\<close> returns, \<open>sec\<close> and \<open>usec\<close> the time it stores.\<close>

definition nsec :: "int \<Rightarrow> int \<Rightarrow> int \<Rightarrow> 64 word" where
  "nsec r sec usec =
     (if r < 0 then - 1
      else word_of_int sec * 1000 * 1000 * 1000 + word_of_int (usec * 1000))"

subsection \<open>The task fdtask\<close>

text \<open>How long to poll: \<open>ms\<close>, at the time \<open>now\<close>.\<close>

definition poll_ms :: "64 word \<Rightarrow> 'a fdst_scheme \<Rightarrow> halt + int" where
  "poll_ms now s =
     (case headq Sleeping s of
        None \<Rightarrow> Inr (-1)
      | Some t \<Rightarrow>
          bindR (kget t s) (\<lambda>tk.
          if now \<ge> alarmtime tk then Inr 0
          else if now + 5 * 1000 * 1000 * 1000 \<ge> alarmtime tk
          then Inr (uint ((alarmtime tk - now) div 1000000))
          else Inr 5000))"

text \<open>\<open>poll\<close> stores the \<open>revents\<close> of the first \<open>npollfd\<close> entries.\<close>

definition set_revents :: "(nat \<Rightarrow> int) \<Rightarrow> 'a fdst_scheme \<Rightarrow> 'a fdst_scheme" where
  "set_revents rv s =
     s\<lparr>pollfd := map (\<lambda>i. if i < npollfd s then (pollfd s ! i)\<lparr>revents := rv i\<rparr> else pollfd s ! i)
         [0..<length (pollfd s)]\<rparr>"

text \<open>The inner and the outer loop over the table.\<close>

definition wake_inner :: "nat \<Rightarrow> 'a fdst_scheme \<Rightarrow> halt + bool \<times> 'a fdst_scheme" where
  "wake_inner i s =
     (if npollfd s > length (pollfd s) \<or> npollfd s > length (polltask s) then Inl Segv
      else if i < npollfd s \<and> revents (pollfd s ! i) \<noteq> 0 then
        bindR (taskready (polltask s ! i) s) (\<lambda>s.
        let n = npollfd s - 1;
            s = s\<lparr>npollfd := n, pollfd := (pollfd s)[i := pollfd s ! n]\<rparr>;
            s = s\<lparr>polltask := (polltask s)[i := polltask s ! n]\<rparr>
        in Inr (True, s))
      else Inr (False, s))"

definition wake_outer :: "nat \<times> 'a fdst_scheme \<Rightarrow> halt + bool \<times> nat \<times> 'a fdst_scheme" where
  "wake_outer is =
     (case is of (i, s) \<Rightarrow>
        if i < npollfd s then bindR (cloop (wake_inner i) s) (\<lambda>s. Inr (True, i + 1, s))
        else Inr (False, i, s))"

definition wake_ready :: "'a fdst_scheme \<Rightarrow> halt + 'a fdst_scheme" where
  "wake_ready s = bindR (cloop wake_outer (0, s)) (\<lambda>(i, s). Inr s)"

text \<open>The loop over the sleeping tasks whose time has come.\<close>

definition expire_body :: "64 word \<Rightarrow> 'a fdst_scheme \<Rightarrow> halt + bool \<times> 'a fdst_scheme" where
  "expire_body now s =
     (case headq Sleeping s of
        None \<Rightarrow> Inr (False, s)
      | Some t \<Rightarrow>
          bindR (kget t s) (\<lambda>tk.
          if now \<ge> alarmtime tk then
            bindR (delq Sleeping t s) (\<lambda>s.
            bindR (kget t s) (\<lambda>tk.
            let s = (if \<not> system tk
                     then (let n = sleepingcounted s - 1; s = s\<lparr>sleepingcounted := n\<rparr>
                           in if n = 0 then s\<lparr>taskcount := taskcount s - 1\<rparr> else s)
                     else s)
            in bindR (taskready t s) (\<lambda>s. Inr (True, s))))
          else Inr (False, s)))"

definition expire :: "64 word \<Rightarrow> 'a fdst_scheme \<Rightarrow> halt + 'a fdst_scheme" where
  "expire now s = cloop (expire_body now) s"

text \<open>
  One turn of the loop of \<open>fdtask\<close> after \<open>taskyield\<close> has returned 0. \<open>now1\<close> and \<open>now2\<close> are the
  times before and after the poll, \<open>pl\<close> is what \<open>poll\<close> answers for a table, a number of entries and
  a timeout.
\<close>

definition fdtask_turn ::
  "64 word \<Rightarrow> (pollent list \<Rightarrow> nat \<Rightarrow> int \<Rightarrow> pollres) \<Rightarrow> 64 word \<Rightarrow> 'a fdst_scheme \<Rightarrow>
     (unit, 'a fdst_scheme) co" where
  "fdtask_turn now1 pl now2 s =
     bindC (taskstate ''poll'' [] s) (\<lambda>s.
     bindC (poll_ms now1 s) (\<lambda>ms.
     let r = pl (pollfd s) (npollfd s) ms in
     if poll_r r < 0 then
       (if poll_eintr r then Done () s else taskexitall 0 s)
     else
       bindC (wake_ready (set_revents (poll_revents r) s)) (\<lambda>s.
       bindC (expire now2 s) (\<lambda>s. Done () s))))"

text \<open>
  \<open>fdtask\<close> runs up to its first \<open>taskyield\<close>; \<open>fdtask_resume\<close> goes on from the return of a
  \<open>taskyield\<close> that noted \<open>n\<close> to the next one.
\<close>

definition fdtask :: "'a fdst_scheme \<Rightarrow> (int, 'a fdst_scheme) co" where
  "fdtask s =
     bindC (tasksystem s) (\<lambda>s.
     bindC (taskname ''fdtask'' [] s) (\<lambda>s.
     taskyield s))"

definition fdtask_resume ::
  "int \<Rightarrow> 64 word \<Rightarrow> (pollent list \<Rightarrow> nat \<Rightarrow> int \<Rightarrow> pollres) \<Rightarrow> 64 word \<Rightarrow> 'a fdst_scheme \<Rightarrow>
     (int, 'a fdst_scheme) co" where
  "fdtask_resume n now1 pl now2 s =
     (case taskyield_resume n s of
        Done v s \<Rightarrow>
          if v > 0 then taskyield s
          else
            (case fdtask_turn now1 pl now2 s of
               Done _ s \<Rightarrow> taskyield s
             | Blocked s \<Rightarrow> Blocked s
             | Halted h \<Rightarrow> Halted h)
      | Blocked s \<Rightarrow> Blocked s
      | Halted h \<Rightarrow> Halted h)"

definition start_fdtask :: "libc \<Rightarrow> 'a fdst_scheme \<Rightarrow> halt + 'a fdst_scheme" where
  "start_fdtask lib s =
     (if \<not> startedfdtask s
      then bindR (taskcreate Fdtask 0 32768 lib (s\<lparr>startedfdtask := True\<rparr>)) (\<lambda>(_, s). Inr s)
      else Inr s)"

subsection \<open>taskdelay\<close>

text \<open>The search for the first sleeping task that wakes no earlier than \<open>when\<close>.\<close>

definition later_body ::
  "64 word \<Rightarrow> heap \<Rightarrow> addr option \<Rightarrow> halt + bool \<times> addr option" where
  "later_body when h p =
     (case p of
        None \<Rightarrow> Inr (False, None)
      | Some u \<Rightarrow>
          bindR (tget u h) (\<lambda>uk.
          if alarmtime uk < when then Inr (True, nxt uk) else Inr (False, Some u)))"

text \<open>
  Linking task \<open>t\<close> into the list before \<open>u\<close>, or at the end when there is no such task; the alarm
  time is set on the way.
\<close>

definition insert_before ::
  "tasklist \<Rightarrow> addr \<Rightarrow> addr option \<Rightarrow> 64 word \<Rightarrow> heap \<Rightarrow> halt + tasklist \<times> heap" where
  "insert_before l t u when h =
     bindR
       (case u of
          Some u \<Rightarrow>
            bindR (tget u h) (\<lambda>uk.
            bindR (tset t (\<lambda>tk. tk\<lparr>prv := prv uk\<rparr>) h) (\<lambda>h.
            tset t (\<lambda>tk. tk\<lparr>nxt := Some u\<rparr>) h))
        | None \<Rightarrow>
            bindR (tset t (\<lambda>tk. tk\<lparr>prv := tail l\<rparr>) h) (\<lambda>h.
            tset t (\<lambda>tk. tk\<lparr>nxt := None\<rparr>) h))
       (\<lambda>h.
     bindR (tset t (\<lambda>tk. tk\<lparr>alarmtime := when\<rparr>) h) (\<lambda>h.
     bindR (tget t h) (\<lambda>tk.
     bindR
       (case prv tk of
          Some p \<Rightarrow> bindR (tset p (\<lambda>pk. pk\<lparr>nxt := Some t\<rparr>) h) (\<lambda>h. Inr (l, h))
        | None \<Rightarrow> Inr (l\<lparr>head := Some t\<rparr>, h))
       (\<lambda>(l, h).
     bindR (tget t h) (\<lambda>tk.
     case nxt tk of
       Some n \<Rightarrow> bindR (tset n (\<lambda>nk. nk\<lparr>prv := Some t\<rparr>) h) (\<lambda>h. Inr (l, h))
     | None \<Rightarrow> Inr (l\<lparr>tail := Some t\<rparr>, h))))))"

definition taskdelay ::
  "32 word \<Rightarrow> 64 word \<Rightarrow> libc \<Rightarrow> 'a fdst_scheme \<Rightarrow> (32 word, 'a fdst_scheme) co" where
  "taskdelay ms now lib s =
     blocks (
       bindR (start_fdtask lib s) (\<lambda>s.
       let when = now + ucast ms * 1000000 in
       bindR (cloop (later_body when (heap s)) (headq Sleeping s)) (\<lambda>u.
       bindR (running s) (\<lambda>t.
       bindR (insert_before (tlists s Sleeping) t u when (heap s)) (\<lambda>(q, h).
       let s = s\<lparr>heap := h, tlists := (tlists s)(Sleeping := q)\<rparr> in
       bindR (kget t s) (\<lambda>tk.
       let s = (if \<not> system tk
                then (let n = sleepingcounted s; s = s\<lparr>sleepingcounted := n + 1\<rparr>
                      in if n = 0 then s\<lparr>taskcount := taskcount s + 1\<rparr> else s)
                else s)
       in taskswitch (FDelay now) s))))))"

definition taskdelay_resume ::
  "64 word \<Rightarrow> 64 word \<Rightarrow> 'a fdst_scheme \<Rightarrow> (32 word, 'a fdst_scheme) co" where
  "taskdelay_resume now later s = Done (ucast ((later - now) div 1000000)) s"

subsection \<open>Waiting for a descriptor\<close>

definition rw_bits :: "int \<Rightarrow> pollbit set" where
  "rw_bits rw = (if rw = 114 then {POLLIN} else if rw = 119 then {POLLOUT} else {})"

definition rw_text :: "int \<Rightarrow> string" where
  "rw_text rw = (if rw = 114 then ''read'' else if rw = 119 then ''write'' else ''error'')"

definition fdwait :: "int \<Rightarrow> int \<Rightarrow> libc \<Rightarrow> 'a fdst_scheme \<Rightarrow> halt + 'a fdst_scheme" where
  "fdwait fd rw lib s =
     bindR (start_fdtask lib s) (\<lambda>s.
     if npollfd s \<ge> MAXFD then Inl (Abort ''too many poll file descriptors'')
     else
       bindR (taskstate ''fdwait for %s'' [Str (rw_text rw)] s) (\<lambda>s.
       bindR (running s) (\<lambda>t.
       if npollfd s \<ge> length (pollfd s) \<or> npollfd s \<ge> length (polltask s) then Inl Segv
       else
         (let n = npollfd s;
              s = s\<lparr>polltask := (polltask s)[n := t],
                pollfd := (pollfd s)[n := \<lparr>pfd = fd, events = rw_bits rw, revents = 0\<rparr>],
                npollfd := n + 1\<rparr>
          in taskswitch (FFdwait fd rw) s))))"

subsection \<open>Reading and writing\<close>

text \<open>
  The result \<open>io\<close> of \<open>read\<close> or \<open>write\<close> is the returned number and whether \<open>errno\<close> is \<open>EAGAIN\<close>.
  After \<open>fdwait\<close> the next call is made: \<open>fdread\<close> with its result, or \<open>fdread1_resume\<close>.
\<close>

type_synonym io = "int \<times> bool"

definition again :: "io \<Rightarrow> bool" where
  "again r \<longleftrightarrow> fst r < 0 \<and> snd r"

definition fdread :: "int \<Rightarrow> io \<Rightarrow> libc \<Rightarrow> 'a fdst_scheme \<Rightarrow> (int, 'a fdst_scheme) co" where
  "fdread fd r lib s =
     (if again r then blocks (fdwait fd 114 lib s) else Done (fst r) s)"

definition fdread1 :: "int \<Rightarrow> libc \<Rightarrow> 'a fdst_scheme \<Rightarrow> (int, 'a fdst_scheme) co" where
  "fdread1 fd lib s = blocks (fdwait fd 114 lib s)"

definition fdread1_resume :: "int \<Rightarrow> io \<Rightarrow> libc \<Rightarrow> 'a fdst_scheme \<Rightarrow> (int, 'a fdst_scheme) co" where
  "fdread1_resume fd r lib s =
     (if again r then blocks (fdwait fd 114 lib s) else Done (fst r) s)"

text \<open>
  \<open>w k c\<close> is the result of the \<open>k\<close>-th \<open>write\<close> of the call, which is asked to write \<open>c = n - tot\<close> bytes.
  The loop stops with a result, or to wait for the descriptor with its counters kept on the stack.
\<close>

datatype wres = Wrote int | Wait_write nat int

function write_loop :: "int \<Rightarrow> (nat \<Rightarrow> int \<Rightarrow> io) \<Rightarrow> nat \<Rightarrow> int \<Rightarrow> wres" where
  "write_loop n w k tot =
     (if tot < n then
        (let r = w k (n - tot); m = fst r in
         if again r then Wait_write (k + 1) tot
         else if m < 0 then Wrote m
         else if m = 0 then Wrote tot
         else write_loop n w (k + 1) (tot + m))
      else Wrote tot)"
  by pat_completeness auto
termination
  by (relation "measure (\<lambda>(n, w, k, tot). nat (n - tot))") auto

declare write_loop.simps [simp del]

definition fdwrite ::
  "int \<Rightarrow> int \<Rightarrow> (nat \<Rightarrow> int \<Rightarrow> io) \<Rightarrow> nat \<Rightarrow> int \<Rightarrow> libc \<Rightarrow> 'a fdst_scheme \<Rightarrow>
     halt + wres \<times> 'a fdst_scheme" where
  "fdwrite fd n w k tot lib s =
     (case write_loop n w k tot of
        Wrote m \<Rightarrow> Inr (Wrote m, s)
      | Wait_write k' tot' \<Rightarrow>
          bindR (fdwait fd 119 lib s) (\<lambda>s. Inr (Wait_write k' tot', s)))"

text \<open>\<open>getfl\<close> and \<open>setfl\<close> are \<open>fcntl\<close> with \<open>F_GETFL\<close> and \<open>F_SETFL\<close>, \<open>nonblock\<close> is \<open>O_NONBLOCK\<close>.\<close>

definition fdnoblock ::
  "(int \<Rightarrow> 32 word) \<Rightarrow> (int \<Rightarrow> 32 word \<Rightarrow> int) \<Rightarrow> 32 word \<Rightarrow> int \<Rightarrow> int" where
  "fdnoblock getfl setfl nonblock fd = setfl fd (or (getfl fd) nonblock)"

subsection \<open>The list of sleeping tasks\<close>

lemma insert_before_dll:
  assumes d: "dll h l (as @ bs)" and t: "h t = Some tk" "t \<notin> set as \<union> set bs"
  shows "runs (insert_before l t (first bs) when h) (\<lambda>(l', h'). dll h' l' (as @ t # bs) \<and>
    agree unlink (h(t \<mapsto> tk\<lparr>alarmtime := when\<rparr>)) h' \<and>
    (\<forall>u. u \<notin> insert t (set as \<union> set bs) \<longrightarrow> same_links h h' u))"
proof (cases bs)
  case Nil
  show ?thesis
  proof (cases as rule: rev_cases)
    case Nil
    with d t \<open>bs = []\<close> show ?thesis
      by (simp add: insert_before_def dll_def unlink_def agree_def fld_def)
  next
    case (snoc us u)
    with d t \<open>bs = []\<close> show ?thesis
      by (auto simp: insert_before_def dll_def dseg_append unlink_def agree_def fld_def same_links_def
          split: option.splits)
  qed
next
  case (Cons b bs')
  show ?thesis
  proof (cases as rule: rev_cases)
    case Nil
    with d t Cons show ?thesis
      by (auto simp: insert_before_def dll_def unlink_def agree_def fld_def same_links_def
          split: option.splits)
  next
    case (snoc us u)
    with d t Cons show ?thesis
      by (auto simp: insert_before_def dll_def dseg_append unlink_def agree_def fld_def same_links_def
          split: option.splits)
  qed
qed

text \<open>The alarm time of a task, and the order of the list.\<close>

definition alarm :: "heap \<Rightarrow> addr \<Rightarrow> 64 word" where
  "alarm h t = (case h t of None \<Rightarrow> 0 | Some tk \<Rightarrow> alarmtime tk)"

lemma later_loop:
  "dseg h x p xs None q \<Longrightarrow>
     cloop (later_body when h) x = Inr (first (dropWhile (\<lambda>u. alarm h u < when) xs))"
proof (induction xs arbitrary: x p)
  case Nil
  then show ?case by (simp add: cloop_unfold [of _ None] later_body_def)
next
  case (Cons u xs)
  from Cons.prems obtain uk where u: "x = Some u" "h u = Some uk" "dseg h (nxt uk) (Some u) xs None q"
    by (auto split: option.splits)
  have "later_body when h (Some u) =
      Inr (if alarmtime uk < when then (True, nxt uk) else (False, Some u))"
    using u(2) by (simp add: later_body_def tget_def)
  moreover have "alarm h u = alarmtime uk" using u(2) by (simp add: alarm_def)
  ultimately show ?case using u(1) Cons.IH [OF u(3)] by (simp add: cloop_unfold [of _ "Some u"])
qed

lemma insort_key_split:
  "insort_key f x xs = takeWhile (\<lambda>y. f y < f x) xs @ x # dropWhile (\<lambda>y. f y < f x) xs"
  by (induction xs) (auto simp: not_le)

lemma insort_key_cong:
  "\<forall>y \<in> set xs. g y = f y \<Longrightarrow> g x = f x \<Longrightarrow> insort_key g x xs = insort_key f x xs"
  by (induction xs) auto

lemma sleep_insert:
  fixes w :: "64 word"
  assumes q: "queues_ok h T L" and t: "h t = Some tk" "\<forall>l. t \<notin> set (L l)"
  defines "h1 \<equiv> h(t \<mapsto> tk\<lparr>alarmtime := w\<rparr>)"
  shows "\<exists>u. cloop (later_body w h) (head (T Sleeping)) = Inr u \<and>
    runs (insert_before (T Sleeping) t u w h) (\<lambda>(l', h').
      queues_ok h' (T(Sleeping := l')) (L(Sleeping := insort_key (alarm h1) t (L Sleeping))) \<and>
      agree unlink h1 h')"
proof -
  let ?P = "\<lambda>u. alarm h u < w"
  let ?as = "takeWhile ?P (L Sleeping)" and ?bs = "dropWhile ?P (L Sleeping)"
  from queues_dll [OF q, of Sleeping] have d: "dll h (T Sleeping) (?as @ ?bs)" by simp
  have new: "t \<notin> set ?as \<union> set ?bs" using t(2) by (metis Un_iff set_append takeWhile_dropWhile_id)
  have al: "alarm h1 u = (if u = t then w else alarm h u)" for u
    by (simp add: alarm_def h1_def)
  have ins: "insort_key (alarm h1) t (L Sleeping) = ?as @ t # ?bs"
  proof -
    have "takeWhile (\<lambda>y. alarm h1 y < w) (L Sleeping) = ?as"
      "dropWhile (\<lambda>y. alarm h1 y < w) (L Sleeping) = ?bs"
      using t(2) by (auto simp: al intro!: takeWhile_cong dropWhile_cong)
    then show ?thesis unfolding insort_key_split by (simp add: al)
  qed
  have "cloop (later_body w h) (head (T Sleeping)) = Inr (first ?bs)"
    using queues_dll [OF q, of Sleeping] by (auto simp: dll_def intro: later_loop)
  moreover have fresh: "\<forall>j. j \<noteq> Sleeping \<longrightarrow> set (?as @ t # ?bs) \<inter> set (L j) = {}"
    using t(2) queues_disjoint [OF q, of Sleeping] set_takeWhileD set_dropWhileD
    by (fastforce dest: set_takeWhileD set_dropWhileD)
  moreover have "runs (insert_before (T Sleeping) t (first ?bs) w h) (\<lambda>(l', h').
      queues_ok h' (T(Sleeping := l')) (L(Sleeping := ?as @ t # ?bs)) \<and> agree unlink h1 h')"
    by (rule runs_mono [OF insert_before_dll [OF d t(1) new]])
      (auto simp: h1_def intro!: queues_upd [OF q _ _ fresh])
  ultimately show ?thesis by (simp add: ins)
qed

end
