(* ===== verification/FdProps.thy ===== *)
theory FdProps
  imports Fd
begin

text \<open>
  What the operations of \<open>fd.c\<close> do: the list of sleeping tasks is sorted by alarm time and waking
  takes its due prefix; the poll table loses exactly the entries with events, whose tasks are made
  ready; the counters of tasks stay in step with the lists.
\<close>

lemma kinv_fdst [simp]:
  "kinv (s\<lparr>pollfd := a\<rparr>) L = kinv s L" "kinv (s\<lparr>polltask := b\<rparr>) L = kinv s L"
  "kinv (s\<lparr>npollfd := c\<rparr>) L = kinv s L" "kinv (s\<lparr>startedfdtask := d\<rparr>) L = kinv s L"
  "kinv (s\<lparr>sleepingcounted := e\<rparr>) L = kinv s L" "kinv (s\<lparr>taskcount := f\<rparr>) L = kinv s L"
  by (simp_all add: kinv_def ready_ok_def slots_ok_def)

lemma off_fdst [simp]:
  "off (s\<lparr>pollfd := a\<rparr>) L t = off s L t" "off (s\<lparr>polltask := b\<rparr>) L t = off s L t"
  "off (s\<lparr>npollfd := c\<rparr>) L t = off s L t" "off (s\<lparr>startedfdtask := d\<rparr>) L t = off s L t"
  "off (s\<lparr>sleepingcounted := e\<rparr>) L t = off s L t" "off (s\<lparr>taskcount := f\<rparr>) L t = off s L t"
  by (simp_all add: off_def)

lemma stack_room_fdst [simp]:
  "stack_room n t (s\<lparr>pollfd := a\<rparr>) = stack_room n t s"
  "stack_room n t (s\<lparr>polltask := b\<rparr>) = stack_room n t s"
  "stack_room n t (s\<lparr>npollfd := c\<rparr>) = stack_room n t s"
  "stack_room n t (s\<lparr>startedfdtask := d\<rparr>) = stack_room n t s"
  "stack_room n t (s\<lparr>sleepingcounted := e\<rparr>) = stack_room n t s"
  "stack_room n t (s\<lparr>taskcount := f\<rparr>) = stack_room n t s"
  by (simp_all add: stack_room_def)

lemma kframe_fdst:
  assumes "kframe s s'"
  shows "pollfd s' = pollfd s" "polltask s' = polltask s" "npollfd s' = npollfd s"
    "startedfdtask s' = startedfdtask s" "sleepingcounted s' = sleepingcounted s"
    "fdst.more s' = fdst.more s"
  by (rule kframe_elim [OF assms], simp)+

subsection \<open>The timeout of the poll\<close>

lemma ms_bounds:
  fixes d :: int
  assumes "0 \<le> d" "d \<le> 5000000000"
  shows "0 \<le> d div 1000000" "d div 1000000 \<le> 5000" "d div 1000000 * 1000000 \<le> d"
  using assms zdiv_mono1 [of d 5000000000 1000000] div_mult_mod_eq [of d 1000000]
    pos_mod_sign [of 1000000 d]
  by (simp_all add: pos_imp_zdiv_nonneg_iff del: div_mult_mod_eq)

lemma poll_ms_runs:
  assumes "kinv s L"
  shows "L Sleeping = [] \<Longrightarrow> poll_ms now s = Inr (-1)"
    and "L Sleeping = t # ts \<Longrightarrow> runs (poll_ms now s) (\<lambda>ms. 0 \<le> ms \<and> ms \<le> 5000 \<and>
      (alarm (heap s) t \<le> now \<longrightarrow> ms = 0) \<and>
      (now < alarm (heap s) t \<and> uint now + 5000000000 < 2 ^ 64 \<longrightarrow>
         ms * 1000000 \<le> uint (alarm (heap s) t) - uint now))"
proof -
  show "L Sleeping = [] \<Longrightarrow> poll_ms now s = Inr (-1)"
    using headq_first [OF assms, of Sleeping] by (simp add: poll_ms_def)
  assume L: "L Sleeping = t # ts"
  then have "t \<in> dom (heap s)"
    using dll_in_dom [OF queues_dll, of "heap s" "tlists s" L Sleeping] assms by (simp add: kinv_def)
  then obtain tk where tk: "heap s t = Some tk" by blast
  let ?a = "alarmtime tk"
  have al: "alarm (heap s) t = ?a" using tk by (simp add: alarm_def)
  have hd: "headq Sleeping s = Some t" using headq_first [OF assms, of Sleeping] L by simp
  have diff: "uint (?a - now) = uint ?a - uint now" if "now < ?a"
    using that by (metis less_imp_le uint_sub_lem word_le_def)
  show "runs (poll_ms now s) (\<lambda>ms. 0 \<le> ms \<and> ms \<le> 5000 \<and>
      (alarm (heap s) t \<le> now \<longrightarrow> ms = 0) \<and>
      (now < alarm (heap s) t \<and> uint now + 5000000000 < 2 ^ 64 \<longrightarrow>
         ms * 1000000 \<le> uint (alarm (heap s) t) - uint now))"
  proof (cases "?a \<le> now")
    case True
    with tk hd al leD [OF True] show ?thesis by (simp add: poll_ms_def)
  next
    case False
    then have lt: "now < ?a" by simp
    show ?thesis
    proof (cases "?a \<le> now + 5000000000")
      case True
      have "uint ?a - uint now \<le> 5000000000"
      proof -
        have "uint (now + 5000000000) \<le> uint now + 5000000000"
          using uint_add_le [of now 5000000000] by simp
        with True show ?thesis by (simp add: word_le_def)
      qed
      moreover have "uint ((?a - now) div 1000000) = (uint ?a - uint now) div 1000000"
        by (simp add: uint_div_distrib diff [OF lt])
      moreover have "0 \<le> uint ?a - uint now" using lt by (simp add: word_less_def)
      ultimately show ?thesis
        using True lt tk hd al ms_bounds [of "uint ?a - uint now"]
        by (simp add: poll_ms_def not_le)
    next
      case F: False
      have "5000000000 \<le> uint ?a - uint now" if "uint now + 5000000000 < 2 ^ 64"
      proof -
        have "uint (now + 5000000000) = uint now + 5000000000"
          using that uint_add_lem [of now 5000000000] by simp
        with F show ?thesis by (simp add: word_le_def)
      qed
      moreover have "poll_ms now s = Inr 5000"
        using F lt tk hd by (simp add: poll_ms_def kget_def tget_def leD)
      ultimately show ?thesis using lt al by (simp add: not_le leD)
    qed
  qed
qed

subsection \<open>Waking the tasks whose time has come\<close>

text \<open>
  \<open>fframe s s'\<close>: apart from links, ready flags and state strings of tasks and the two counters,
  nothing changed.
\<close>

definition fframe :: "'a fdst_scheme \<Rightarrow> 'a fdst_scheme \<Rightarrow> bool" where
  "fframe s s' \<longleftrightarrow>
     s' = s\<lparr>heap := heap s', tlists := tlists s', taskcount := taskcount s',
       sleepingcounted := sleepingcounted s'\<rparr> \<and> agree undisp (heap s) (heap s')"

lemma fframe_elim:
  assumes "fframe s s'"
  obtains h q c n where "s' = s\<lparr>heap := h, tlists := q, taskcount := c, sleepingcounted := n\<rparr>"
    "agree undisp (heap s) h"
  using assms unfolding fframe_def by blast

lemma fframe_intro:
  "agree undisp (heap s) h \<Longrightarrow>
     fframe s (s\<lparr>heap := h, tlists := q, taskcount := c, sleepingcounted := n\<rparr>)"
  by (simp add: fframe_def)

lemma fframe_trans:
  assumes "fframe s s'" "fframe s' s''"
  shows "fframe s s''"
proof -
  from assms(1) obtain h q c n where 1: "s' = s\<lparr>heap := h, tlists := q, taskcount := c, sleepingcounted := n\<rparr>"
    "agree undisp (heap s) h" by (rule fframe_elim)
  from assms(2) obtain h' q' c' n' where
    2: "s'' = s'\<lparr>heap := h', tlists := q', taskcount := c', sleepingcounted := n'\<rparr>"
    "agree undisp (heap s') h'" by (rule fframe_elim)
  from 1 2 have "agree undisp (heap s) h'" by (auto intro: agree_trans)
  then show ?thesis by (simp add: 1(1) 2(1) fframe_def)
qed

lemma kframe_fframe: "kframe s s' \<Longrightarrow> fframe s s'"
  by (erule kframe_elim) (simp add: fframe_def)

lemma fframe_refl [simp]: "fframe s s"
  by (simp add: fframe_def)

lemma alarm_agree: "agree undisp h h' \<Longrightarrow> alarm h' t = alarm h t"
  using agree_fld [of undisp h h' alarmtime t]
  by (auto simp: alarm_def fld_def split: option.splits)

text \<open>The tasks of a list that \<open>sleepingcounted\<close> counts.\<close>

definition counted :: "'a fdst_scheme \<Rightarrow> addr list \<Rightarrow> int" where
  "counted s ts = int (length (filter (\<lambda>t. fld system (heap s) t = Some False) ts))"

definition count_down :: "bool \<Rightarrow> 'a fdst_scheme \<Rightarrow> 'a fdst_scheme" where
  "count_down sys s =
     (if \<not> sys
      then (let n = sleepingcounted s - 1; s = s\<lparr>sleepingcounted := n\<rparr>
            in if n = 0 then s\<lparr>taskcount := taskcount s - 1\<rparr> else s)
      else s)"

lemma count_down_inv [simp]:
  "kinv (count_down sys s) L = kinv s L" "off (count_down sys s) L t = off s L t"
  "heap (count_down sys s) = heap s"
  by (simp_all add: count_down_def Let_def)

lemma expire_stop:
  assumes "kinv s L" "L Sleeping = [] \<or> (\<exists>t ts. L Sleeping = t # ts \<and> \<not> alarm (heap s) t \<le> now)"
  shows "expire_body now s = Inr (False, s)"
proof (cases "L Sleeping")
  case Nil
  then show ?thesis using headq_first [OF assms(1), of Sleeping] by (simp add: expire_body_def)
next
  case (Cons t ts)
  then have "t \<in> dom (heap s)"
    using dll_in_dom [OF queues_dll, of "heap s" "tlists s" L Sleeping] assms(1) by (simp add: kinv_def)
  with Cons assms(2) show ?thesis
    using headq_first [OF assms(1), of Sleeping]
    by (auto simp: expire_body_def kget_def tget_def alarm_def)
qed

lemma expire_step:
  assumes k: "kinv s L" and L: "L Sleeping = t # ts" and due: "alarm (heap s) t \<le> now"
  shows "\<exists>s'. expire_body now s = Inr (True, s') \<and>
    kinv s' (L(Sleeping := ts, RunQueue := L RunQueue @ [t])) \<and> fframe s s' \<and>
    sleepingcounted s' = sleepingcounted s - counted s [t] \<and>
    taskcount s' = taskcount s - (if counted s [t] = 1 \<and> sleepingcounted s = 1 then 1 else 0)"
proof -
  let ?L = "L(Sleeping := ts)"
  have "t \<in> dom (heap s)"
    using dll_in_dom [OF queues_dll, of "heap s" "tlists s" L Sleeping] k L by (simp add: kinv_def)
  then obtain tk where tk: "heap s t = Some tk" by blast
  have "remove1 t (L Sleeping) = ts" by (simp add: L)
  with kt.del_law [OF k, of t Sleeping] L obtain s1 where
    s1: "delq Sleeping t s = Inr s1" "kinv s1 ?L" "kframe s s1" "off s1 ?L t"
    by (auto simp: runs_iff)
  have sys: "fld system (heap s1) t = Some (system tk)"
    using agree_fld [OF kframe_heap [OF s1(3)], of system t] tk by (simp add: fld_def)
  then obtain tk1 where tk1: "heap s1 t = Some tk1" "system tk1 = system tk" by (auto simp: fld_def)
  let ?s2 = "count_down (system tk) s1"
  have "kinv ?s2 ?L" "off ?s2 ?L t" using s1(2,4) by simp_all
  from kt.ready_law [OF this] obtain s3 where
    s3: "taskready t ?s2 = Inr s3" "kinv s3 (?L(RunQueue := ?L RunQueue @ [t]))" "kframe ?s2 s3"
    by (auto simp: runs_iff)
  have "expire_body now s = Inr (True, s3)"
    using headq_first [OF k, of Sleeping] L due tk tk1 s1(1) s3(1)
    by (simp add: expire_body_def kget_def tget_def alarm_def count_down_def)
  moreover have "kinv s3 (L(Sleeping := ts, RunQueue := L RunQueue @ [t]))" using s3(2) by simp
  moreover have "fframe s1 ?s2" by (simp add: count_down_def fframe_def Let_def)
  then have "fframe s s3"
    using fframe_trans [OF fframe_trans [OF kframe_fframe [OF s1(3)]] kframe_fframe [OF s3(3)]] by blast
  moreover have "counted s [t] = (if system tk then 0 else 1)" using tk by (simp add: counted_def fld_def)
  then have "sleepingcounted s3 = sleepingcounted s - counted s [t] \<and>
      taskcount s3 = taskcount s - (if counted s [t] = 1 \<and> sleepingcounted s = 1 then 1 else 0)"
    using kframe_fdst(5) [OF s3(3)] kframe_fdst(5) [OF s1(3)] kframe_fields(1) [OF s3(3)]
      kframe_fields(1) [OF s1(3)]
    by (simp add: count_down_def Let_def)
  ultimately show ?thesis by blast
qed

text \<open>
  The loop makes ready, in order, the tasks at the front of the list whose time has come. The
  counter drops by those of them that count, and \<open>taskcount\<close> by one when it reaches zero.
\<close>

lemma counted_append: "counted s (xs @ ys) = counted s xs + counted s ys"
  by (simp add: counted_def)

lemma counted_Nil [simp]: "counted s [] = 0"
  by (simp add: counted_def)

lemma expire_runs:
  assumes "kinv s L" "L Sleeping = xs" "counted s xs \<le> sleepingcounted s"
  shows "runs (expire now s) (\<lambda>s'.
    kinv s' (L(Sleeping := dropWhile (\<lambda>u. alarm (heap s) u \<le> now) xs,
               RunQueue := L RunQueue @ takeWhile (\<lambda>u. alarm (heap s) u \<le> now) xs)) \<and>
    fframe s s' \<and>
    sleepingcounted s' = sleepingcounted s - counted s (takeWhile (\<lambda>u. alarm (heap s) u \<le> now) xs) \<and>
    taskcount s' = taskcount s -
      (if 0 < sleepingcounted s \<and> sleepingcounted s' = 0 then 1 else 0))"
  using assms
proof (induction xs arbitrary: s L)
  case Nil
  have "L(Sleeping := [], RunQueue := L RunQueue @ []) = L" using Nil(2) by auto
  with Nil(1) have k: "kinv s (L(Sleeping := [], RunQueue := L RunQueue @ []))" by (simp only:)
  have "expire now s = Inr s"
    using expire_stop [OF Nil(1), of now] Nil(2) by (simp add: expire_def cloop_unfold [of _ s])
  with k show ?case
    by (simp only: runs_Inr takeWhile.simps dropWhile.simps fframe_refl counted_Nil) simp
next
  case (Cons t ts)
  let ?P = "\<lambda>u. alarm (heap s) u \<le> now"
  show ?case
  proof (cases "?P t")
    case False
    have "L(Sleeping := t # ts, RunQueue := L RunQueue @ []) = L" using Cons.prems(2) by auto
    with Cons.prems(1) have "kinv s (L(Sleeping := t # ts, RunQueue := L RunQueue @ []))" by (simp only:)
    moreover have "expire now s = Inr s"
      using expire_stop [OF Cons.prems(1), of now] Cons.prems(2) False
      by (simp add: expire_def cloop_unfold [of _ s])
    ultimately show ?thesis using False
      by (simp only: runs_Inr takeWhile.simps dropWhile.simps fframe_refl counted_Nil if_False) simp
  next
    case True
    let ?L = "L(Sleeping := ts, RunQueue := L RunQueue @ [t])"
    from expire_step [OF Cons.prems(1,2) True] obtain s1 where
      s1: "expire_body now s = Inr (True, s1)" "kinv s1 ?L" "fframe s s1"
        "sleepingcounted s1 = sleepingcounted s - counted s [t]"
        "taskcount s1 = taskcount s - (if counted s [t] = 1 \<and> sleepingcounted s = 1 then 1 else 0)"
      by blast
    have hp: "agree undisp (heap s) (heap s1)" using s1(3) by (simp add: fframe_def)
    have al: "alarm (heap s1) u = alarm (heap s) u" for u by (rule alarm_agree [OF hp])
    have cn: "counted s1 us = counted s us" for us
      using agree_fld [OF hp, of system] by (simp add: counted_def)
    have cons: "counted s (t # us) = counted s [t] + counted s us" for us by (simp add: counted_def)
    have c01: "counted s [t] = 0 \<or> counted s [t] = 1" "0 \<le> counted s us" for us
      by (simp_all add: counted_def)
    have "?L Sleeping = ts" "counted s1 ts \<le> sleepingcounted s1"
      using Cons.prems(3) s1(4) cons [of ts] by (simp_all add: cn)
    from Cons.IH [OF s1(2) this] obtain s2 where
      s2: "expire now s1 = Inr s2"
        "kinv s2 (?L(Sleeping := dropWhile ?P ts, RunQueue := ?L RunQueue @ takeWhile ?P ts))"
        "fframe s1 s2" "sleepingcounted s2 = sleepingcounted s1 - counted s (takeWhile ?P ts)"
        "taskcount s2 = taskcount s1 - (if 0 < sleepingcounted s1 \<and> sleepingcounted s2 = 0 then 1 else 0)"
      unfolding runs_iff al cn by blast
    have "?L(Sleeping := dropWhile ?P ts, RunQueue := ?L RunQueue @ takeWhile ?P ts) =
        L(Sleeping := dropWhile ?P ts, RunQueue := L RunQueue @ t # takeWhile ?P ts)" by (rule ext) auto
    with s2(2) have k: "kinv s2 (L(Sleeping := dropWhile ?P ts, RunQueue := L RunQueue @ t # takeWhile ?P ts))"
      by (simp only:)
    have e: "expire now s = Inr s2" using s1(1) s2(1) by (simp add: expire_def cloop_unfold [of _ s])
    have n: "sleepingcounted s2 = sleepingcounted s - counted s (t # takeWhile ?P ts)"
      using s1(4) s2(4) cons [of "takeWhile ?P ts"] by simp
    have "counted s (takeWhile ?P ts) \<le> counted s ts"
      using counted_append [of s "takeWhile ?P ts" "dropWhile ?P ts"]
      by (simp add: counted_def)
    with n c01(1) have c: "taskcount s2 = taskcount s - (if 0 < sleepingcounted s \<and> sleepingcounted s2 = 0 then 1 else 0)"
      using s1(4,5) s2(4,5) Cons.prems(3) c01(2) [of ts] c01(2) [of "takeWhile ?P ts"] cons [of ts]
      by (auto split: if_splits)
    show ?thesis
      using True k e n c fframe_trans [OF s1(3) s2(3)] by (simp only: runs_Inr takeWhile.simps dropWhile.simps if_True simp_thms)
  qed
qed

subsection \<open>Waking the tasks whose descriptors are ready\<close>

text \<open>The entries in use, each with the task that waits.\<close>

definition pollers :: "'a fdst_scheme \<Rightarrow> (pollent \<times> addr) list" where
  "pollers s = zip (take (npollfd s) (pollfd s)) (take (npollfd s) (polltask s))"

definition tables_ok :: "'a fdst_scheme \<Rightarrow> bool" where
  "tables_ok s \<longleftrightarrow> length (pollfd s) = MAXFD \<and> length (polltask s) = MAXFD \<and> npollfd s \<le> MAXFD"

text \<open>The waiting tasks are all different and in no queue.\<close>

definition pollers_ok :: "'a fdst_scheme \<Rightarrow> (lref \<Rightarrow> addr list) \<Rightarrow> bool" where
  "pollers_ok s L \<longleftrightarrow> tables_ok s \<and> distinct (map snd (pollers s)) \<and>
     (\<forall>t \<in> set (map snd (pollers s)). off s L t)"

lemma length_pollers: "tables_ok s \<Longrightarrow> length (pollers s) = npollfd s"
  by (simp add: tables_ok_def pollers_def)

lemma nth_pollers:
  "tables_ok s \<Longrightarrow> i < npollfd s \<Longrightarrow> pollers s ! i = (pollfd s ! i, polltask s ! i)"
  by (simp add: tables_ok_def pollers_def)

lemma swap_remove_zip:
  "length xs = length ys \<Longrightarrow> i < length xs \<Longrightarrow>
     zip (swap_remove xs i) (swap_remove ys i) = swap_remove (zip xs ys) i"
  by (cases "xs = [] \<or> ys = []"; rule nth_equalityI) (auto simp: nth_swap_remove last_zip)

definition drop_poller :: "nat \<Rightarrow> 'a fdst_scheme \<Rightarrow> 'a fdst_scheme" where
  "drop_poller i s =
     s\<lparr>npollfd := npollfd s - 1, pollfd := (pollfd s)[i := pollfd s ! (npollfd s - 1)],
       polltask := (polltask s)[i := polltask s ! (npollfd s - 1)]\<rparr>"

lemma pollers_drop:
  assumes "tables_ok s" "i < npollfd s"
  shows "pollers (drop_poller i s) = swap_remove (pollers s) i" "tables_ok (drop_poller i s)"
  using assms take_swap_remove [of "npollfd s" "pollfd s" i] take_swap_remove [of "npollfd s" "polltask s" i]
  by (auto simp: pollers_def drop_poller_def tables_ok_def swap_remove_zip)

definition pframe :: "'a fdst_scheme \<Rightarrow> 'a fdst_scheme \<Rightarrow> bool" where
  "pframe s s' \<longleftrightarrow>
     s' = s\<lparr>heap := heap s', tlists := tlists s', pollfd := pollfd s', polltask := polltask s',
       npollfd := npollfd s'\<rparr> \<and> agree undisp (heap s) (heap s')"

lemma pframe_elim:
  assumes "pframe s s'"
  obtains h q a b n where "s' = s\<lparr>heap := h, tlists := q, pollfd := a, polltask := b, npollfd := n\<rparr>"
    "agree undisp (heap s) h"
  using assms unfolding pframe_def by blast

lemma pframe_refl [simp]: "pframe s s"
  by (simp add: pframe_def)

lemma pframe_trans:
  assumes "pframe s s'" "pframe s' s''"
  shows "pframe s s''"
proof -
  from assms(1) obtain h q a b n where
    1: "s' = s\<lparr>heap := h, tlists := q, pollfd := a, polltask := b, npollfd := n\<rparr>"
      "agree undisp (heap s) h" by (rule pframe_elim)
  from assms(2) obtain h' q' a' b' n' where
    2: "s'' = s'\<lparr>heap := h', tlists := q', pollfd := a', polltask := b', npollfd := n'\<rparr>"
      "agree undisp (heap s') h'" by (rule pframe_elim)
  from 1 2 have "agree undisp (heap s) h'" by (auto intro: agree_trans)
  then show ?thesis by (simp add: 1(1) 2(1) pframe_def)
qed

lemma kframe_pframe: "kframe s s' \<Longrightarrow> pframe s s'"
  by (erule kframe_elim) (simp add: pframe_def)

lemma pframe_drop: "pframe s (drop_poller i s)"
  by (simp add: pframe_def drop_poller_def)

text \<open>
  What holds while the sweep is at entry \<open>i\<close>: the tasks woken so far and the entries that are left
  make up the table at the start; the woken ones had an event, the entries before \<open>i\<close> have none.
\<close>

definition swept :: "'a fdst_scheme \<Rightarrow> (lref \<Rightarrow> addr list) \<Rightarrow> nat \<Rightarrow> 'a fdst_scheme \<Rightarrow> bool" where
  "swept s L i s' \<longleftrightarrow>
     (\<exists>ws. kinv s' (L(RunQueue := L RunQueue @ map snd ws)) \<and>
        pollers_ok s' (L(RunQueue := L RunQueue @ map snd ws)) \<and> pframe s s' \<and>
        mset ws + mset (pollers s') = mset (pollers s) \<and>
        (\<forall>x \<in> set ws. revents (fst x) \<noteq> 0) \<and>
        (\<forall>x \<in> set (take i (pollers s')). revents (fst x) = 0))"

lemma take_swap_remove_prefix:
  "i < length xs \<Longrightarrow> take i (swap_remove xs i) = take i xs"
  by (rule nth_equalityI) (auto simp: nth_swap_remove)

lemma wake_inner_step:
  assumes "swept s L i s1"
  shows "runs (wake_inner i s1) (\<lambda>(c, s2).
    if c then swept s L i s2 \<and> npollfd s2 < npollfd s1
    else swept s L (i + 1) s2 \<and> npollfd s2 \<le> npollfd s1)"
proof -
  from assms obtain ws where
    k: "kinv s1 (L(RunQueue := L RunQueue @ map snd ws))" and
    ok: "pollers_ok s1 (L(RunQueue := L RunQueue @ map snd ws))" and
    f: "pframe s s1" and m: "mset ws + mset (pollers s1) = mset (pollers s)" and
    r: "\<forall>x \<in> set ws. revents (fst x) \<noteq> 0" "\<forall>x \<in> set (take i (pollers s1)). revents (fst x) = 0"
    unfolding swept_def by blast
  let ?L = "L(RunQueue := L RunQueue @ map snd ws)"
  have tab: "tables_ok s1" and dist: "distinct (map snd (pollers s1))" using ok by (simp_all add: pollers_ok_def)
  have len: "\<not> (npollfd s1 > length (pollfd s1) \<or> npollfd s1 > length (polltask s1))"
    using tab by (simp add: tables_ok_def)
  show ?thesis
  proof (cases "i < npollfd s1 \<and> revents (pollfd s1 ! i) \<noteq> 0")
    case False
    have "\<forall>x \<in> set (take (i + 1) (pollers s1)). revents (fst x) = 0"
    proof (cases "i < npollfd s1")
      case True
      with False r(2) tab show ?thesis
        by (auto simp: take_Suc_conv_app_nth length_pollers nth_pollers)
    next
      case F: False
      with r(2) tab show ?thesis by (simp add: length_pollers)
    qed
    with k ok f m r(1) have "swept s L (i + 1) s1" unfolding swept_def by blast
    with len False show ?thesis by (auto simp: wake_inner_def)
  next
    case True
    let ?x = "pollers s1 ! i"
    have x: "?x = (pollfd s1 ! i, polltask s1 ! i)" using tab True by (simp add: nth_pollers)
    have i: "i < length (pollers s1)" using tab True by (simp add: length_pollers)
    then have "off s1 ?L (polltask s1 ! i)"
      using ok x by (metis pollers_ok_def length_map nth_map nth_mem snd_conv)
    from kt.ready_law [OF k this] obtain s2 where
      s2: "taskready (polltask s1 ! i) s1 = Inr s2" "kframe s1 s2"
        "kinv s2 (?L(RunQueue := ?L RunQueue @ [polltask s1 ! i]))"
      by (auto simp: runs_iff)
    let ?L' = "L(RunQueue := L RunQueue @ map snd (ws @ [?x]))"
    have L': "?L(RunQueue := ?L RunQueue @ [polltask s1 ! i]) = ?L'" by (simp add: x)
    note fr = kframe_fdst [OF s2(2)]
    let ?s3 = "drop_poller i s2"
    have p2: "pollers s2 = pollers s1" "tables_ok s2" using tab by (simp_all add: pollers_def tables_ok_def fr)
    have i2: "i < npollfd s2" using True by (simp add: fr)
    note p3 = pollers_drop [OF p2(2) i2, unfolded p2(1)]
    have k3: "kinv ?s3 ?L'" using s2(3) by (simp only: L') (simp add: drop_poller_def)
    have sm: "map snd (pollers ?s3) = swap_remove (map snd (pollers s1)) i"
    proof -
      have "pollers s1 \<noteq> []" using i by auto
      then show ?thesis by (simp add: p3(1) swap_remove_def map_butlast map_update last_map)
    qed
    have d3: "distinct (map snd (pollers ?s3))" "set (map snd (pollers ?s3)) = set (map snd (pollers s1)) - {snd ?x}"
    proof -
      show "distinct (map snd (pollers ?s3))"
        unfolding sm using i dist by (intro distinct_swap_remove) simp_all
      show "set (map snd (pollers ?s3)) = set (map snd (pollers s1)) - {snd ?x}"
        unfolding sm using i dist by (subst set_swap_remove) simp_all
    qed
    have "off ?s3 ?L' t" if "t \<in> set (map snd (pollers ?s3))" for t
    proof -
      from that d3(2) have "t \<noteq> snd ?x" "t \<in> set (map snd (pollers s1))" by auto
      moreover have "off s1 ?L t" using ok calculation(2) unfolding pollers_ok_def by blast
      ultimately show ?thesis
        using kframe_dom [OF s2(2)] by (auto simp: off_def drop_poller_def split: if_splits)
    qed
    then have "pollers_ok ?s3 ?L'" using p3(2) d3(1) unfolding pollers_ok_def by blast
    moreover have "mset (ws @ [?x]) + mset (pollers ?s3) = mset (pollers s)"
    proof -
      have "?x \<in># mset (pollers s1)" using i by (simp add: nth_mem_mset)
      then have "{#?x#} + (mset (pollers s1) - {#?x#}) = mset (pollers s1)" by simp
      then show ?thesis unfolding p3(1) mset_append mset_swap_remove [OF i] m [symmetric]
        by (simp add: union_assoc)
    qed
    moreover have "\<forall>x \<in> set (ws @ [?x]). revents (fst x) \<noteq> 0" using r(1) True x by auto
    moreover have "\<forall>x \<in> set (take i (pollers ?s3)). revents (fst x) = 0"
      using r(2) i by (simp add: p3(1) take_swap_remove_prefix)
    moreover have "pframe s ?s3"
      using pframe_trans [OF f pframe_trans [OF kframe_pframe [OF s2(2)] pframe_drop]] .
    ultimately have "swept s L i ?s3" using k3 unfolding swept_def by blast
    moreover have "wake_inner i s1 = Inr (True, ?s3)"
      using len True s2(1) by (simp add: wake_inner_def drop_poller_def Let_def)
    moreover have "npollfd ?s3 < npollfd s1" using True by (simp add: drop_poller_def fr)
    ultimately show ?thesis by simp
  qed
qed

lemma wake_inner_runs:
  assumes "swept s L i s1"
  shows "runs (cloop (wake_inner i) s1) (\<lambda>s2. swept s L (i + 1) s2 \<and> npollfd s2 \<le> npollfd s1)"
proof (rule cloop_runs [where I = "\<lambda>s2. swept s L i s2 \<and> npollfd s2 \<le> npollfd s1" and m = npollfd])
  fix s2 assume "swept s L i s2 \<and> npollfd s2 \<le> npollfd s1"
  then show "runs (wake_inner i s2) (\<lambda>(c, s'). if c then
      (swept s L i s' \<and> npollfd s' \<le> npollfd s1) \<and> npollfd s' < npollfd s2
      else swept s L (i + 1) s' \<and> npollfd s' \<le> npollfd s1)"
    by (intro runs_mono [OF wake_inner_step [of s L i s2]]) (auto split: if_splits)
qed (use assms in simp)

text \<open>
  The sweep ends. It makes ready exactly the tasks whose entries had an event, and leaves in the
  table exactly the entries that had none.
\<close>

lemma wake_ready_runs:
  assumes k: "kinv s L" and ok: "pollers_ok s L"
  shows "runs (wake_ready s) (\<lambda>s'. \<exists>ws. kinv s' (L(RunQueue := L RunQueue @ map snd ws)) \<and>
    pollers_ok s' (L(RunQueue := L RunQueue @ map snd ws)) \<and> pframe s s' \<and>
    mset ws = filter_mset (\<lambda>x. revents (fst x) \<noteq> 0) (mset (pollers s)) \<and>
    mset (pollers s') = filter_mset (\<lambda>x. revents (fst x) = 0) (mset (pollers s)))"
proof -
  have Le: "L(RunQueue := L RunQueue @ map snd []) = L" by simp
  have "swept s L 0 s"
    unfolding swept_def using k ok Le by (intro exI [of _ "[]"]) (simp only: pframe_refl, simp)
  then have "runs (cloop wake_outer (0, s)) (\<lambda>(i, s'). swept s L i s' \<and> npollfd s' \<le> i)"
  proof (intro cloop_runs [where I = "\<lambda>(i, s'). swept s L i s'" and m = "\<lambda>(i, s'). npollfd s' - i"])
    fix v :: "nat \<times> 'a fdst_scheme"
    obtain i s1 where v: "v = (i, s1)" by (cases v)
    assume "case v of (i, s') \<Rightarrow> swept s L i s'"
    then have sw: "swept s L i s1" by (simp add: v)
    show "runs (wake_outer v) (\<lambda>(c, s'). if c then
        (case s' of (i, s') \<Rightarrow> swept s L i s') \<and>
        (case s' of (i, s') \<Rightarrow> npollfd s' - i) < (case v of (i, s') \<Rightarrow> npollfd s' - i)
        else case s' of (i, s') \<Rightarrow> swept s L i s' \<and> npollfd s' \<le> i)"
    proof (cases "i < npollfd s1")
      case True
      from wake_inner_runs [OF sw] obtain s2 where
        "cloop (wake_inner i) s1 = Inr s2" "swept s L (i + 1) s2" "npollfd s2 \<le> npollfd s1"
        by (auto simp: runs_iff)
      with True show ?thesis by (simp add: v wake_outer_def)
    qed (use sw in \<open>simp add: v wake_outer_def\<close>)
  qed simp
  then obtain i s' where w: "wake_ready s = Inr s'" "swept s L i s'" "npollfd s' \<le> i"
    by (auto simp: wake_ready_def runs_iff)
  from w(2) obtain ws where
    ws: "kinv s' (L(RunQueue := L RunQueue @ map snd ws))"
      "pollers_ok s' (L(RunQueue := L RunQueue @ map snd ws))" "pframe s s'"
      "mset ws + mset (pollers s') = mset (pollers s)" "\<forall>x \<in> set ws. revents (fst x) \<noteq> 0"
      "\<forall>x \<in> set (take i (pollers s')). revents (fst x) = 0"
    unfolding swept_def by blast
  have "length (pollers s') \<le> i" using ws(2) w(3) by (simp add: pollers_ok_def length_pollers)
  with ws(6) have z: "\<forall>x \<in> set (pollers s'). revents (fst x) = 0" by simp
  have "filter_mset (\<lambda>x. revents (fst x) \<noteq> 0) (mset ws + mset (pollers s')) = mset ws"
    using ws(5) z by (simp add: filter_mset_eq_conv flip: mset_filter)
  moreover have "filter_mset (\<lambda>x. revents (fst x) = 0) (mset ws + mset (pollers s')) = mset (pollers s')"
    using ws(5) z by (simp add: filter_mset_eq_conv flip: mset_filter)
  ultimately show ?thesis using ws(1-3) w(1) by (simp only: ws(4) runs_Inr) blast
qed

end
