(* ===== verification/FdWait.thy ===== *)
theory FdWait
  imports FdProps
begin

text \<open>
  The calls of \<open>fd.c\<close> that wait: \<open>taskdelay\<close> puts the running task into the list of sleeping
  tasks at the place of its alarm time, \<open>fdwait\<close> adds an entry to the poll table, \<open>fdread\<close> and
  \<open>fdwrite\<close> wait while the descriptor is not ready. One turn of \<open>fdtask\<close> is put together from its
  parts.
\<close>

subsection \<open>Starting fdtask\<close>

lemma start_fdtask_idle [simp]: "startedfdtask s \<Longrightarrow> start_fdtask lib s = Inr s"
  by (simp add: start_fdtask_def)

lemma start_fdtask_runs:
  assumes k: "kinv s L" and a: "alloc_ok lib p s" and n: "\<not> startedfdtask s"
  shows "runs (start_fdtask lib s) (\<lambda>s'. startedfdtask s' \<and>
    kinv s' (L(RunQueue := L RunQueue @ [p])) \<and> taskcount s' = taskcount s + 1 \<and>
    taskrunning s' = taskrunning s \<and>
    agree undisp ((heap s)(p \<mapsto> fresh_task Fdtask 0 32768 p s)) (heap s') \<and>
    sp s' = sp s \<and> swapcontext_r s' = swapcontext_r s \<and> npollfd s' = npollfd s \<and>
    pollfd s' = pollfd s \<and> polltask s' = polltask s \<and> sleepingcounted s' = sleepingcounted s)"
proof -
  let ?s = "s\<lparr>startedfdtask := True\<rparr>"
  have "kinv ?s L" "alloc_ok lib p ?s" using k a by (simp_all add: alloc_ok_def)
  from taskcreate_runs [OF this, of Fdtask 0 32768] obtain id s' where
    s': "taskcreate Fdtask 0 32768 lib ?s = Inr (id, s')" "kinv s' (L(RunQueue := L RunQueue @ [p]))"
    "taskcount s' = taskcount ?s + 1" "taskrunning s' = taskrunning ?s"
    "agree undisp ((heap ?s)(p \<mapsto> fresh_task Fdtask 0 32768 p ?s)) (heap s')"
    "sp s' = sp ?s" "swapcontext_r s' = swapcontext_r ?s" "kern.more s' = kern.more ?s"
    by (auto simp: runs_iff)
  from s'(8) have "startedfdtask s'" "npollfd s' = npollfd s" "pollfd s' = pollfd s"
    "polltask s' = polltask s" "sleepingcounted s' = sleepingcounted s"
    by (cases s; cases s'; simp)+
  with s' n show ?thesis by (simp add: start_fdtask_def fresh_task_def)
qed

text \<open>The task that was running can still wait after that.\<close>

lemma started_waits:
  assumes new: "heap s p = None"
    and h: "agree undisp ((heap s)(p \<mapsto> tk)) (heap s')"
    and same: "taskrunning s' = taskrunning s" "sp s' = sp s" "swapcontext_r s' = swapcontext_r s"
    and t: "off s L t" "stack_room n t s"
  shows "off s' (L(RunQueue := L RunQueue @ [p])) t" "stack_room n t s'" "users s' = (if system tk then users s else insert p (users s))"
proof -
  have tp: "t \<noteq> p" using t(1) new by (auto simp: off_def)
  with t(1) agree_dom [OF h] show "off s' (L(RunQueue := L RunQueue @ [p])) t"
    by (auto simp: off_def)
  have "fld stk (heap s') t = fld stk (heap s) t"
    using agree_fld [OF h, of stk t] tp by (simp add: fld_def)
  with t(2) same show "stack_room n t s'" by (simp add: stack_room_def)
  have "fld system (heap s') u = (if u = p then Some (system tk) else fld system (heap s) u)" for u
    using agree_fld [OF h, of system u] by (simp add: fld_def)
  with new show "users s' = (if system tk then users s else insert p (users s))"
    by (auto simp: users_def fld_def)
qed

subsection \<open>taskdelay\<close>

definition unsleep :: "task \<Rightarrow> task" where
  "unsleep tk = unctx tk\<lparr>alarmtime := 0\<rparr>"

lemma unsleep_simps [simp]:
  "system (unsleep x) = system x" "tid (unsleep x) = tid x" "exiting (unsleep x) = exiting x"
  "stk (unsleep x) = stk x" "unsleep (unctx x) = unsleep x" "unsleep (unlink x) = unsleep x"
  "unsleep (x\<lparr>alarmtime := w\<rparr>) = unsleep x"
  by (simp_all add: unsleep_def unctx_def undisp_def unlink_def)

definition count_up :: "bool \<Rightarrow> 'a fdst_scheme \<Rightarrow> 'a fdst_scheme" where
  "count_up sys s =
     (if \<not> sys
      then (let n = sleepingcounted s; s = s\<lparr>sleepingcounted := n + 1\<rparr>
            in if n = 0 then s\<lparr>taskcount := taskcount s + 1\<rparr> else s)
      else s)"

text \<open>
  \<open>asleep t w now s s'\<close>: task \<open>t\<close> has left the processor to wake at \<open>w\<close>; it counts as sleeping when
  it is not a system task.
\<close>

definition asleep :: "addr \<Rightarrow> 64 word \<Rightarrow> 64 word \<Rightarrow> 'a fdst_scheme \<Rightarrow> 'a fdst_scheme \<Rightarrow> bool" where
  "asleep t w now s s' \<longleftrightarrow>
     s' = s\<lparr>heap := heap s', tlists := tlists s', taskcount := taskcount s',
       sleepingcounted := sleepingcounted s'\<rparr> \<and>
     agree unsleep (heap s) (heap s') \<and>
     fld alarmtime (heap s') = (fld alarmtime (heap s))(t \<mapsto> w) \<and>
     fld ctxt (heap s') = (fld ctxt (heap s))(t \<mapsto> FDelay now) \<and>
     sleepingcounted s' = sleepingcounted s + (if t \<in> users s then 1 else 0) \<and>
     taskcount s' = taskcount s + (if t \<in> users s \<and> sleepingcounted s = 0 then 1 else 0)"

lemma alarm_fld: "h u \<noteq> None \<Longrightarrow> fld alarmtime h u = Some (alarm h u)"
  by (auto simp: fld_def alarm_def)

lemma alarm_fld_eq: "fld alarmtime h u = fld alarmtime h' u \<Longrightarrow> alarm h u = alarm h' u"
  by (auto simp: fld_def alarm_def split: option.splits)

lemma taskdelay_runs:
  fixes ms :: "32 word" and now :: "64 word"
  assumes k: "kinv s L" and t: "off s L t" and c: "stack_room 0 t s" and st: "startedfdtask s"
  defines "w \<equiv> now + ucast ms * 1000000"
  shows "\<exists>s'. taskdelay ms now lib s = Blocked s' \<and> asleep t w now s s' \<and>
    kinv s' (L(Sleeping := insort_key (alarm (heap s')) t (L Sleeping)))"
proof -
  from t obtain tk where tk: "heap s t = Some tk" and new: "\<forall>l. t \<notin> set (L l)" by (auto simp: off_def)
  have run: "running s = Inr t" using c by (simp add: stack_room_def running_def)
  have q: "queues_ok (heap s) (tlists s) L" using k by (simp add: kinv_def)
  let ?h1 = "(heap s)(t \<mapsto> tk\<lparr>alarmtime := w\<rparr>)"
  let ?L = "L(Sleeping := insort_key (alarm ?h1) t (L Sleeping))"
  from sleep_insert [OF q tk new, of w] obtain u l' h' where
    u: "cloop (later_body w (heap s)) (headq Sleeping s) = Inr u"
      "insert_before (tlists s Sleeping) t u w (heap s) = Inr (l', h')"
      "queues_ok h' ((tlists s)(Sleeping := l')) ?L" "agree unlink ?h1 h'"
    by (auto simp: runs_iff headq_def)
  let ?s1 = "s\<lparr>heap := h', tlists := (tlists s)(Sleeping := l')\<rparr>"
  have f1: "fld f h' v = fld f ?h1 v" if "\<And>x. f (unlink x) = f x" for f :: "task \<Rightarrow> 'b" and v
    using u(4) by (rule agree_fld) (rule that)
  have same: "fld f h' = fld f (heap s)" if "\<And>x. f (unlink x) = f x" "\<And>x. f (x\<lparr>alarmtime := w\<rparr>) = f x"
    for f :: "task \<Rightarrow> 'b"
    using tk by (intro ext, subst f1) (simp_all add: fld_def that)
  have "dom h' = dom (heap s)" using agree_dom [OF u(4)] tk by auto
  then have k1: "kinv ?s1 ?L"
    using k u(3) by (simp add: kinv_def ready_ok_def slots_ok_def same [of ready] same [of alltaskslot])
  from same [of system] tk obtain tk1 where tk1: "h' t = Some tk1" "system tk1 = system tk"
    by (auto simp: fun_eq_iff fld_def split: option.splits dest!: spec [of _ t])
  let ?s2 = "count_up (system tk) ?s1"
  have s2: "kinv ?s2 ?L" using k1 by (simp add: count_up_def Let_def)
  have "stack_room 0 t ?s1" using c same [of stk] by (simp add: stack_room_def)
  then have c2: "stack_room 0 t ?s2" by (simp add: count_up_def Let_def)
  from kt.switch_law [OF s2 c2, of "FDelay now"] obtain s3 where
    s3: "taskswitch (FDelay now) ?s2 = Inr s3" "kinv s3 ?L" "kblock t (FDelay now) ?s2 s3"
    by (auto simp: runs_iff)
  have run': "taskdelay ms now lib s = Blocked s3"
    using st u(1,2) run tk1 s3(1)
    by (simp add: taskdelay_def Let_def kget_def tget_def count_up_def flip: w_def)
  have hs2: "heap ?s2 = h'" by (simp add: count_up_def Let_def)
  note b = kblock_heap [OF s3(3), unfolded hs2]
  have al3: "fld alarmtime (heap s3) = (fld alarmtime (heap s))(t \<mapsto> w)"
  proof
    fix v show "fld alarmtime (heap s3) v = ((fld alarmtime (heap s))(t \<mapsto> w)) v"
      using agree_fld [OF b, of alarmtime v] f1 [of alarmtime v] by (simp add: fld_def)
  qed
  have ag: "agree unsleep (heap s) (heap s3)"
  proof -
    have "agree unsleep (heap s) h'" using same [of unsleep] by (simp add: agree_def)
    moreover from b have "agree unsleep h' (heap s3)" by (rule agree_weaken) simp
    ultimately show ?thesis by (rule agree_trans)
  qed
  have ct: "fld ctxt (heap s3) = (fld ctxt (heap s))(t \<mapsto> FDelay now)"
    using kblock_ctxt [OF s3(3)] same [of ctxt] by (simp add: hs2)
  have us: "t \<in> users s \<longleftrightarrow> \<not> system tk" using tk by (simp add: users_def fld_def)
  have "asleep t w now s s3"
  proof -
    from s3(3) obtain h q where "s3 = ?s2\<lparr>heap := h, tlists := q\<rparr>" by (rule kblock_elim)
    then show ?thesis unfolding asleep_def using ag al3 ct us by (simp add: count_up_def Let_def)
  qed
  moreover have "insort_key (alarm (heap s3)) t (L Sleeping) = insort_key (alarm ?h1) t (L Sleeping)"
  proof -
    have "alarm (heap s3) v = alarm ?h1 v" for v
      using fun_cong [OF al3, of v] by (intro alarm_fld_eq) (simp add: fld_def)
    then show ?thesis by (intro insort_key_cong) blast+
  qed
  then have "L(Sleeping := insort_key (alarm (heap s3)) t (L Sleeping)) = ?L" by (simp only:)
  with s3(2) have "kinv s3 (L(Sleeping := insort_key (alarm (heap s3)) t (L Sleeping)))" by (simp only:)
  ultimately show ?thesis using run' by blast
qed

text \<open>The list stays sorted by alarm time.\<close>

definition sleep_sorted :: "'a fdst_scheme \<Rightarrow> (lref \<Rightarrow> addr list) \<Rightarrow> bool" where
  "sleep_sorted s L \<longleftrightarrow> sorted (map (alarm (heap s)) (L Sleeping))"

lemma asleep_sorted:
  assumes "asleep t w now s s'" "off s L t" "sleep_sorted s L"
  shows "sleep_sorted s' (L(Sleeping := insort_key (alarm (heap s')) t (L Sleeping)))"
proof -
  have "alarm (heap s') v = alarm (heap s) v" if "v \<in> set (L Sleeping)" for v
  proof (rule alarm_fld_eq)
    from that assms(2) have "v \<noteq> t" by (auto simp: off_def)
    moreover have "fld alarmtime (heap s') = (fld alarmtime (heap s))(t \<mapsto> w)"
      using assms(1) unfolding asleep_def by blast
    ultimately show "fld alarmtime (heap s') v = fld alarmtime (heap s) v" by simp
  qed
  then have "map (alarm (heap s')) (L Sleeping) = map (alarm (heap s)) (L Sleeping)" by simp
  with assms(3) show ?thesis
    by (simp only: sleep_sorted_def sorted_insort_key fun_upd_same)
qed

subsection \<open>fdwait\<close>

text \<open>
  \<open>polled t e s s'\<close>: task \<open>t\<close> has left the processor with entry \<open>e\<close> added to the table.
\<close>

definition polled :: "addr \<Rightarrow> pollent \<Rightarrow> frame \<Rightarrow> 'a fdst_scheme \<Rightarrow> 'a fdst_scheme \<Rightarrow> bool" where
  "polled t e f s s' \<longleftrightarrow>
     s' = s\<lparr>heap := heap s', tlists := tlists s', pollfd := pollfd s', polltask := polltask s',
       npollfd := npollfd s + 1\<rparr> \<and>
     agree unctx (heap s) (heap s') \<and> fld ctxt (heap s') = (fld ctxt (heap s))(t \<mapsto> f) \<and>
     pollers s' = pollers s @ [(e, t)]"

text \<open>The state string that is set fits its buffer.\<close>

lemma fdwait_text:
  "vsnprint err 256 ''fdwait for %s'' [Str (rw_text rw)] = Inr (''fdwait for '' @ rw_text rw)"
proof -
  let ?its = "map Lit ''fdwait for '' @ [Strf False 0 (rw_text rw)]"
  have "length (rw_text rw) \<le> 5" by (simp add: rw_text_def)
  then have "vseprint err 256 (concat (map unparse ?its)) (concat (map item_args ?its)) =
      Inr (concat (map render ?its))"
    by (intro vseprint_items) (auto simp: pad_def)
  then show ?thesis by (simp add: vsnprint_def opts_def digs.simps pad_def)
qed

lemma taskstate_fdwait:
  assumes "kinv s L" "stack_room n t s"
  shows "runs (taskstate ''fdwait for %s'' [Str (rw_text rw)] s) (\<lambda>s'. kinv s' L \<and> kframe s s')"
proof -
  from assms(2) obtain tk where t: "taskrunning s = Some t" "heap s t = Some tk"
    by (auto simp: stack_room_def fld_def split: option.splits)
  with assms kinv_data [OF assms(1)] show ?thesis
    by (simp add: taskstate_def fdwait_text kframe_def undisp_def)
qed

lemma take_update_last: "n < length xs \<Longrightarrow> take (Suc n) (xs[n := x]) = take n xs @ [x]"
  by (simp add: take_Suc_conv_app_nth)

lemma fdwait_runs:
  fixes fd rw :: int
  assumes k: "kinv s L" and ok: "pollers_ok s L" and t: "off s L t" "t \<notin> set (map snd (pollers s))"
    and c: "stack_room 0 t s" and st: "startedfdtask s" and room: "npollfd s < MAXFD"
  defines "e \<equiv> \<lparr>pfd = fd, events = rw_bits rw, revents = 0\<rparr>"
  shows "runs (fdwait fd rw lib s) (\<lambda>s'. polled t e (FFdwait fd rw) s s' \<and> kinv s' L \<and> pollers_ok s' L)"
proof -
  from taskstate_fdwait [OF k c, of rw] obtain s1 where
    s1: "taskstate ''fdwait for %s'' [Str (rw_text rw)] s = Inr s1" "kinv s1 L" "kframe s s1"
    by (auto simp: runs_iff)
  note fr = kframe_fdst [OF s1(3)]
  let ?n = "npollfd s"
  let ?s2 = "s1\<lparr>polltask := (polltask s1)[?n := t], pollfd := (pollfd s1)[?n := e], npollfd := ?n + 1\<rparr>"
  have tab: "tables_ok s" using ok by (simp add: pollers_ok_def)
  have c2: "stack_room 0 t ?s2" using c stack_room_frame [OF s1(3)] by simp
  have k2: "kinv ?s2 L" using s1(2) by simp
  from kt.switch_law [OF k2 c2, of "FFdwait fd rw"] obtain s3 where
    s3: "taskswitch (FFdwait fd rw) ?s2 = Inr s3" "kinv s3 L" "kblock t (FFdwait fd rw) ?s2 s3"
    by (auto simp: runs_iff)
  have r1: "running s1 = Inr t"
    using c kframe_fields [OF s1(3)] by (simp add: stack_room_def running_def)
  have bounds: "\<not> (?n \<ge> length (pollfd s) \<or> ?n \<ge> length (polltask s))" "\<not> ?n \<ge> MAXFD"
    using tab room by (simp_all add: tables_ok_def)
  have run: "fdwait fd rw lib s = Inr s3"
    using st s1(1) s3(1) r1 bounds fr by (simp add: fdwait_def Let_def flip: e_def)
  from s3(3) obtain h q where
    h: "s3 = ?s2\<lparr>heap := h, tlists := q\<rparr>" "agree unctx (heap s1) h"
      "fld ctxt h = (fld ctxt (heap s1))(t \<mapsto> FFdwait fd rw)"
    by (rule kblock_elim) simp
  from s1(3) obtain h1 q1 where h1: "s1 = s\<lparr>heap := h1, tlists := q1\<rparr>" "agree undisp (heap s) h1"
    by (rule kframe_elim)
  have "agree unctx (heap s) h1" using h1(2) by (rule agree_weaken) simp
  then have ag: "agree unctx (heap s) h" using h(2) h1(1) by (auto intro: agree_trans)
  have ps: "pollers s3 = pollers s @ [(e, t)]"
    using h(1) fr tab room by (simp add: pollers_def tables_ok_def take_update_last)
  have "polled t e (FFdwait fd rw) s s3"
    unfolding polled_def using h(1,3) h1(1) ag ps ctxt_frame [OF s1(3)] by simp
  moreover have "pollers_ok s3 L"
  proof -
    have "tables_ok s3" using h(1) fr tab room by (simp add: tables_ok_def)
    moreover have "dom (heap s3) = dom (heap s)" using agree_dom [OF ag] h(1) by simp
    then have "off s3 L u = off s L u" for u by (auto simp: off_def)
    ultimately show ?thesis using ok t by (auto simp: pollers_ok_def ps)
  qed
  ultimately show ?thesis using run s3(2) by simp
qed

text \<open>A full table stops the program before anything is changed.\<close>

lemma fdwait_full:
  "startedfdtask s \<Longrightarrow> npollfd s \<ge> MAXFD \<Longrightarrow>
     fdwait fd rw lib s = Inl (Abort ''too many poll file descriptors'')"
  by (simp add: fdwait_def)

subsection \<open>Writing\<close>

text \<open>
  When every \<open>write\<close> reports at most what it was given, the count stays between where it was and \<open>n\<close>.
\<close>

lemma write_loop_cases:
  assumes "\<And>k c. fst (w k c) \<le> c" "tot \<le> n"
  shows "case write_loop n w k tot of
      Wrote m \<Rightarrow> m < 0 \<or> tot \<le> m \<and> m \<le> n
    | Wait_write k' tot' \<Rightarrow> k < k' \<and> tot \<le> tot' \<and> tot' < n \<and> again (w (k' - 1) (n - tot'))"
  using assms
proof (induction n w k tot rule: write_loop.induct)
  case (1 n w k tot)
  let ?m = "fst (w k (n - tot))"
  show ?case
  proof (cases "tot < n \<and> \<not> again (w k (n - tot)) \<and> ?m > 0")
    case False
    with 1 show ?thesis by (subst write_loop.simps) (auto simp: Let_def not_less)
  next
    case True
    then have "tot + ?m \<le> n" using 1(2) [of k "n - tot"] by simp
    with 1(1) [OF _ refl refl] True 1(2) have ih: "case write_loop n w (k + 1) (tot + ?m) of
        Wrote m \<Rightarrow> m < 0 \<or> tot + ?m \<le> m \<and> m \<le> n
      | Wait_write k' tot' \<Rightarrow> k + 1 < k' \<and> tot + ?m \<le> tot' \<and> tot' < n \<and> again (w (k' - 1) (n - tot'))"
      by simp
    have "write_loop n w k tot = write_loop n w (k + 1) (tot + ?m)"
      using True by (subst write_loop.simps) (simp add: Let_def)
    with ih True show ?thesis by (auto split: wres.splits)
  qed
qed

text \<open>Everything is written when no call fails, returns nothing or would block.\<close>

lemma write_loop_all:
  assumes "\<And>k c. 0 < c \<Longrightarrow> 0 < fst (w k c) \<and> fst (w k c) \<le> c" "tot \<le> n"
  shows "write_loop n w k tot = Wrote n"
  using assms
proof (induction n w k tot rule: write_loop.induct)
  case (1 n w k tot)
  show ?case
  proof (cases "tot < n")
    case False
    with 1(3) show ?thesis by (subst write_loop.simps) simp
  next
    case True
    let ?m = "fst (w k (n - tot))"
    have m: "0 < ?m" "?m \<le> n - tot" using 1(2) [of "n - tot" k] True by simp_all
    then have a: "\<not> again (w k (n - tot))" by (simp add: again_def)
    have "write_loop n w (k + 1) (tot + ?m) = Wrote n"
      using 1(1) [OF True refl refl a _ _ 1(2)] m by simp
    with True m a show ?thesis by (subst write_loop.simps) (simp add: Let_def)
  qed
qed

subsection \<open>One turn of fdtask\<close>

text \<open>What \<open>poll\<close> stores changes neither the waiting tasks nor which entries there are.\<close>

lemma set_revents_simps [simp]:
  "kinv (set_revents rv s) L = kinv s L" "npollfd (set_revents rv s) = npollfd s"
  "polltask (set_revents rv s) = polltask s" "off (set_revents rv s) L t = off s L t"
  "heap (set_revents rv s) = heap s" "length (pollfd (set_revents rv s)) = length (pollfd s)"
  "sleepingcounted (set_revents rv s) = sleepingcounted s" "taskcount (set_revents rv s) = taskcount s"
  by (simp_all add: set_revents_def)

lemma pollers_revents:
  assumes "tables_ok s"
  shows "pollers (set_revents rv s) =
    map (\<lambda>i. ((pollfd s ! i)\<lparr>revents := rv i\<rparr>, polltask s ! i)) [0..<npollfd s]"
  using assms
  by (intro nth_equalityI) (auto simp: pollers_def set_revents_def tables_ok_def)

lemma pollers_ok_revents [simp]: "pollers_ok (set_revents rv s) L = pollers_ok s L"
proof (cases "tables_ok s")
  case True
  then have "map snd (pollers (set_revents rv s)) = map snd (pollers s)"
    by (intro nth_equalityI) (auto simp: pollers_def set_revents_def tables_ok_def)
  moreover have "tables_ok (set_revents rv s) = tables_ok s" by (simp add: tables_ok_def)
  moreover have "off (set_revents rv s) L = off s L" by (simp add: fun_eq_iff)
  ultimately show ?thesis unfolding pollers_ok_def by simp
qed (auto simp: pollers_ok_def tables_ok_def)

lemma kframe_pollers: "kframe s s' \<Longrightarrow> pollers s' = pollers s \<and> tables_ok s' = tables_ok s"
  using kframe_fdst [of s s'] by (simp add: pollers_def tables_ok_def)

lemma kframe_pollers_ok:
  assumes f: "kframe s s'"
  shows "pollers_ok s' L = pollers_ok s L"
proof -
  have "off s' L = off s L" using kframe_dom [OF f] by (auto simp: fun_eq_iff off_def)
  with kframe_pollers [OF f] show ?thesis by (simp add: pollers_ok_def)
qed

lemma alarm_counted_agree:
  assumes "agree undisp (heap s) (heap s')"
  shows "alarm (heap s') u = alarm (heap s) u" "counted s' ts = counted s ts"
  using alarm_agree [OF assms] agree_fld [OF assms, of system] by (simp_all add: counted_def)

lemma plain_poll: "plain ''poll''"
  by (simp add: plain_def)

text \<open>
  A turn in which \<open>poll\<close> succeeds makes ready the tasks with events, in the order of the sweep, and
  after them the sleeping tasks whose time has come, in the order of their alarms.
\<close>

lemma fdtask_turn_runs:
  fixes now2 :: "64 word"
  assumes k: "kinv s L" and ok: "pollers_ok s L" and c: "stack_room 0 t s"
    and n: "counted s (L Sleeping) \<le> sleepingcounted s"
    and p: "\<And>tab n ms. 0 \<le> poll_r (pl tab n ms)"
  defines "due \<equiv> \<lambda>u. alarm (heap s) u \<le> now2"
  shows "\<exists>ms rv s' ws. poll_ms now1 s = Inr ms \<and> rv = poll_revents (pl (pollfd s) (npollfd s) ms) \<and>
    fdtask_turn now1 pl now2 s = Done () s' \<and>
    kinv s' (L(Sleeping := dropWhile due (L Sleeping),
               RunQueue := L RunQueue @ map snd ws @ takeWhile due (L Sleeping))) \<and>
    mset ws = filter_mset (\<lambda>x. revents (fst x) \<noteq> 0) (mset (pollers (set_revents rv s))) \<and>
    mset (pollers s') = filter_mset (\<lambda>x. revents (fst x) = 0) (mset (pollers (set_revents rv s)))"
proof -
  from kt.say_law [OF k c plain_poll] obtain s1 where
    s1: "taskstate ''poll'' [] s = Inr s1" "kinv s1 L" "kframe s s1" by (auto simp: runs_iff)
  note fr = kframe_fdst [OF s1(3)]
  obtain ms where ms: "poll_ms now1 s1 = Inr ms"
    using poll_ms_runs [OF s1(2), where now = now1] by (cases "L Sleeping") (auto simp: runs_iff)
  have "headq Sleeping s1 = headq Sleeping s"
    using headq_first [OF s1(2), of Sleeping] headq_first [OF k, of Sleeping] by simp
  moreover have "fld alarmtime (heap s1) u = fld alarmtime (heap s) u" for u
    by (rule agree_fld [OF kframe_heap [OF s1(3)]]) simp
  ultimately have ms0: "poll_ms now1 s = poll_ms now1 s1"
    by (auto simp: poll_ms_def kget_def tget_def fld_def split: option.splits) (metis option.distinct(1) option.inject option.simps(8,9))+
  let ?rv = "poll_revents (pl (pollfd s1) (npollfd s1) ms)"
  let ?s2 = "set_revents ?rv s1"
  have k2: "kinv ?s2 L" and ok2: "pollers_ok ?s2 L"
    using s1(2) ok kframe_pollers_ok [OF s1(3)] by simp_all
  have ps: "pollers ?s2 = pollers (set_revents ?rv s)" by (simp add: pollers_def set_revents_def fr cong: if_cong)
  from wake_ready_runs [OF k2 ok2] obtain s3 ws where
    s3: "wake_ready ?s2 = Inr s3" "kinv s3 (L(RunQueue := L RunQueue @ map snd ws))" "pframe ?s2 s3"
      "mset ws = filter_mset (\<lambda>x. revents (fst x) \<noteq> 0) (mset (pollers ?s2))"
      "mset (pollers s3) = filter_mset (\<lambda>x. revents (fst x) = 0) (mset (pollers ?s2))"
    unfolding runs_iff by blast
  let ?L = "L(RunQueue := L RunQueue @ map snd ws)"
  have ag: "agree undisp (heap s) (heap s3)"
    using kframe_heap [OF s1(3)] s3(3) by (auto simp: pframe_def intro: agree_trans)
  note al = alarm_counted_agree [OF ag]
  have "sleepingcounted s3 = sleepingcounted ?s2"
    using s3(3) by (rule pframe_elim) simp
  then have "?L Sleeping = L Sleeping" "counted s3 (L Sleeping) \<le> sleepingcounted s3"
    using n by (simp_all add: al fr)
  from expire_runs [OF s3(2) this, of now2, unfolded al] obtain s4 where
    s4: "expire now2 s3 = Inr s4" "kinv s4 (?L(Sleeping := dropWhile due (L Sleeping),
        RunQueue := ?L RunQueue @ takeWhile due (L Sleeping)))" "fframe s3 s4"
    unfolding runs_iff due_def by blast
  have Le: "?L(Sleeping := dropWhile due (L Sleeping), RunQueue := ?L RunQueue @ takeWhile due (L Sleeping)) =
      L(Sleeping := dropWhile due (L Sleeping), RunQueue := L RunQueue @ map snd ws @ takeWhile due (L Sleeping))"
    by (rule ext) simp
  have "pollers s4 = pollers s3" using s4(3) by (rule fframe_elim) (simp add: pollers_def)
  moreover have "fdtask_turn now1 pl now2 s = Done () s4"
    using s1(1) ms s3(1) s4(1) p [of "pollfd s1" "npollfd s1" ms]
    by (simp add: fdtask_turn_def Let_def)
  ultimately show ?thesis
    using ms0 ms s3(4,5) s4(2) unfolding Le fr(1,3) ps [unfolded fr(1,3)]
    by (intro exI [of _ ms] exI [of _ "poll_revents (pl (pollfd s) (npollfd s) ms)"] exI [of _ s4] exI [of _ ws]) simp
qed

end
