(* ===== verification/Rwlock.thy ===== *)
theory Rwlock
  imports Qlock
begin

text \<open>
  The reader-writer lock of \<open>qlock.c\<close> against a specification: \<open>rw\<close> is a lock without the kernel,
  with the tasks that wait as two lists, and each operation of the code does to the abstraction
  \<open>rw_abs\<close> of its lock what the specified operation does, makes ready exactly the tasks that got the
  lock, in order, and touches nothing else. The rules of the lock are then proved of the
  specification.
\<close>

subsection \<open>Specification\<close>

record rw =
  rd :: int
  wr :: "addr option"
  rq :: "addr list"
  wq :: "addr list"

definition rw_rlock :: "addr \<Rightarrow> rw \<Rightarrow> rw" where
  "rw_rlock t a =
     (if wr a = None \<and> wq a = [] then a\<lparr>rd := rd a + 1\<rparr> else a\<lparr>rq := rq a @ [t]\<rparr>)"

definition rw_wlock :: "addr \<Rightarrow> rw \<Rightarrow> rw" where
  "rw_wlock t a =
     (if wr a = None \<and> rd a = 0 then a\<lparr>wr := Some t\<rparr> else a\<lparr>wq := wq a @ [t]\<rparr>)"

definition rw_next_writer :: "rw \<Rightarrow> rw" where
  "rw_next_writer a = (if wq a = [] then a else a\<lparr>wr := Some (hd (wq a)), wq := tl (wq a)\<rparr>)"

definition rw_runlock :: "rw \<Rightarrow> rw" where
  "rw_runlock a =
     (let a = a\<lparr>rd := rd a - 1\<rparr> in if rd a = 0 then rw_next_writer a else a)"

definition rw_wunlock :: "rw \<Rightarrow> rw" where
  "rw_wunlock a =
     (let a = a\<lparr>wr := None\<rparr> in
      if rq a = [] then rw_next_writer a else a\<lparr>rd := rd a + int (length (rq a)), rq := []\<rparr>)"

text \<open>The tasks that an unlocking wakes.\<close>

definition rw_woken :: "rw \<Rightarrow> rw \<Rightarrow> addr list" where
  "rw_woken a a' =
     (if rq a' = [] then rq a else []) @ (if wq a' = wq a then [] else [hd (wq a)])"

definition rw_ok :: "rw \<Rightarrow> bool" where
  "rw_ok a \<longleftrightarrow>
     0 \<le> rd a \<and> (wr a \<noteq> None \<longrightarrow> rd a = 0) \<and>
     (wr a = None \<and> wq a = [] \<longrightarrow> rq a = []) \<and> (wr a = None \<and> rd a = 0 \<longrightarrow> wq a = [])"

text \<open>A history of a lock whose users release only what they hold.\<close>

inductive rw_step :: "rw \<Rightarrow> rw \<Rightarrow> bool" where
  rlock: "rw_step a (rw_rlock t a)"
| wlock: "rw_step a (rw_wlock t a)"
| runlock: "0 < rd a \<Longrightarrow> rw_step a (rw_runlock a)"
| wunlock: "wr a \<noteq> None \<Longrightarrow> rw_step a (rw_wunlock a)"

lemma rw_ok_step: "rw_step a a' \<Longrightarrow> rw_ok a \<Longrightarrow> rw_ok a'"
  by (induction rule: rw_step.induct)
     (auto simp: rw_ok_def rw_rlock_def rw_wlock_def rw_runlock_def rw_wunlock_def
       rw_next_writer_def Let_def)

lemma rw_ok_steps: "rw_step\<^sup>*\<^sup>* a a' \<Longrightarrow> rw_ok a \<Longrightarrow> rw_ok a'"
  by (induction rule: rtranclp_induct) (auto intro: rw_ok_step)

subsection \<open>The code refines it\<close>

definition rw_abs :: "'a locks_scheme \<Rightarrow> (lref \<Rightarrow> addr list) \<Rightarrow> addr \<Rightarrow> rw" where
  "rw_abs s L l = \<lparr>rd = readers s l, wr = writer s l, rq = L (RWait l), wq = L (WWait l)\<rparr>"

lemma rw_abs_simps [simp]:
  "rd (rw_abs s L l) = readers s l" "wr (rw_abs s L l) = writer s l"
  "rq (rw_abs s L l) = L (RWait l)" "wq (rw_abs s L l) = L (WWait l)"
  by (simp_all add: rw_abs_def)

text \<open>\<open>rw_result l a woken s L s' L'\<close>: lock \<open>l\<close> is now \<open>a\<close>, \<open>woken\<close> are ready, all else is as before.\<close>

definition rw_result ::
  "addr \<Rightarrow> rw \<Rightarrow> addr list \<Rightarrow> 'a locks_scheme \<Rightarrow> (lref \<Rightarrow> addr list) \<Rightarrow> 'a locks_scheme \<Rightarrow> bool" where
  "rw_result l a woken s L s' \<longleftrightarrow>
     kinv s' (L(RWait l := rq a, WWait l := wq a, RunQueue := L RunQueue @ woken)) \<and>
     kframe (s\<lparr>readers := (readers s)(l := rd a), writer := (writer s)(l := wr a)\<rparr>) s'"

lemma rw_result_abs:
  assumes "rw_result l a woken s L s'"
  shows "rw_abs s' (L(RWait l := rq a, WWait l := wq a, RunQueue := L RunQueue @ woken)) m =
    (if m = l then a else rw_abs s L m)"
  using kframe_locks [of "s\<lparr>readers := (readers s)(l := rd a), writer := (writer s)(l := wr a)\<rparr>" s'] assms
  by (simp add: rw_result_def rw_abs_def)

lemma rw_resultI:
  assumes "kinv s' L'" "kframe (s\<lparr>readers := r, writer := w\<rparr>) s'"
    and "\<And>q. L' q = (L(RWait l := rq a, WWait l := wq a, RunQueue := L RunQueue @ woken)) q"
    and "\<And>m. r m = ((readers s)(l := rd a)) m" "\<And>m. w m = ((writer s)(l := wr a)) m"
  shows "rw_result l a woken s L s'"
proof -
  have "L' = L(RWait l := rq a, WWait l := wq a, RunQueue := L RunQueue @ woken)"
    "r = (readers s)(l := rd a)" "w = (writer s)(l := wr a)"
    using assms(3-5) by blast+
  with assms(1,2) show ?thesis by (simp only: rw_result_def)
qed

text \<open>Getting the lock at once, being refused, waiting.\<close>

lemma rw_rlock_runs:
  assumes k: "kinv s L" and r: "taskrunning s = Some t" and a: "a = rw_abs s L l"
  shows "wr a = None \<and> wq a = [] \<Longrightarrow>
      \<exists>s'. do_rlock l block s = Done 1 s' \<and> rw_result l (rw_rlock t a) [] s L s'"
    and "wr a \<noteq> None \<or> wq a \<noteq> [] \<Longrightarrow> do_rlock l False s = Done 0 s"
    and "wr a \<noteq> None \<or> wq a \<noteq> [] \<Longrightarrow> off s L t \<Longrightarrow> stack_room 0 t s \<Longrightarrow>
      \<exists>s'. do_rlock l True s = Blocked s' \<and> kinv s' (L(RWait l := rq (rw_rlock t a))) \<and>
        kblock t (FRlock l) s s'"
proof -
  show "wr a = None \<and> wq a = [] \<Longrightarrow>
      \<exists>s'. do_rlock l block s = Done 1 s' \<and> rw_result l (rw_rlock t a) [] s L s'"
    using k headq_first [OF k, of "WWait l"]
    by (auto simp: a do_rlock_def rw_rlock_def
        intro!: rw_resultI [where L' = L and r = "(readers s)(l := readers s l + 1)" and w = "writer s"])
  show "wr a \<noteq> None \<or> wq a \<noteq> [] \<Longrightarrow> do_rlock l False s = Done 0 s"
    using headq_first [OF k, of "WWait l"] by (auto simp: a do_rlock_def)
  show "wr a \<noteq> None \<or> wq a \<noteq> [] \<Longrightarrow> off s L t \<Longrightarrow> stack_room 0 t s \<Longrightarrow>
      \<exists>s'. do_rlock l True s = Blocked s' \<and> kinv s' (L(RWait l := rq (rw_rlock t a))) \<and>
        kblock t (FRlock l) s s'"
    using kt.wait_on [OF k, of t "RWait l" "''rlock''" "FRlock l"] headq_first [OF k, of "WWait l"]
    by (auto simp: a do_rlock_def rw_rlock_def runs_iff stack_room_running)
qed

lemma rw_wlock_runs:
  assumes k: "kinv s L" and r: "taskrunning s = Some t" and a: "a = rw_abs s L l"
  shows "wr a = None \<and> rd a = 0 \<Longrightarrow>
      \<exists>s'. do_wlock l block s = Done 1 s' \<and> rw_result l (rw_wlock t a) [] s L s'"
    and "wr a \<noteq> None \<or> rd a \<noteq> 0 \<Longrightarrow> do_wlock l False s = Done 0 s"
    and "wr a \<noteq> None \<or> rd a \<noteq> 0 \<Longrightarrow> off s L t \<Longrightarrow> stack_room 0 t s \<Longrightarrow>
      \<exists>s'. do_wlock l True s = Blocked s' \<and> kinv s' (L(WWait l := wq (rw_wlock t a))) \<and>
        kblock t (FWlock l) s s'"
proof -
  show "wr a = None \<and> rd a = 0 \<Longrightarrow>
      \<exists>s'. do_wlock l block s = Done 1 s' \<and> rw_result l (rw_wlock t a) [] s L s'"
    using k r
    by (auto simp: a do_wlock_def rw_wlock_def
        intro!: rw_resultI [where L' = L and r = "readers s" and w = "(writer s)(l := Some t)"])
  show "wr a \<noteq> None \<or> rd a \<noteq> 0 \<Longrightarrow> do_wlock l False s = Done 0 s"
    by (auto simp: a do_wlock_def)
  show "wr a \<noteq> None \<or> rd a \<noteq> 0 \<Longrightarrow> off s L t \<Longrightarrow> stack_room 0 t s \<Longrightarrow>
      \<exists>s'. do_wlock l True s = Blocked s' \<and> kinv s' (L(WWait l := wq (rw_wlock t a))) \<and>
        kblock t (FWlock l) s s'"
    using kt.wait_on [OF k, of t "WWait l" "''wlock''" "FWlock l"]
    by (auto simp: a do_wlock_def rw_wlock_def runs_iff stack_room_running)
qed

text \<open>The step both unlockings end with: the first waiting writer, if any, gets the lock.\<close>

definition next_writer :: "addr \<Rightarrow> 'a locks_scheme \<Rightarrow> halt + 'a locks_scheme" where
  "next_writer l s =
     (case headq (WWait l) s of
        None \<Rightarrow> Inr s
      | Some t \<Rightarrow>
          bindR (delq (WWait l) t s) (\<lambda>s. taskready t (s\<lparr>writer := (writer s)(l := Some t)\<rparr>)))"

lemma next_writer_none: "kinv s L \<Longrightarrow> L (WWait l) = [] \<Longrightarrow> next_writer l s = Inr s"
  by (simp add: next_writer_def headq_first)

lemma next_writer_some:
  assumes "kinv s L" "L (WWait l) = t # ts"
  shows "runs (next_writer l s) (\<lambda>s'. kinv s' (L(WWait l := ts, RunQueue := L RunQueue @ [t])) \<and>
    kframe (s\<lparr>writer := (writer s)(l := Some t)\<rparr>) s')"
proof -
  let ?g = "\<lambda>s. s\<lparr>writer := (writer s)(l := Some t)\<rparr>"
  have "runs (bindR (delq (WWait l) t s) (\<lambda>s. taskready t (?g s)))
      (\<lambda>s'. kinv s' (L(WWait l := ts, RunQueue := L RunQueue @ [t])) \<and>
        (\<exists>s1. kframe s s1 \<and> kframe (?g s1) s'))"
    by (rule kt.wake_first_upd [OF assms]) simp_all
  moreover have "kframe (?g s) s'" if "kframe s s1" "kframe (?g s1) s'" for s1 s'
    using kframe_trans [OF kframe_upd_locks(3) [OF that(1)] that(2) [unfolded kframe_locks(3) [OF that(1)]]] .
  ultimately show ?thesis
    using headq_first [OF assms(1), of "WWait l"] assms(2)
    by (auto simp: next_writer_def runs_iff)
qed

lemma runlock_next: "runlock l s =
    (let s = s\<lparr>readers := (readers s)(l := readers s l - 1)\<rparr> in
     if readers s l = 0 then next_writer l s else Inr s)"
  unfolding runlock_def next_writer_def Let_def by (rule refl)

lemma wunlock_next: "wunlock l s =
    (if writer s l = None then Inl (Abort ''wunlock: not locked'')
     else
       (let s = s\<lparr>writer := (writer s)(l := None)\<rparr> in
        if readers s l \<noteq> 0 then Inl (Abort ''wunlock: readers'')
        else bindR (cloop (wunlock_readers l) s)
          (\<lambda>s. if readers s l = 0 then next_writer l s else Inr s)))"
  unfolding wunlock_def next_writer_def Let_def by (rule refl)

lemma rw_runlock_runs:
  assumes k: "kinv s L" and a: "a = rw_abs s L l"
  shows "runs (runlock l s) (rw_result l (rw_runlock a) (rw_woken a (rw_runlock a)) s L)"
proof -
  let ?r = "(readers s)(l := readers s l - 1)"
  let ?s = "s\<lparr>readers := ?r\<rparr>"
  have ks: "kinv ?s L" using k by simp
  consider "rd a \<noteq> 1" | "rd a = 1" "wq a = []" | t ts where "rd a = 1" "wq a = t # ts"
    by (cases "wq a") auto
  then show ?thesis
  proof cases
    case 1
    then show ?thesis using ks a
      by (auto simp: runlock_next rw_runlock_def rw_woken_def Let_def
          intro!: rw_resultI [where L' = L and r = ?r and w = "writer s"])
  next
    case 2
    then show ?thesis using ks a next_writer_none [OF ks, of l]
      by (auto simp: runlock_next rw_runlock_def rw_next_writer_def rw_woken_def Let_def
          intro!: rw_resultI [where L' = L and r = ?r and w = "writer s"])
  next
    case 3
    then obtain s' where "next_writer l ?s = Inr s'"
      "kinv s' (L(WWait l := ts, RunQueue := L RunQueue @ [t]))"
      "kframe (?s\<lparr>writer := (writer s)(l := Some t)\<rparr>) s'"
      using next_writer_some [OF ks, of l t ts] a by (auto simp: runs_iff)
    with 3 a show ?thesis
      by (auto simp: runlock_next rw_runlock_def rw_next_writer_def rw_woken_def Let_def
          intro!: rw_resultI [where L' = "L(WWait l := ts, RunQueue := L RunQueue @ [t])"
            and r = ?r and w = "(writer s)(l := Some t)"])
  qed
qed

lemma wunlock_readers_step:
  assumes "kinv s L" "L (RWait l) = t # ts"
  shows "\<exists>s'. wunlock_readers l s = Inr (True, s') \<and>
    kinv s' (L(RWait l := ts, RunQueue := L RunQueue @ [t])) \<and>
    kframe (s\<lparr>readers := (readers s)(l := readers s l + 1)\<rparr>) s'"
proof -
  let ?g = "\<lambda>s. s\<lparr>readers := (readers s)(l := readers s l + 1)\<rparr>"
  have "runs (bindR (delq (RWait l) t s) (\<lambda>s. taskready t (?g s)))
      (\<lambda>s'. kinv s' (L(RWait l := ts, RunQueue := L RunQueue @ [t])) \<and>
        (\<exists>s1. kframe s s1 \<and> kframe (?g s1) s'))"
    by (rule kt.wake_first_upd [OF assms]) simp_all
  moreover have "kframe (?g s) s'" if "kframe s s1" "kframe (?g s1) s'" for s1 s'
    using kframe_trans [OF kframe_upd_locks(2) [OF that(1)] that(2) [unfolded kframe_locks(2) [OF that(1)]]] .
  ultimately show ?thesis
    using headq_first [OF assms(1), of "RWait l"] assms(2)
    by (auto simp: wunlock_readers_def runs_iff)
qed

lemma wunlock_readers_loop:
  "kinv s L \<Longrightarrow> L (RWait l) = ts \<Longrightarrow>
     runs (cloop (wunlock_readers l) s) (\<lambda>s'.
       kinv s' (L(RWait l := [], RunQueue := L RunQueue @ ts)) \<and>
       kframe (s\<lparr>readers := (readers s)(l := readers s l + int (length ts))\<rparr>) s')"
proof (induction ts arbitrary: s L)
  case Nil
  have "L(RWait l := [], RunQueue := L RunQueue @ []) = L" using Nil(2) by auto
  with Nil(1) have "kinv s (L(RWait l := [], RunQueue := L RunQueue @ []))" by (simp only:)
  moreover have "wunlock_readers l s = Inr (False, s)"
    using Nil headq_first [OF Nil(1), of "RWait l"] by (simp add: wunlock_readers_def)
  then have "cloop (wunlock_readers l) s = Inr s" by (simp add: cloop_unfold [of _ s])
  ultimately show ?case by (simp only: runs_Inr) simp
next
  case (Cons t ts)
  let ?L = "L(RWait l := ts, RunQueue := L RunQueue @ [t])"
  let ?r = "(readers s)(l := readers s l + 1)"
  from wunlock_readers_step [OF Cons.prems] obtain s1 where
    s1: "wunlock_readers l s = Inr (True, s1)" "kinv s1 ?L" "kframe (s\<lparr>readers := ?r\<rparr>) s1" by blast
  from kframe_locks(2) [OF s1(3)] have r1: "readers s1 = ?r" by simp
  have "?L (RWait l) = ts" by simp
  from Cons.IH [OF s1(2) this] obtain s2 where
    s2: "cloop (wunlock_readers l) s1 = Inr s2"
      "kinv s2 (?L(RWait l := [], RunQueue := ?L RunQueue @ ts))"
      "kframe (s1\<lparr>readers := (readers s1)(l := readers s1 l + int (length ts))\<rparr>) s2"
    unfolding runs_iff by blast
  have "?L(RWait l := [], RunQueue := ?L RunQueue @ ts) =
      L(RWait l := [], RunQueue := L RunQueue @ t # ts)" by (rule ext) auto
  with s2(2) have "kinv s2 (L(RWait l := [], RunQueue := L RunQueue @ t # ts))" by (simp only:)
  moreover have "kframe (s\<lparr>readers := (readers s)(l := readers s l + int (length (t # ts)))\<rparr>) s2"
    using kframe_trans [OF kframe_upd_locks(2) [OF s1(3)] s2(3)]
    by (simp add: r1 add.commute add.left_commute)
  moreover have "cloop (wunlock_readers l) s = Inr s2"
    using s1(1) s2(1) by (simp add: cloop_unfold [of _ s])
  ultimately show ?case by (simp only: runs_Inr)
qed

lemma rw_wunlock_runs:
  assumes k: "kinv s L" and a: "a = rw_abs s L l" and w: "wr a \<noteq> None" "rd a = 0"
  shows "runs (wunlock l s) (rw_result l (rw_wunlock a) (rw_woken a (rw_wunlock a)) s L)"
proof -
  let ?s = "s\<lparr>writer := (writer s)(l := None)\<rparr>" and ?n = "int (length (L (RWait l)))"
  let ?L = "L(RWait l := [], RunQueue := L RunQueue @ L (RWait l))"
  have ks: "kinv ?s L" using k by simp
  from wunlock_readers_loop [OF ks refl, of l] obtain s1 where
    s1: "cloop (wunlock_readers l) ?s = Inr s1" "kinv s1 ?L"
      "kframe (?s\<lparr>readers := (readers s)(l := readers s l + ?n)\<rparr>) s1"
    unfolding runs_iff by auto
  have "?s\<lparr>readers := (readers s)(l := readers s l + ?n)\<rparr> =
      s\<lparr>readers := (readers s)(l := ?n), writer := (writer s)(l := None)\<rparr>"
    using w(2) a by (cases s) simp
  with s1(3) have f1: "kframe (s\<lparr>readers := (readers s)(l := ?n), writer := (writer s)(l := None)\<rparr>) s1"
    by (simp only:)
  have r1: "readers s1 l = ?n" and w1: "writer s1 = (writer s)(l := None)"
    using kframe_locks [OF s1(3)] w(2) a by simp_all
  have un: "wunlock l s = (if ?n = 0 then next_writer l s1 else Inr s1)"
    using w a s1(1) r1 by (auto simp: wunlock_next)
  consider "rq a \<noteq> []" | "rq a = []" "wq a = []" | t ts where "rq a = []" "wq a = t # ts"
    by (cases "wq a") auto
  then show ?thesis
  proof cases
    case 1
    with un s1(2) f1 a w show ?thesis
      by (auto simp: rw_wunlock_def rw_woken_def
          intro!: rw_resultI [where L' = ?L and r = "(readers s)(l := ?n)" and w = "(writer s)(l := None)"])
  next
    case 2
    with next_writer_none [OF s1(2), of l] un s1(2) f1 a w show ?thesis
      by (auto simp: rw_wunlock_def rw_next_writer_def rw_woken_def
          intro!: rw_resultI [where L' = ?L and r = "(readers s)(l := 0)" and w = "(writer s)(l := None)"])
  next
    case 3
    have "?L (WWait l) = t # ts" using 3 a by simp
    from next_writer_some [OF s1(2) this] obtain s2 where
      s2: "next_writer l s1 = Inr s2" "kinv s2 (?L(WWait l := ts, RunQueue := ?L RunQueue @ [t]))"
        "kframe (s1\<lparr>writer := (writer s1)(l := Some t)\<rparr>) s2"
      unfolding runs_iff by blast
    have f: "kframe (s\<lparr>readers := (readers s)(l := 0), writer := (writer s)(l := Some t)\<rparr>) s2"
      using kframe_trans [OF kframe_upd_locks(3) [OF s1(3)] s2(3)] w1 3 a w by simp
    have "rw_result l (rw_wunlock a) (rw_woken a (rw_wunlock a)) s L s2"
      by (rule rw_resultI [OF s2(2) f])
        (use 3 a w in \<open>auto simp: rw_wunlock_def rw_next_writer_def rw_woken_def\<close>)
    with un 3 a s2(1) show ?thesis by simp
  qed
qed

end
