(* ===== verification/ChanRing.thy ===== *)
theory ChanRing
  imports Channel Fifo
begin

text \<open>
  The ring buffer of a channel implements a first-in first-out queue of elements:
  \<open>copy_send\<close> and \<open>copy_recv\<close> keep the contract \<open>fifo\<close>.
\<close>

subsection \<open>Slots of the buffer\<close>

lemma block_upd:
  assumes "k * n + n \<le> length b" "j * n + n \<le> length b" "length x = n"
  shows "take n (drop (j * n) (take (k * n) b @ x @ drop (k * n + n) b)) =
    (if j = k then x else take n (drop (j * n) b))"
proof -
  consider "j = k" | "j < k" | "k < j" by linarith
  then show ?thesis
  proof cases
    case 1
    with assms show ?thesis by simp
  next
    case 2
    then have "Suc j * n \<le> k * n" by (intro mult_le_mono1) simp
    with assms 2 show ?thesis by (simp add: min_def drop_take)
  next
    case 3
    then have "Suc k * n \<le> j * n" by (intro mult_le_mono1) simp
    then obtain d where d: "j * n = k * n + n + d" by (auto simp: le_iff_add add.commute)
    have "take (k * n) b @ x @ drop (k * n + n) b = (take (k * n) b @ x) @ drop (k * n + n) b" by simp
    moreover have "length (take (k * n) b @ x) = k * n + n" using assms by simp
    ultimately have "drop (k * n + n + d) (take (k * n) b @ x @ drop (k * n + n) b) =
        drop d (drop (k * n + n) b)" by (simp del: append_assoc)
    also have "\<dots> = drop (k * n + n + d) b" by (simp add: add.commute)
    finally show ?thesis using 3 d by simp
  qed
qed

definition slot :: "channel \<Rightarrow> nat \<Rightarrow> byte list" where
  "slot c k = take (unat (elemsize c)) (drop (k * unat (elemsize c)) (buf c))"

definition ch_ok :: "channel \<Rightarrow> bool" where
  "ch_ok c \<longleftrightarrow>
     length (buf c) = unat (bufsize c) * unat (elemsize c) \<and> length (buf c) < 2 ^ 31 \<and>
     unat (bufsize c) < 2 ^ 31 \<and> nbuf c \<le> bufsize c \<and>
     (if bufsize c = 0 then coff c = 0 else coff c < bufsize c)"

text \<open>The elements in the buffer, the oldest first.\<close>

definition elems :: "channel \<Rightarrow> byte list list" where
  "elems c = map (\<lambda>i. slot c ((unat (coff c) + i) mod unat (bufsize c))) [0..<unat (nbuf c)]"

lemma length_elems [simp]: "length (elems c) = unat (nbuf c)"
  by (simp add: elems_def)

lemma slot_bound:
  assumes "ch_ok c" "k < unat (bufsize c)"
  shows "k * unat (elemsize c) + unat (elemsize c) \<le> length (buf c)"
proof -
  from assms(2) have "Suc k * unat (elemsize c) \<le> unat (bufsize c) * unat (elemsize c)"
    by (intro mult_le_mono1) simp
  with assms(1) show ?thesis by (simp add: ch_ok_def)
qed

lemma slot_addr:
  assumes "ch_ok c" "unat k < unat (bufsize c)"
  shows "unat (k * elemsize c) = unat k * unat (elemsize c)"
proof -
  from slot_bound [OF assms] assms(1) have "unat k * unat (elemsize c) < 2 ^ 31"
    by (simp add: ch_ok_def)
  then show ?thesis by (subst unat_mult_lem [THEN iffD1]) simp_all
qed

lemma length_slot: "ch_ok c \<Longrightarrow> k < unat (bufsize c) \<Longrightarrow> length (slot c k) = unat (elemsize c)"
  using slot_bound [of c k] by (simp add: slot_def)

subsection \<open>Memory\<close>

lemma length_mem_read [simp]: "length (mem_read m a n) = n"
  by (simp add: mem_read_def)

lemma addr_Suc: "(a :: addr) + of_nat (Suc i) = a + 1 + of_nat i"
  by (simp only: of_nat_Suc add.assoc)

lemma mem_write_outside:
  "(\<forall>i < length bs. x \<noteq> a + of_nat i) \<Longrightarrow> mem_write m a bs x = m x"
proof (induction bs arbitrary: m a)
  case (Cons b bs)
  from Cons.prems [rule_format, of 0] have "x \<noteq> a" by simp
  moreover have "\<forall>i < length bs. x \<noteq> a + 1 + of_nat i"
    using Cons.prems by (metis addr_Suc length_Cons Suc_less_eq)
  then have "mem_write (m(a := b)) (a + 1) bs x = (m(a := b)) x" by (rule Cons.IH)
  ultimately show ?case by simp
qed simp

lemma mem_write_inside:
  "i < length bs \<Longrightarrow> length bs \<le> 2 ^ 64 \<Longrightarrow> mem_write m a bs (a + of_nat i) = bs ! i"
proof (induction bs arbitrary: m a i)
  case (Cons b bs)
  show ?case
  proof (cases i)
    case 0
    have "a \<noteq> a + 1 + of_nat j" if j: "j < length bs" for j
    proof
      assume "a = a + 1 + of_nat j"
      then have "a + of_nat (Suc j) = a" by (simp only: addr_Suc)
      then have "of_nat (Suc j) = (0 :: addr)" by (metis add_cancel_right_right)
      then have "2 ^ 64 dvd Suc j" by (simp add: word_of_nat_eq_0_iff del: of_nat_Suc)
      then have "2 ^ 64 \<le> Suc j" by (rule dvd_imp_le) simp
      with j Cons.prems(2) show False by simp
    qed
    then have "mem_write (m(a := b)) (a + 1) bs a = (m(a := b)) a" by (intro mem_write_outside) blast
    with 0 show ?thesis by simp
  next
    case (Suc k)
    from Cons.prems Suc have "mem_write (m(a := b)) (a + 1) bs (a + 1 + of_nat k) = bs ! k"
      by (intro Cons.IH) auto
    with Suc show ?thesis by (simp only: addr_Suc mem_write.simps nth_Cons_Suc)
  qed
qed simp

lemma mem_read_write: "length bs \<le> 2 ^ 64 \<Longrightarrow> mem_read (mem_write m a bs) a (length bs) = bs"
  by (rule nth_equalityI) (simp_all add: mem_read_def mem_write_inside)

subsection \<open>The two moves between buffer and memory\<close>

text \<open>The element a sender's \<open>v\<close> points to: zeros for a nil pointer.\<close>

definition vval :: "(addr \<Rightarrow> byte) \<Rightarrow> nat \<Rightarrow> addr option \<Rightarrow> byte list" where
  "vval m n v = (case v of None \<Rightarrow> replicate n 0 | Some a \<Rightarrow> mem_read m a n)"

text \<open>The memory after an element has been delivered to a receiver's \<open>v\<close>.\<close>

definition vput :: "(addr \<Rightarrow> byte) \<Rightarrow> addr option \<Rightarrow> byte list \<Rightarrow> addr \<Rightarrow> byte" where
  "vput m v x = (case v of None \<Rightarrow> m | Some a \<Rightarrow> mem_write m a x)"

lemma length_vval [simp]: "length (vval m n v) = n"
  by (simp add: vval_def split: option.split)

text \<open>Moving data leaves everything of a channel but its ring buffer as it is.\<close>

definition same_chan :: "channel \<Rightarrow> channel \<Rightarrow> bool" where
  "same_chan c c' \<longleftrightarrow>
     bufsize c' = bufsize c \<and> elemsize c' = elemsize c \<and> asend c' = asend c \<and>
     arecv c' = arecv c \<and> cname c' = cname c"

lemma mod_add_neq:
  fixes f i n b :: nat
  assumes "i < n" "n < b"
  shows "(f + i) mod b \<noteq> (f + n) mod b"
proof
  assume "(f + i) mod b = (f + n) mod b"
  then have "b dvd (f + n) - (f + i)" using assms by (metis mod_eq_dvd_iff_nat add_left_mono less_imp_le)
  then have "b dvd n - i" by simp
  then have "b \<le> n - i" by (rule dvd_imp_le) (use assms in simp)
  with assms show False by simp
qed

lemma ch_ok_pos: "ch_ok c \<Longrightarrow> bufsize c \<noteq> 0 \<Longrightarrow> unat (coff c) < unat (bufsize c)"
  by (simp add: ch_ok_def word_less_nat_alt)

lemma slot_cong: "buf c' = buf c \<Longrightarrow> elemsize c' = elemsize c \<Longrightarrow> slot c' k = slot c k"
  by (simp add: slot_def)

lemma next_off:
  fixes f b :: "32 word"
  assumes "f < b"
  shows "unat (if f + 1 = b then 0 else f + 1) = Suc (unat f) mod unat b"
proof -
  have "unat (f + 1) = Suc (unat f)"
    using assms by unat_arith
  moreover have "Suc (unat f) \<le> unat b" using assms by (simp add: word_less_nat_alt Suc_le_eq)
  moreover have "unat (f + 1) \<noteq> unat b" if "f + 1 \<noteq> b"
    using that word_unat_eq_iff by blast
  ultimately show ?thesis by (cases "f + 1 = b") auto
qed

lemma elems_pop:
  assumes "ch_ok c" "0 < nbuf c"
    and c': "buf c' = buf c" "elemsize c' = elemsize c" "bufsize c' = bufsize c"
      "nbuf c' = nbuf c - 1" "coff c' = (if coff c + 1 = bufsize c then 0 else coff c + 1)"
  shows "elems c = slot c (unat (coff c)) # elems c'" "ch_ok c'"
proof -
  from assms(1,2) have b: "bufsize c \<noteq> 0" by (auto simp: ch_ok_def)
  with assms(1) have lt: "coff c < bufsize c" by (simp add: ch_ok_def)
  then have off: "unat (coff c') = Suc (unat (coff c)) mod unat (bufsize c)"
    by (simp only: c' next_off)
  have n: "unat (nbuf c) = Suc (unat (nbuf c'))"
    using assms(2) by (simp add: c' unat_minus_one word_less_nat_alt unat_gt_0)
  have "elems c = slot c ((unat (coff c) + 0) mod unat (bufsize c)) #
      map (\<lambda>i. slot c ((unat (coff c) + Suc i) mod unat (bufsize c))) [0..<unat (nbuf c')]"
    by (simp only: elems_def n map_upt_Suc)
  also have "map (\<lambda>i. slot c ((unat (coff c) + Suc i) mod unat (bufsize c))) [0..<unat (nbuf c')] =
      elems c'"
    by (simp add: elems_def off slot_cong [OF c'(1,2)] c'(3) mod_simps)
  finally show "elems c = slot c (unat (coff c)) # elems c'"
    using lt by (simp add: word_less_nat_alt)
  have "0 < unat (bufsize c)" using b by (simp add: unat_gt_0)
  then have "coff c' < bufsize c" by (simp add: word_less_nat_alt off)
  moreover have "nbuf c' \<le> bufsize c"
    using assms(1) n by (simp add: ch_ok_def word_le_nat_alt)
  ultimately show "ch_ok c'"
    using assms(1) b by (simp add: ch_ok_def c'(1,2,3))
qed

lemma copy_recv_runs:
  assumes "ch_ok c" "0 < nbuf c"
  shows "runs (copy_recv rv (m, c)) (\<lambda>(m', c').
    ch_ok c' \<and> elems c = slot c (unat (coff c)) # elems c' \<and>
    m' = vput m rv (slot c (unat (coff c))) \<and>
    nbuf c' = nbuf c - 1 \<and> same_chan c c')"
proof -
  from assms have b: "bufsize c \<noteq> 0" by (auto simp: ch_ok_def)
  from ch_ok_pos [OF assms(1) b] have lt: "unat (coff c) < unat (bufsize c)" .
  note cp = slot_addr [OF assms(1) lt]
  have move: "amove (map_option Mem rv) (Some (Buf (unat (coff c * elemsize c)))) (unat (elemsize c))
      (m, buf c) = Inr (vput m rv (slot c (unat (coff c))), buf c)"
    using slot_bound [OF assms(1) lt]
    by (cases rv) (simp_all add: amove_def move_read_def move_write_def cp slot_def vput_def)
  define c' where "c' = c\<lparr>nbuf := nbuf c - 1,
      coff := (if coff c + 1 = bufsize c then 0 else coff c + 1)\<rparr>"
  have "copy_recv rv (m, c) = Inr (vput m rv (slot c (unat (coff c))), c')"
    by (simp add: copy_recv_def move c'_def)
  moreover have "elems c = slot c (unat (coff c)) # elems c'" "ch_ok c'"
    by (rule elems_pop [OF assms]; simp add: c'_def)+
  ultimately show ?thesis by (simp add: c'_def same_chan_def)
qed

lemma elems_push:
  assumes "ch_ok c" "nbuf c < bufsize c" "length x = unat (elemsize c)"
    and k: "k = (unat (coff c) + unat (nbuf c)) mod unat (bufsize c)"
    and c': "c' = c\<lparr>nbuf := nbuf c + 1, buf := take (k * unat (elemsize c)) (buf c) @ x @
      drop (k * unat (elemsize c) + unat (elemsize c)) (buf c)\<rparr>"
  shows "elems c' = elems c @ [x]" "ch_ok c'"
proof -
  let ?n = "unat (elemsize c)" and ?b = "unat (bufsize c)"
  from assms(2) have b: "0 < ?b" and nb: "unat (nbuf c) < ?b"
    by (simp_all add: word_less_nat_alt)
  then have "k < ?b" by (simp add: k)
  note kb = slot_bound [OF assms(1) this]
  have sl: "slot c' j = (if j = k then x else slot c j)" if "j < ?b" for j
    using block_upd [OF kb slot_bound [OF assms(1) that] assms(3)] by (simp add: slot_def c')
  have n: "unat (nbuf c') = Suc (unat (nbuf c))"
    using assms(2) by (simp add: c') unat_arith
  have "slot c' ((unat (coff c) + i) mod ?b) = slot c ((unat (coff c) + i) mod ?b)"
    if "i < unat (nbuf c)" for i
    using that sl [of "(unat (coff c) + i) mod ?b"] b mod_add_neq [OF that nb, of "unat (coff c)"]
    by (simp add: k)
  moreover have "slot c' k = x" using sl [OF \<open>k < ?b\<close>] by simp
  ultimately show "elems c' = elems c @ [x]"
    by (simp add: elems_def n, simp add: c' k)
  have "length (buf c') = length (buf c)" using kb assms(3) by (simp add: c')
  then show "ch_ok c'"
    using assms(1) n nb b by (auto simp: ch_ok_def word_le_nat_alt) (simp_all add: c')
qed

lemma copy_send_runs:
  assumes "ch_ok c" "nbuf c < bufsize c"
  shows "runs (copy_send sv (m, c)) (\<lambda>(m', c').
    ch_ok c' \<and> elems c' = elems c @ [vval m (unat (elemsize c)) sv] \<and> m' = m \<and>
    nbuf c' = nbuf c + 1 \<and> same_chan c c')"
proof -
  let ?n = "unat (elemsize c)" and ?b = "unat (bufsize c)" and ?x = "vval m (unat (elemsize c)) sv"
  define w where "w = (coff c + nbuf c) mod bufsize c"
  define k where "k = (unat (coff c) + unat (nbuf c)) mod ?b"
  from assms(2) have b: "bufsize c \<noteq> 0" "0 < ?b" by (auto simp: word_less_nat_alt)
  have "unat (coff c + nbuf c) = unat (coff c) + unat (nbuf c)"
    using ch_ok_pos [OF assms(1) b(1)] assms
    by (subst unat_add_lem [THEN iffD1]) (simp_all add: ch_ok_def word_less_nat_alt)
  then have w: "unat w = k" by (simp add: w_def k_def unat_mod)
  then have wb: "unat w < ?b" using b by (simp add: k_def)
  note cp = slot_addr [OF assms(1) wb]
  define c' where "c' = c\<lparr>nbuf := nbuf c + 1, buf := take (k * ?n) (buf c) @ ?x @
      drop (k * ?n + ?n) (buf c)\<rparr>"
  have "amove (Some (Buf (unat (w * elemsize c)))) (map_option Mem sv) ?n (m, buf c) =
      Inr (m, buf c')"
    using slot_bound [OF assms(1) wb]
    by (cases sv) (simp_all add: amove_def move_read_def move_write_def cp w vval_def c'_def)
  then have "copy_send sv (m, c) = Inr (m, c')"
    using b by (simp add: copy_send_def w_def [symmetric]) (simp add: c'_def)
  moreover have "elems c' = elems c @ [?x]" "ch_ok c'"
    by (rule elems_push [OF assms length_vval k_def c'_def])+
  ultimately show ?thesis by (simp add: c'_def same_chan_def)
qed

text \<open>The queue of a channel with its buffer, as seen by \<open>altcopy\<close>.\<close>

definition has_room :: "addr option \<Rightarrow> (addr \<Rightarrow> byte) \<times> channel \<Rightarrow> bool" where
  "has_room v mc \<longleftrightarrow> nbuf (snd mc) < bufsize (snd mc)"

definition has_data :: "(addr \<Rightarrow> byte) \<times> channel \<Rightarrow> bool" where
  "has_data mc \<longleftrightarrow> 0 < nbuf (snd mc)"

definition sent_val :: "addr option \<Rightarrow> (addr \<Rightarrow> byte) \<times> channel \<Rightarrow> byte list" where
  "sent_val v mc = vval (fst mc) (unat (elemsize (snd mc))) v"

definition oldest :: "(addr \<Rightarrow> byte) \<times> channel \<Rightarrow> byte list" where
  "oldest mc = slot (snd mc) (unat (coff (snd mc)))"

interpretation ring: fifo
  "\<lambda>mc. ch_ok (snd mc)" "\<lambda>mc. elems (snd mc)" has_room has_data copy_send sent_val copy_recv oldest
proof (unfold_locales, goal_cases)
  case (1 mc v)
  then show ?case
    using copy_send_runs [of "snd mc" v "fst mc"]
    by (auto simp: runs_iff sent_val_def has_room_def)
next
  case (2 mc w)
  then show ?case
    using copy_recv_runs [of "snd mc" w "fst mc"]
    by (auto simp: runs_iff oldest_def has_data_def)
qed

subsection \<open>\<open>copy\<close>\<close>

lemma has_room_after_recv:
  assumes "ch_ok c" "0 < nbuf c" "nbuf c' = nbuf c - 1" "same_chan c c'"
  shows "nbuf c' < bufsize c'"
proof -
  have "nbuf c \<le> bufsize c" using assms(1) by (simp add: ch_ok_def)
  with assms(2) have "nbuf c - 1 < bufsize c" by unat_arith
  with assms(3,4) show ?thesis by (simp add: same_chan_def)
qed

text \<open>
  With a sender and a receiver: the receiver gets the oldest element and the sender's is appended,
  where an empty (or absent) buffer hands the element straight over.
\<close>

lemma copy_both_runs:
  assumes "ch_ok c"
  shows "runs (copy (Some v) (Some w) (m, c)) (\<lambda>(m', c'). \<exists>x y.
    m' = vput m w x \<and> x # elems c' = elems c @ [y] \<and>
    y = vval (if nbuf c = 0 then m else m') (unat (elemsize c)) v \<and>
    ch_ok c' \<and> nbuf c' = nbuf c \<and> same_chan c c')"
proof (cases "nbuf c = 0")
  case True
  have "amove (map_option Mem w) (map_option Mem v) (unat (elemsize c)) (m, buf c) =
      Inr (vput m w (vval m (unat (elemsize c)) v), buf c)"
    by (cases v; cases w) (simp_all add: amove_def move_read_def move_write_def vput_def vval_def)
  with True assms show ?thesis by (simp add: copy_def elems_def same_chan_def)
next
  case False
  then have pos: "0 < nbuf c" by (simp add: word_neq_0_conv)
  from copy_recv_runs [OF assms pos, of w m] obtain c1 where 1:
    "copy_recv w (m, c) = Inr (vput m w (slot c (unat (coff c))), c1)" "ch_ok c1"
    "elems c = slot c (unat (coff c)) # elems c1" "nbuf c1 = nbuf c - 1" "same_chan c c1"
    by (auto simp: runs_iff)
  from copy_send_runs [OF 1(2) has_room_after_recv [OF assms pos 1(4,5)]] obtain c2 where 2:
    "copy_send v (vput m w (slot c (unat (coff c))), c1) =
       Inr (vput m w (slot c (unat (coff c))), c2)" "ch_ok c2"
    "elems c2 = elems c1 @ [vval (vput m w (slot c (unat (coff c)))) (unat (elemsize c1)) v]"
    "nbuf c2 = nbuf c1 + 1" "same_chan c1 c2"
    by (auto simp: runs_iff)
  from False 1 2 show ?thesis by (simp add: copy_def same_chan_def)
qed

subsection \<open>A new channel\<close>

lemma chancreate_runs:
  assumes "int_range bsz" "int_range esz" "0 \<le> bsz" "0 \<le> esz" "int_range (bsz * esz)"
  shows "runs (chancreate esz bsz (Some a) junk s) (\<lambda>(p, s'). p = a \<and>
    (\<exists>c. s' = s\<lparr>chans := (chans s)(a \<mapsto> c)\<rparr> \<and> ch_ok c \<and> elems c = [] \<and>
      uint (bufsize c) = bsz \<and> uint (elemsize c) = esz \<and>
      unat (an (asend c)) = 0 \<and> unat (an (arecv c)) = 0))"
proof -
  have u: "uint (word_of_int i :: 32 word) = i" if "int_range i" "0 \<le> i" for i
    using that by (simp add: int_range_def uint_word_of_int)
  have w: "unat (word_of_int i :: 32 word) = nat i" "nat i < 2 ^ 31" if "int_range i" "0 \<le> i" for i
    using u [OF that] that by (simp_all add: unat_eq_nat_uint int_range_def nat_less_iff)
  define c where "c = \<lparr>bufsize = word_of_int bsz, elemsize = word_of_int esz,
      buf = map junk [0..<nat (bsz * esz)], nbuf = 0, coff = 0,
      asend = \<lparr>aa = [], an = 0, am = 0\<rparr>, arecv = \<lparr>aa = [], an = 0, am = 0\<rparr>, cname = None\<rparr>"
  from assms(3,4) have nn: "0 \<le> bsz * esz" by (rule mult_nonneg_nonneg)
  then have "chancreate esz bsz (Some a) junk s = Inr (a, s\<lparr>chans := (chans s)(a \<mapsto> c)\<rparr>)"
    using assms(5) by (simp add: chancreate_def c_def)
  moreover have "length (buf c) = unat (bufsize c) * unat (elemsize c)"
    using w(1) [OF assms(1,3)] w(1) [OF assms(2,4)] assms(3)
    by (simp add: c_def nat_mult_distrib)
  then have "ch_ok c"
    using w(2) [OF assms(5) nn] w [OF assms(1,3)]
    by (simp add: ch_ok_def c_def word_neq_0_conv)
  moreover have "elems c = []" "uint (bufsize c) = bsz" "uint (elemsize c) = esz"
    "unat (an (asend c)) = 0" "unat (an (arecv c)) = 0"
    using u [OF assms(1,3)] u [OF assms(2,4)] by (simp_all add: elems_def c_def)
  ultimately show ?thesis by auto
qed

end
