(* ===== verification/ChanSync.thy ===== *)
theory ChanSync
  imports ChanRing
begin

text \<open>
  The synchronisation of \<open>channel.c\<close>: the arrays of waiting \<open>Alt\<close>s, their invariant, and what
  executing an operation does to the channels, to the memory and to the tasks that wait.
\<close>

subsection \<open>The arrays of waiting Alts\<close>

definition waiting :: "altarray \<Rightarrow> aptr list" where
  "waiting ar = take (unat (an ar)) (aa ar)"

definition arr_ok :: "altarray \<Rightarrow> bool" where
  "arr_ok ar \<longleftrightarrow>
     unat (an ar) \<le> length (aa ar) \<and> length (aa ar) = unat (am ar) \<and> distinct (waiting ar)"

lemma length_waiting: "arr_ok ar \<Longrightarrow> length (waiting ar) = unat (an ar)"
  by (simp add: waiting_def arr_ok_def)

lemma waiting_empty: "arr_ok ar \<Longrightarrow> waiting ar = [] \<longleftrightarrow> an ar = 0"
  using length_waiting [of ar] by (metis length_0_conv unat_eq_0)

lemma addarray_runs:
  assumes "arr_ok ar" "unat (am ar) + 16 < 2 ^ 32" "p \<notin> set (waiting ar)"
  shows "runs (addarray False ar p) (\<lambda>ar'. arr_ok ar' \<and> waiting ar' = waiting ar @ [p] \<and>
    unat (am ar') \<le> unat (am ar) + 16)"
proof (cases "an ar = am ar")
  case True
  have m: "unat (am ar + 16) = unat (am ar) + 16"
    using assms(2) by (subst unat_add_lem [THEN iffD1]) simp_all
  have n: "unat (an ar + 1) = unat (an ar) + 1"
    using assms(2) True by (subst unat_add_lem [THEN iffD1]) simp_all
  from assms(1,3) True m n show ?thesis
    by (auto simp: addarray_def Let_def arr_ok_def waiting_def take_Suc_conv_app_nth)
next
  case False
  with assms(1) have lt: "unat (an ar) < unat (am ar)"
    by (metis arr_ok_def le_neq_implies_less word_unat_eq_iff)
  then have n: "unat (an ar + 1) = unat (an ar) + 1"
    using assms(2) by (subst unat_add_lem [THEN iffD1]) simp_all
  from assms(1,3) False lt n show ?thesis
    by (simp add: addarray_def arr_ok_def waiting_def take_Suc_conv_app_nth)
qed

lemma delarray_runs:
  assumes "arr_ok ar" "i < unat (an ar)"
  shows "runs (delarray ar i) (\<lambda>ar'. arr_ok ar' \<and> waiting ar' = swap_remove (waiting ar) i)"
proof -
  let ?n = "unat (an ar)"
  have n1: "unat (an ar - 1) = ?n - 1"
    using assms(2) by (metis gr_implies_not0 unat_0 unat_minus_one)
  have w: "take (?n - 1) ((aa ar)[i := aa ar ! (?n - 1)]) = swap_remove (waiting ar) i"
    using take_swap_remove [of ?n "aa ar" i] assms by (simp add: waiting_def arr_ok_def)
  have "distinct (swap_remove (waiting ar) i)"
    using assms(2) length_waiting [OF assms(1)] assms(1)
    by (intro distinct_swap_remove) (simp_all add: arr_ok_def)
  with assms w n1 show ?thesis
    by (auto simp: delarray_def Let_def arr_ok_def waiting_def)
qed

lemma index_of_Some: "index_of x xs = Some i \<Longrightarrow> i < length xs \<and> xs ! i = x"
  by (induction xs arbitrary: i) (auto split: if_splits)

lemma index_of_in: "x \<in> set xs \<Longrightarrow> \<exists>i. index_of x xs = Some i"
  by (induction xs) auto

text \<open>The queue of side \<open>w\<close> of the channel at \<open>ch\<close>.\<close>

definition waitq :: "'a chanst_scheme \<Rightarrow> addr \<Rightarrow> side \<Rightarrow> aptr list" where
  "waitq s ch w = (case chans s ch of None \<Rightarrow> [] | Some c \<Rightarrow> waiting (side_get w c))"

definition chans_ok :: "'a chanst_scheme \<Rightarrow> bool" where
  "chans_ok s \<longleftrightarrow>
     (\<forall>ch c. chans s ch = Some c \<longrightarrow> ch_ok c \<and> arr_ok (asend c) \<and> arr_ok (arecv c))"

lemma chans_ok_side: "chans_ok s \<Longrightarrow> chans s ch = Some c \<Longrightarrow> arr_ok (side_get w c)"
  by (cases w) (auto simp: chans_ok_def)

text \<open>\<open>requeued s s'\<close>: nothing but the waiting arrays of channels changed.\<close>

definition same_buf :: "channel \<Rightarrow> channel \<Rightarrow> bool" where
  "same_buf c c' \<longleftrightarrow>
     bufsize c' = bufsize c \<and> elemsize c' = elemsize c \<and> buf c' = buf c \<and> nbuf c' = nbuf c \<and>
     coff c' = coff c \<and> cname c' = cname c"

definition requeued :: "'a chanst_scheme \<Rightarrow> 'a chanst_scheme \<Rightarrow> bool" where
  "requeued s s' \<longleftrightarrow>
     s' = s\<lparr>chans := chans s'\<rparr> \<and> (\<forall>ch. rel_option same_buf (chans s ch) (chans s' ch))"

lemma same_buf_refl [simp]: "same_buf c c"
  by (simp add: same_buf_def)

lemma requeued_refl [simp]: "requeued s s"
  by (simp add: requeued_def option.rel_refl)

lemma requeued_elim:
  assumes "requeued s s'"
  obtains cs where "s' = s\<lparr>chans := cs\<rparr>" "\<forall>ch. rel_option same_buf (chans s ch) (cs ch)"
  using assms unfolding requeued_def by blast

lemma requeued_trans [trans]:
  assumes "requeued s s'" "requeued s' s''"
  shows "requeued s s''"
proof -
  from assms(1) obtain cs where 1: "s' = s\<lparr>chans := cs\<rparr>" "\<forall>ch. rel_option same_buf (chans s ch) (cs ch)"
    by (rule requeued_elim)
  from assms(2) obtain ds where 2: "s'' = s'\<lparr>chans := ds\<rparr>" "\<forall>ch. rel_option same_buf (chans s' ch) (ds ch)"
    by (rule requeued_elim)
  have "rel_option same_buf (chans s ch) (ds ch)" for ch
    using 1(2) [rule_format, of ch] 2(2) [rule_format, of ch] 1(1)
    by (cases "chans s ch"; cases "cs ch"; cases "ds ch") (simp_all add: same_buf_def)
  with 1 2 show ?thesis by (simp add: requeued_def)
qed

lemma requeued_fields:
  assumes "requeued s s'"
  shows "alts s' = alts s" "mem s' = mem s" "realloc_fails s' = realloc_fails s"
    "rzl s' = rzl s" "heap s' = heap s" "tlists s' = tlists s" "taskrunning s' = taskrunning s"
  by (rule requeued_elim [OF assms], simp)+

lemma aget_cong: "alts s' = alts s \<Longrightarrow> aget p s' = aget p s"
  by (simp add: aget_def aarr_def)

lemma ch_ok_same: "same_buf c c' \<Longrightarrow> ch_ok c' = ch_ok c"
  by (simp add: ch_ok_def same_buf_def)

lemma elems_same: "same_buf c c' \<Longrightarrow> elems c' = elems c"
  by (simp add: elems_def same_buf_def slot_def)

text \<open>Replacing one array of one channel.\<close>

lemma set_side_runs:
  fixes w :: side
  assumes "chans_ok s" "chans s ch = Some c" "arr_ok ar"
  defines "s' \<equiv> s\<lparr>chans := (chans s)(ch \<mapsto> side_set w ar c)\<rparr>"
  shows "cset (Some ch) (side_set w ar c) s = Inr s'" "chans_ok s'" "requeued s s'"
    "waitq s' k v = (if k = ch \<and> v = w then waiting ar else waitq s k v)"
proof -
  have sb: "same_buf c (side_set w ar c)" by (cases w) (simp_all add: same_buf_def)
  show "cset (Some ch) (side_set w ar c) s = Inr s'" using assms by (simp add: cset_def)
  show "chans_ok s'"
    using assms ch_ok_same [OF sb] by (cases w) (auto simp: chans_ok_def)
  show "requeued s s'"
    using assms sb by (auto simp: requeued_def option.rel_refl)
  show "waitq s' k v = (if k = ch \<and> v = w then waiting ar else waitq s k v)"
    using assms by (cases w; cases v) (auto simp: waitq_def)
qed

lemma cget_Some [simp]: "chans s ch = Some c \<Longrightarrow> cget (Some ch) s = Inr c"
  by (simp add: cget_def)

lemma altdequeue_runs:
  assumes ok: "chans_ok s" and a: "aget p s = Inr a" "achan a = Some ch" "chanarray (aop a) = Some w"
    and p: "p \<in> set (waitq s ch w)"
  shows "runs (altdequeue p s) (\<lambda>s'. chans_ok s' \<and> requeued s s' \<and>
    (\<forall>k v. set (waitq s' k v) = (if k = ch \<and> v = w then set (waitq s k v) - {p} else set (waitq s k v))))"
proof -
  from p obtain c where c: "chans s ch = Some c" by (cases "chans s ch") (auto simp: waitq_def)
  let ?ar = "side_get w c"
  have ar: "arr_ok ?ar" using ok c by (rule chans_ok_side)
  have pw: "p \<in> set (waiting ?ar)" using p by (simp only: waitq_def c option.case)
  from index_of_in [OF this] obtain i where i: "index_of p (waiting ?ar) = Some i" ..
  from index_of_Some [OF this] length_waiting [OF ar] have lt: "i < unat (an ?ar)"
    and nth: "waiting ?ar ! i = p" by simp_all
  from delarray_runs [OF ar lt] obtain ar' where
    ar': "delarray ?ar i = Inr ar'" "arr_ok ar'" "waiting ar' = swap_remove (waiting ?ar) i"
    by (auto simp: runs_iff)
  have set': "set (waiting ar') = set (waitq s ch w) - {p}"
    using ar ar'(3) nth lt c set_swap_remove [of "waiting ?ar" i]
    by (simp add: length_waiting waitq_def) (simp add: arr_ok_def)
  note res = set_side_runs [OF ok c ar'(2), of w]
  have "altdequeue p s = Inr (s\<lparr>chans := (chans s)(ch \<mapsto> side_set w ar' c)\<rparr>)"
    using a c i ar ar'(1) res(1) by (simp add: altdequeue_def Let_def waiting_def arr_ok_def)
  with res(2-4) set' show ?thesis by simp
qed

subsection \<open>Taking a whole Alt array out of its queues\<close>

text \<open>\<open>queued_at s b i a\<close>: the entry \<open>a\<close> at \<open>(b, i)\<close> is a no-op or waits where it should.\<close>

definition queued_at :: "'a chanst_scheme \<Rightarrow> addr \<Rightarrow> nat \<Rightarrow> alt \<Rightarrow> bool" where
  "queued_at s b i a \<longleftrightarrow>
     aop a = CHANNOP \<or>
     (\<exists>ch w. achan a = Some ch \<and> chanarray (aop a) = Some w \<and> (b, i) \<in> set (waitq s ch w))"

text \<open>Entries wait only in the queue they name.\<close>

definition entry_ok :: "'a chanst_scheme \<Rightarrow> addr \<Rightarrow> side \<Rightarrow> aptr \<Rightarrow> bool" where
  "entry_ok s ch w p \<longleftrightarrow>
     (\<exists>as n. alts s (fst p) = Some as \<and> alt_end as = Some n \<and> snd p < n \<and>
        achan (as ! snd p) = Some ch \<and> chanarray (aop (as ! snd p)) = Some w)"

definition entries_ok :: "'a chanst_scheme \<Rightarrow> bool" where
  "entries_ok s \<longleftrightarrow> (\<forall>ch w. \<forall>p \<in> set (waitq s ch w). entry_ok s ch w p)"

lemma alt_end_bound: "alt_end as = Some n \<Longrightarrow> n < length as \<and> end_mark (as ! n) \<and> (\<forall>i < n. \<not> end_mark (as ! i))"
proof (induction as arbitrary: n)
  case (Cons a as)
  show ?case
  proof (cases "end_mark a")
    case False
    with Cons.prems obtain m where "alt_end as = Some m" "n = Suc m" by auto
    with Cons.IH [of m] False show ?thesis by (auto simp: less_Suc_eq_0_disj)
  qed (use Cons.prems in simp)
qed simp

lemma dequeue_from_runs:
  assumes "chans_ok s" "entries_ok s" "alts s b = Some full" "drop i full = as" "alt_end as = Some n"
    and "\<forall>k < n. queued_at s b (i + k) (as ! k)"
  shows "runs (dequeue_from b i as s) (\<lambda>s'. chans_ok s' \<and> entries_ok s' \<and> requeued s s' \<and>
    (\<forall>ch w. set (waitq s' ch w) = set (waitq s ch w) - {(b, i + k) | k. k < n}))"
  using assms
proof (induction as arbitrary: i s n)
  case (Cons a as)
  show ?case
  proof (cases "end_mark a")
    case True
    with Cons.prems show ?thesis by simp
  next
    case False
    with Cons.prems(5) obtain m where m: "alt_end as = Some m" "n = Suc m" by auto
    from Cons.prems(4) have d: "drop (i + 1) full = as" and nth: "full ! i = a" and i: "i < length full"
      by (metis Suc_eq_plus1 drop_Suc list.sel(3) tl_drop, metis nth_via_drop, metis drop_all list.distinct(1) not_le)
    have get: "aget (b, i) s = Inr a" using Cons.prems(3) nth i by (simp add: aget_def aarr_def)
    have split: "{(b, i + k) | k. k < n} = insert (b, i) {(b, i + 1 + k) | k. k < m}"
      using m(2) by (auto simp: less_Suc_eq_0_disj)
    have rest: "\<forall>k < m. queued_at s b (i + 1 + k) (as ! k)"
      using Cons.prems(6) m(2) by fastforce
    show ?thesis
    proof (cases "aop a = CHANNOP")
      case True
      then have "\<forall>ch w. (b, i) \<notin> set (waitq s ch w)"
        using Cons.prems(2,3) nth by (force simp: entries_ok_def entry_ok_def chanarray_def)
      with True False Cons.IH [OF Cons.prems(1-3) d m(1) rest] show ?thesis
        by (simp add: split)
    next
      case op: False
      with Cons.prems(6) m(2) have "queued_at s b i a" by force
      with op obtain ch w where w: "achan a = Some ch" "chanarray (aop a) = Some w"
        "(b, i) \<in> set (waitq s ch w)" by (auto simp: queued_at_def)
      from altdequeue_runs [OF Cons.prems(1) get w] obtain s1 where
        s1: "altdequeue (b, i) s = Inr s1" "chans_ok s1" "requeued s s1"
          "\<And>k v. set (waitq s1 k v) =
             (if k = ch \<and> v = w then set (waitq s k v) - {(b, i)} else set (waitq s k v))"
        by (auto simp: runs_iff)
      have only: "(b, i) \<notin> set (waitq s k v)" if "\<not> (k = ch \<and> v = w)" for k v
        using Cons.prems(2,3) nth that w by (force simp: entries_ok_def entry_ok_def)
      then have q: "set (waitq s1 k v) = set (waitq s k v) - {(b, i)}" for k v
        using s1(4) [of k v] by auto
      have e1: "entries_ok s1"
        using Cons.prems(2) q by (simp add: entries_ok_def entry_ok_def requeued_fields [OF s1(3)])
      have a1: "alts s1 b = Some full" using Cons.prems(3) by (simp add: requeued_fields [OF s1(3)])
      have r1: "\<forall>k < m. queued_at s1 b (i + 1 + k) (as ! k)"
        using rest q by (auto simp: queued_at_def)
      from Cons.IH [OF s1(2) e1 a1 d m(1) r1] obtain s2 where
        s2: "dequeue_from b (i + 1) as s1 = Inr s2" "chans_ok s2" "entries_ok s2" "requeued s1 s2"
          "\<forall>ch w. set (waitq s2 ch w) = set (waitq s1 ch w) - {(b, i + 1 + k) | k. k < m}"
        by (auto simp: runs_iff)
      with False op s1(1) requeued_trans [OF s1(3) s2(4)] show ?thesis
        by (auto simp: split q)
    qed
  qed
qed simp

lemma altalldequeue_runs:
  assumes "chans_ok s" "entries_ok s" "alts s b = Some as" "alt_end as = Some n"
    and "\<forall>i < n. queued_at s b i (as ! i)"
  shows "runs (altalldequeue (b, 0) s) (\<lambda>s'. chans_ok s' \<and> entries_ok s' \<and> requeued s s' \<and>
    (\<forall>ch w. set (waitq s' ch w) = {p \<in> set (waitq s ch w). fst p \<noteq> b}))"
proof -
  have "set (waitq s ch w) - {(b, k) | k. k < n} = {p \<in> set (waitq s ch w). fst p \<noteq> b}" for ch w
    using assms(2-4) by (force simp: entries_ok_def entry_ok_def)
  with dequeue_from_runs [OF assms(1-3), of 0 as n] assms(3-5) show ?thesis
    by (simp add: altalldequeue_def aarr_def)
qed

subsection \<open>Moving the data of an operation\<close>

text \<open>
  \<open>moved sv rv m c m' c'\<close>: the receiver \<open>rv\<close>, if there is one, got the oldest element, the element
  of the sender \<open>sv\<close>, if there is one, was appended. A sender that meets a receiver at an empty
  buffer hands its element over directly.
\<close>

definition moved ::
  "addr option option \<Rightarrow> addr option option \<Rightarrow> (addr \<Rightarrow> byte) \<Rightarrow> channel \<Rightarrow>
     (addr \<Rightarrow> byte) \<Rightarrow> channel \<Rightarrow> bool" where
  "moved sv rv m c m' c' \<longleftrightarrow>
     (\<exists>xs ys. xs @ elems c' = elems c @ ys \<and>
       (rv = None \<longrightarrow> xs = [] \<and> m' = m) \<and>
       (\<forall>w. rv = Some w \<longrightarrow> (\<exists>x. xs = [x] \<and> m' = vput m w x)) \<and>
       (sv = None \<longrightarrow> ys = []) \<and>
       (\<forall>v. sv = Some v \<longrightarrow> ys = [vval (if nbuf c = 0 then m else m') (unat (elemsize c)) v]))"

definition can_move :: "addr option option \<Rightarrow> addr option option \<Rightarrow> channel \<Rightarrow> bool" where
  "can_move sv rv c \<longleftrightarrow>
     (sv \<noteq> None \<and> rv = None \<longrightarrow> nbuf c < bufsize c) \<and> (sv = None \<and> rv \<noteq> None \<longrightarrow> 0 < nbuf c)"

lemma copy_moved:
  assumes ok: "ch_ok c" and can: "can_move sv rv c"
  shows "runs (copy sv rv (m, c)) (\<lambda>(m', c'). moved sv rv m c m' c' \<and> ch_ok c' \<and> same_chan c c')"
proof (cases sv)
  case None
  show ?thesis
  proof (cases rv)
    case None
    with \<open>sv = None\<close> ok show ?thesis by (simp add: copy_def moved_def same_chan_def)
  next
    case (Some w)
    with \<open>sv = None\<close> can have "0 < nbuf c" by (simp add: can_move_def)
    from copy_recv_runs [OF ok this, of w m] Some \<open>sv = None\<close> show ?thesis
      by (auto simp: copy_def moved_def runs_iff)
  qed
next
  case (Some v)
  show ?thesis
  proof (cases rv)
    case None
    with \<open>sv = Some v\<close> can have "nbuf c < bufsize c" by (simp add: can_move_def)
    from copy_send_runs [OF ok this, of v m] None \<open>sv = Some v\<close> show ?thesis
      by (auto simp: copy_def moved_def runs_iff)
  next
    case rv: (Some w)
    from copy_both_runs [OF ok, of v w m] obtain m' c' x y where xy:
      "copy (Some v) (Some w) (m, c) = Inr (m', c')" "m' = vput m w x" "x # elems c' = elems c @ [y]"
      "y = vval (if nbuf c = 0 then m else m') (unat (elemsize c)) v" "ch_ok c'" "same_chan c c'"
      unfolding runs_iff by blast
    have "moved sv rv m c m' c'"
      unfolding moved_def
      by (rule exI [of _ "[x]"], rule exI [of _ "[y]"]) (use Some rv xy in simp)
    with Some rv xy show ?thesis by simp
  qed
qed

text \<open>The \<open>v\<close> fields of the sender and of the receiver, when an entry of side \<open>w\<close> is executed.\<close>

fun ends :: "side \<Rightarrow> addr option \<Rightarrow> addr option option \<Rightarrow> addr option option \<times> addr option option" where
  "ends Asend v pv = (Some v, pv)"
| "ends Arecv v pv = (pv, Some v)"

fun flip :: "side \<Rightarrow> side" where
  "flip Asend = Arecv"
| "flip Arecv = Asend"

lemma chanarray_cases:
  assumes "chanarray op = Some w"
  obtains "w = Asend" "op = CHANSND" | "w = Arecv" "op = CHANRCV"
  using assms by (auto simp: chanarray_def split: if_splits)

lemma chanarray_otherop: "chanarray op = Some w \<Longrightarrow> chanarray (otherop op) = Some (flip w)"
  by (erule chanarray_cases) (simp_all add: chanarray_def otherop_def)

lemma altcopy_runs:
  assumes "aget p s = Inr a" "achan a = Some ch" "chanarray (aop a) = Some w" "chans s ch = Some c"
    and q: "q = None \<and> pv = None \<or>
      (\<exists>x oa. q = Some x \<and> aget x s = Inr oa \<and> chanarray (aop oa) = Some (flip w) \<and> pv = Some (av oa))"
  shows "altcopy (Some p) q s =
    bindR (copy (fst (ends w (av a) pv)) (snd (ends w (av a) pv)) (mem s, c)) (\<lambda>(m, c').
      Inr (s\<lparr>mem := m, chans := (chans s)(ch \<mapsto> c')\<rparr>))"
  using assms(3)
proof (cases rule: chanarray_cases)
  case 1
  then show ?thesis
    using assms by (auto simp: altcopy_def opt_aget_def cset_def Let_def elim!: chanarray_cases)
next
  case 2
  then show ?thesis
    using assms by (auto simp: altcopy_def opt_aget_def cset_def Let_def elim!: chanarray_cases)
qed

subsection \<open>The invariant\<close>

text \<open>The kernel does not see the fields of channels.\<close>

lemma kinv_chanst [simp]:
  "kinv (s\<lparr>chans := a\<rparr>) L = kinv s L" "kinv (s\<lparr>alts := b\<rparr>) L = kinv s L"
  "kinv (s\<lparr>mem := c\<rparr>) L = kinv s L"
  by (simp_all add: kinv_def ready_ok_def slots_ok_def)

lemma off_chanst [simp]:
  "off (s\<lparr>chans := a\<rparr>) L t = off s L t" "off (s\<lparr>alts := b\<rparr>) L t = off s L t"
  "off (s\<lparr>mem := c\<rparr>) L t = off s L t"
  by (simp_all add: off_def)

lemma stack_room_chanst [simp]:
  "stack_room n t (s\<lparr>chans := a\<rparr>) = stack_room n t s"
  "stack_room n t (s\<lparr>alts := b\<rparr>) = stack_room n t s"
  "stack_room n t (s\<lparr>mem := c\<rparr>) = stack_room n t s"
  by (simp_all add: stack_room_def)

lemma kframe_chanst:
  assumes "kframe s s'"
  shows "chans s' = chans s" "alts s' = alts s" "mem s' = mem s" "realloc_fails s' = realloc_fails s"
    "chanst.more s' = chanst.more s"
  by (rule kframe_elim [OF assms], simp)+

lemma kblock_chanst:
  assumes "kblock t f s s'"
  shows "chans s' = chans s" "alts s' = alts s" "mem s' = mem s" "realloc_fails s' = realloc_fails s"
    "chanst.more s' = chanst.more s"
  by (rule kblock_elim [OF assms], simp)+

text \<open>
  \<open>parked s L b as n t\<close>: task \<open>t\<close> is suspended in \<open>chanalt\<close> on the array \<open>as\<close> at \<open>b\<close>, each of the \<open>n\<close>
  operations of which waits in the queue of its channel, and \<open>t\<close> waits for nothing else.
\<close>

definition parked ::
  "'a chanst_scheme \<Rightarrow> (lref \<Rightarrow> addr list) \<Rightarrow> addr \<Rightarrow> alt list \<Rightarrow> nat \<Rightarrow> addr \<Rightarrow> bool" where
  "parked s L b as n t \<longleftrightarrow>
     alts s b = Some as \<and> alt_end as = Some n \<and>
     (\<forall>i < n. atask (as ! i) = Some t \<and> xalt (as ! i) = Some (b, 0) \<and> queued_at s b i (as ! i)) \<and>
     fld ctxt (heap s) t = Some (FAlt b) \<and> off s L t \<and> taskrunning s \<noteq> Some t"

definition blocked :: "'a chanst_scheme \<Rightarrow> addr \<Rightarrow> bool" where
  "blocked s b \<longleftrightarrow> (\<exists>ch w i. (b, i) \<in> set (waitq s ch w))"

definition alt_inv :: "'a chanst_scheme \<Rightarrow> (lref \<Rightarrow> addr list) \<Rightarrow> bool" where
  "alt_inv s L \<longleftrightarrow>
     chans_ok s \<and> entries_ok s \<and> (\<forall>b. blocked s b \<longrightarrow> (\<exists>as n t. parked s L b as n t))"

text \<open>
  The effect of executing an operation whose partner \<open>other\<close> waits, in an array with the contents
  \<open>as\<close>: the partner's operations are all taken out of their queues, its first entry points to the
  one that was executed, and its task is made ready.
\<close>

definition released ::
  "'a chanst_scheme \<Rightarrow> addr \<Rightarrow> channel \<Rightarrow> aptr \<Rightarrow> alt list \<Rightarrow> 'a chanst_scheme \<Rightarrow> bool" where
  "released s ch c' other as s' \<longleftrightarrow>
     chans_ok s' \<and> entries_ok s' \<and>
     (\<forall>k v. set (waitq s' k v) = {x \<in> set (waitq s k v). fst x \<noteq> fst other}) \<and>
     (\<forall>k. rel_option same_buf (((chans s)(ch \<mapsto> c')) k) (chans s' k)) \<and>
     alts s' = (alts s)(fst other \<mapsto> as[0 := (as ! 0)\<lparr>xalt := Some other\<rparr>]) \<and>
     kframe (s\<lparr>mem := mem s', chans := chans s', alts := alts s'\<rparr>) s'"

lemma parked_waiting:
  assumes "alt_inv s L" "x \<in> set (waitq s ch w)"
  obtains as n t where "parked s L (fst x) as n t" "snd x < n"
    "achan (as ! snd x) = Some ch" "chanarray (aop (as ! snd x)) = Some w"
proof -
  from assms have "blocked s (fst x)" unfolding blocked_def by (metis prod.collapse)
  with assms(1) obtain as n t where p: "parked s L (fst x) as n t" by (auto simp: alt_inv_def)
  from assms have "entry_ok s ch w x" by (auto simp: alt_inv_def entries_ok_def)
  with p have "snd x < n" "achan (as ! snd x) = Some ch" "chanarray (aop (as ! snd x)) = Some w"
    by (auto simp: entry_ok_def parked_def)
  with p that show thesis by blast
qed

lemma waitq_same_chan:
  "chans s ch = Some c \<Longrightarrow> same_chan c c' \<Longrightarrow>
     waitq (s\<lparr>mem := m, chans := (chans s)(ch \<mapsto> c')\<rparr>) k v = waitq s k v"
  by (cases v) (auto simp: waitq_def same_chan_def)

lemma moved_state:
  fixes m :: "addr \<Rightarrow> byte"
  assumes "chans_ok s" "entries_ok s" "chans s ch = Some c" "ch_ok c'" "same_chan c c'"
  defines "s1 \<equiv> s\<lparr>mem := m, chans := (chans s)(ch \<mapsto> c')\<rparr>"
  shows "chans_ok s1" "entries_ok s1" "waitq s1 k v = waitq s k v"
    "queued_at s1 b i a = queued_at s b i a"
proof -
  show w: "waitq s1 k v = waitq s k v" for k v
    using assms(3,5) by (simp add: s1_def waitq_same_chan)
  show "chans_ok s1"
    using assms(1,3-5) by (auto simp: s1_def chans_ok_def same_chan_def)
  show "entries_ok s1"
    using assms(2) by (simp add: entries_ok_def w) (simp add: entry_ok_def s1_def)
  show "queued_at s1 b i a = queued_at s b i a" by (simp add: queued_at_def w)
qed

lemma altexec_alone:
  assumes "chans_ok s" "aget p s = Inr a" "achan a = Some ch" "chanarray (aop a) = Some w"
    "chans s ch = Some c" "waitq s ch (flip w) = []"
  shows "altexec r p s = altcopy (Some p) None s"
proof -
  have "an (side_get (flip w) c) = 0"
    using assms(5,6) waiting_empty [OF chans_ok_side [OF assms(1,5)]] by (simp add: waitq_def)
  with assms show ?thesis by (simp add: altexec_def chanarray_otherop)
qed

lemma altexec_partner:
  assumes k: "kinv s L" and inv: "alt_inv s L" and a: "aget p s = Inr a" "achan a = Some ch"
      "chanarray (aop a) = Some w" and c: "chans s ch = Some c"
    and q: "waitq s ch (flip w) \<noteq> []"
    and other: "other = waitq s ch (flip w) ! (r mod length (waitq s ch (flip w)))"
    and par: "parked s L (fst other) as n t"
  shows "\<exists>c' s'. altexec r p s = Inr s' \<and> kinv s' (L(RunQueue := L RunQueue @ [t])) \<and>
    moved (fst (ends w (av a) (Some (av (as ! snd other)))))
      (snd (ends w (av a) (Some (av (as ! snd other))))) (mem s) c (mem s') c' \<and>
    same_chan c c' \<and> released s ch c' other as s'"
proof -
  let ?ar = "side_get (flip w) c" and ?b = "fst other" and ?oa = "as ! snd other"
  let ?e = "ends w (av a) (Some (av ?oa))"
  from inv have ok: "chans_ok s" and en: "entries_ok s" by (simp_all add: alt_inv_def)
  have ar: "arr_ok ?ar" using ok c by (rule chans_ok_side)
  have wq: "waitq s ch (flip w) = waiting ?ar" using c by (simp add: waitq_def)
  with q ar have n0: "an ?ar \<noteq> 0" and pos: "0 < unat (an ?ar)"
    by (simp_all add: waiting_empty unat_gt_0)
  have lt: "r mod unat (an ?ar) < length (aa ?ar)"
    using ar pos by (metis arr_ok_def mod_less_divisor less_le_trans)
  have nth: "aa ?ar ! (r mod unat (an ?ar)) = other"
    using other wq length_waiting [OF ar] pos by (simp add: waiting_def)
  have mem: "other \<in> set (waitq s ch (flip w))"
    using other q by (simp add: nth_mem)
  then obtain "snd other < n" "achan ?oa = Some ch" "chanarray (aop ?oa) = Some (flip w)"
    using parked_waiting [OF inv mem] par unfolding parked_def by (metis option.inject)
  note o' = this
  from par have as: "alts s ?b = Some as" "alt_end as = Some n"
    and at: "atask ?oa = Some t" "xalt ?oa = Some (?b, 0)"
    and qa: "\<forall>i < n. queued_at s ?b i (as ! i)" and off: "off s L t"
    using o'(1) by (simp_all add: parked_def)
  from alt_end_bound [OF as(2)] o'(1) have len: "snd other < length as" "0 < length as" by auto
  have oget: "aget other s = Inr ?oa" using as len by (simp add: aget_def aarr_def)
  have "ch_ok c" using ok c by (simp add: chans_ok_def)
  moreover have "can_move (fst ?e) (snd ?e) c" by (cases w) (simp_all add: can_move_def)
  ultimately obtain m' c' where cp: "copy (fst ?e) (snd ?e) (mem s, c) = Inr (m', c')"
    "moved (fst ?e) (snd ?e) (mem s) c m' c'" "ch_ok c'" "same_chan c c'"
    using copy_moved [of c "fst ?e" "snd ?e" "mem s"] by (auto simp: runs_iff)
  let ?s1 = "s\<lparr>mem := m', chans := (chans s)(ch \<mapsto> c')\<rparr>"
  note st = moved_state [OF ok en c cp(3,4), of m']
  have ac: "altcopy (Some p) (Some other) s = Inr ?s1"
    using altcopy_runs [OF a c, of "Some other" "Some (av ?oa)"] oget o'(3) cp(1) by simp
  have "alts ?s1 ?b = Some as" "\<forall>i < n. queued_at ?s1 ?b i (as ! i)"
    using as(1) qa st(4) by simp_all
  from altalldequeue_runs [OF st(1,2) this(1) as(2) this(2)] obtain s2 where
    s2: "altalldequeue (?b, 0) ?s1 = Inr s2" "chans_ok s2" "entries_ok s2" "requeued ?s1 s2"
      "\<forall>ch w. set (waitq s2 ch w) = {x \<in> set (waitq s ch w). fst x \<noteq> ?b}"
    by (auto simp: runs_iff st(3))
  let ?as' = "as[0 := (as ! 0)\<lparr>xalt := Some other\<rparr>]"
  let ?s3 = "s2\<lparr>alts := (alts s2)(?b \<mapsto> ?as')\<rparr>"
  have aset: "aset (?b, 0) (\<lambda>xa. xa\<lparr>xalt := Some other\<rparr>) s2 = Inr ?s3"
    using as(1) len by (simp add: aset_def aarr_def requeued_fields [OF s2(4)])
  obtain cs where s2eq: "s2 = ?s1\<lparr>chans := cs\<rparr>" "\<forall>k. rel_option same_buf (chans ?s1 k) (cs k)"
    by (rule requeued_elim [OF s2(4)])
  have "kinv ?s3 L" "off ?s3 L t" using k off by (simp_all add: s2eq(1))
  from taskready_kinv [OF this] obtain s4 where
    s4: "taskready t ?s3 = Inr s4" "kinv s4 (L(RunQueue := L RunQueue @ [t]))" "kframe ?s3 s4"
    by (auto simp: runs_iff)
  note f4 = kframe_chanst [OF s4(3)]
  have w4: "waitq s4 k v = waitq s2 k v" for k v by (simp add: waitq_def f4)
  have "altexec r p s = Inr s4"
    using a c n0 lt nth ac s2(1) aset s4(1) at oget
    by (simp add: altexec_def chanarray_otherop aget_cong [of s2 s] requeued_fields [OF s2(4)]
        aget_cong [of ?s1 s])
  moreover have "released s ch c' other as s4"
  proof -
    have "kframe (s\<lparr>mem := mem s4, chans := chans s4, alts := alts s4\<rparr>) s4"
      using s4(3) f4 by (simp add: s2eq(1))
    moreover have "chans_ok s4" using s2(2) by (simp add: chans_ok_def f4)
    moreover have "entry_ok s4 k v x" if "x \<in> set (waitq s2 k v)" for k v x
      using that s2(3,5) by (auto simp: entries_ok_def entry_ok_def f4)
    then have "entries_ok s4" by (simp add: entries_ok_def w4)
    ultimately show ?thesis
      using s2(5) s2eq(2) by (simp add: released_def w4 f4 s2eq(1))
  qed
  moreover have "mem s4 = m'" by (simp add: f4 s2eq(1))
  ultimately show ?thesis using s4(2) cp(2,4) by blast
qed

subsection \<open>The invariant is kept by executing\<close>

lemma alt_inv_moved:
  assumes "alt_inv s L" "chans s ch = Some c" "ch_ok c'" "same_chan c c'"
  shows "alt_inv (s\<lparr>mem := m, chans := (chans s)(ch \<mapsto> c')\<rparr>) L"
proof -
  from assms(1) have "chans_ok s" "entries_ok s" by (simp_all add: alt_inv_def)
  note st = moved_state [OF this assms(2-4), of m]
  have "parked (s\<lparr>mem := m, chans := (chans s)(ch \<mapsto> c')\<rparr>) L b as n t = parked s L b as n t" for b as n t
    by (simp add: parked_def st(4))
  moreover have "blocked (s\<lparr>mem := m, chans := (chans s)(ch \<mapsto> c')\<rparr>) b = blocked s b" for b
    by (simp add: blocked_def st(3))
  ultimately show ?thesis
    using assms(1) by (simp add: alt_inv_def st(1,2))
qed

lemma alt_inv_released:
  assumes inv: "alt_inv s L" and par: "parked s L (fst other) as n t"
    and rel: "released s ch c' other as s'"
  shows "alt_inv s' (L(RunQueue := L RunQueue @ [t]))"
proof -
  let ?s = "s\<lparr>mem := mem s', chans := chans s', alts := alts s'\<rparr>"
  from rel have fr: "kframe ?s s'" and al: "alts s' = (alts s)(fst other \<mapsto> as[0 := (as ! 0)\<lparr>xalt := Some other\<rparr>])"
    and wq: "\<And>k v. set (waitq s' k v) = {x \<in> set (waitq s k v). fst x \<noteq> fst other}"
    and ok: "chans_ok s'" "entries_ok s'"
    unfolding released_def by blast+
  have "\<exists>as' n' t'. parked s' (L(RunQueue := L RunQueue @ [t])) b as' n' t'" if "blocked s' b" for b
  proof -
    from that wq have nb: "b \<noteq> fst other" and "blocked s b" by (auto simp: blocked_def)
    with inv obtain as' n' t' where p: "parked s L b as' n' t'" by (auto simp: alt_inv_def)
    with par nb have "t' \<noteq> t" by (auto simp: parked_def)
    with p have "off s' (L(RunQueue := L RunQueue @ [t])) t'"
      using kframe_dom [OF fr] by (auto simp: parked_def off_def)
    moreover have "queued_at s' b i a" if "queued_at s b i a" for i a
      using that nb by (auto simp: queued_at_def wq)
    moreover have "fld ctxt (heap s') = fld ctxt (heap s)" using ctxt_frame [OF fr] by simp
    moreover have "taskrunning s' = taskrunning s" using kframe_fields(4) [OF fr] by simp
    ultimately have "parked s' (L(RunQueue := L RunQueue @ [t])) b as' n' t'"
      using p nb by (simp add: parked_def al)
    then show ?thesis by blast
  qed
  with ok show ?thesis by (simp add: alt_inv_def)
qed

text \<open>
  \<open>balanced s\<close>: nobody waits without need. A sender waits only on a full buffer, a receiver only
  on an empty one; without a buffer, the two queues of a channel are not both in use, except by one
  task that offers to do either.
\<close>

definition chan_balanced :: "'a chanst_scheme \<Rightarrow> addr \<Rightarrow> channel \<Rightarrow> bool" where
  "chan_balanced s ch c \<longleftrightarrow>
     (bufsize c \<noteq> 0 \<longrightarrow> (waitq s ch Asend \<noteq> [] \<longrightarrow> nbuf c = bufsize c) \<and>
        (waitq s ch Arecv \<noteq> [] \<longrightarrow> nbuf c = 0)) \<and>
     (bufsize c = 0 \<longrightarrow>
        (\<forall>x \<in> set (waitq s ch Asend). \<forall>y \<in> set (waitq s ch Arecv). fst x = fst y))"

definition balanced :: "'a chanst_scheme \<Rightarrow> bool" where
  "balanced s \<longleftrightarrow> (\<forall>ch c. chans s ch = Some c \<longrightarrow> chan_balanced s ch c)"

lemma chan_balanced_mono:
  assumes "chan_balanced s ch c" "bufsize c' = bufsize c" "nbuf c' = nbuf c"
    and sub: "\<And>x. set (waitq s' ch x) \<subseteq> set (waitq s ch x)"
  shows "chan_balanced s' ch c'"
proof -
  have "waitq s' ch x \<noteq> [] \<longrightarrow> waitq s ch x \<noteq> []" for x using sub [of x] by auto
  moreover have "\<forall>x \<in> set (waitq s' ch Asend). x \<in> set (waitq s ch Asend)"
    "\<forall>x \<in> set (waitq s' ch Arecv). x \<in> set (waitq s ch Arecv)" using sub by blast+
  ultimately show ?thesis
    using assms(1) unfolding chan_balanced_def assms(2,3) by blast
qed

text \<open>Whether an operation of side \<open>w\<close> on the channel \<open>c\<close> at \<open>ch\<close> can proceed.\<close>

definition can_exec :: "'a chanst_scheme \<Rightarrow> addr \<Rightarrow> channel \<Rightarrow> side \<Rightarrow> bool" where
  "can_exec s ch c w \<longleftrightarrow>
     (if bufsize c = 0 then waitq s ch (flip w) \<noteq> []
      else if w = Asend then nbuf c < bufsize c else 0 < nbuf c)"

lemma altcanexec_runs:
  assumes "chans_ok s" "aget p s = Inr a" "achan a = Some ch" "chanarray (aop a) = Some w"
    "chans s ch = Some c"
  shows "altcanexec p s = Inr (can_exec s ch c w)"
proof -
  have "waitq s ch (flip w) = [] \<longleftrightarrow> an (side_get (flip w) c) = 0"
    using assms(5) waiting_empty [OF chans_ok_side [OF assms(1,5)]] by (simp add: waitq_def)
  with assms(4) show ?thesis
    using assms(2,3,5) chanarray_otherop [OF assms(4)]
    by (elim chanarray_cases) (auto simp: altcanexec_def can_exec_def chanarray_def)
qed

lemma altcanexec_nop: "aget p s = Inr a \<Longrightarrow> aop a = CHANNOP \<Longrightarrow> altcanexec p s = Inr False"
  by (simp add: altcanexec_def)

lemma moved_length:
  assumes "moved sv rv m c m' c'"
  shows "unat (nbuf c') + (if rv = None then 0 else 1) = unat (nbuf c) + (if sv = None then 0 else 1)"
  using assms unfolding moved_def
  by (cases rv; cases sv) (auto dest: arg_cong [of _ _ length])

text \<open>With nobody waiting on the other side.\<close>

lemma altexec_alone_runs:
  assumes inv: "alt_inv s L" and bal: "balanced s" and a: "aget p s = Inr a" "achan a = Some ch"
      "chanarray (aop a) = Some w" and c: "chans s ch = Some c"
    and q: "waitq s ch (flip w) = []" and can: "can_exec s ch c w"
  shows "\<exists>m' c'. altexec r p s = Inr (s\<lparr>mem := m', chans := (chans s)(ch \<mapsto> c')\<rparr>) \<and>
    moved (fst (ends w (av a) None)) (snd (ends w (av a) None)) (mem s) c m' c' \<and>
    ch_ok c' \<and> same_chan c c' \<and> alt_inv (s\<lparr>mem := m', chans := (chans s)(ch \<mapsto> c')\<rparr>) L \<and>
    balanced (s\<lparr>mem := m', chans := (chans s)(ch \<mapsto> c')\<rparr>)"
proof -
  let ?e = "ends w (av a) None"
  from inv c have ok: "ch_ok c" and cs: "chans_ok s" by (auto simp: alt_inv_def chans_ok_def)
  from q can have b: "bufsize c \<noteq> 0" by (auto simp: can_exec_def)
  have "can_move (fst ?e) (snd ?e) c"
    using can b by (cases w) (simp_all add: can_move_def can_exec_def)
  from copy_moved [OF ok this, of "mem s"] obtain m' c' where
    cp: "copy (fst ?e) (snd ?e) (mem s, c) = Inr (m', c')"
    "moved (fst ?e) (snd ?e) (mem s) c m' c'" "ch_ok c'" "same_chan c c'"
    by (auto simp: runs_iff)
  have "altexec r p s = Inr (s\<lparr>mem := m', chans := (chans s)(ch \<mapsto> c')\<rparr>)"
    using altexec_alone [OF cs a c q] altcopy_runs [OF a c, of None None] cp(1) by simp
  moreover have "waitq s ch Asend \<noteq> [] \<longrightarrow> nbuf c = bufsize c" "waitq s ch Arecv \<noteq> [] \<longrightarrow> nbuf c = 0"
    using bal c b by (auto simp: balanced_def chan_balanced_def)
  with can b have "waitq s ch w = []" by (cases w) (auto simp: can_exec_def)
  then have "waitq s ch v = []" for v using q by (cases v; cases w) simp_all
  then have "balanced (s\<lparr>mem := m', chans := (chans s)(ch \<mapsto> c')\<rparr>)"
    using bal waitq_same_chan [OF c cp(4), of m'] by (auto simp: balanced_def chan_balanced_def)
  ultimately show ?thesis using cp alt_inv_moved [OF inv c cp(3,4)] by blast
qed

text \<open>With a partner, the queues only get shorter and the buffer keeps its length.\<close>

lemma balanced_released:
  assumes bal: "balanced s" and c: "chans s ch = Some c" and rel: "released s ch c' other as s'"
    and mv: "moved (Some v) (Some u) m c m' c'" and sc: "same_chan c c'"
  shows "balanced s'"
proof -
  have n: "nbuf c' = nbuf c" using moved_length [OF mv] by (simp add: word_unat_eq_iff)
  have sub: "set (waitq s' k x) \<subseteq> set (waitq s k x)" for k x using rel by (auto simp: released_def)
  have sz: "\<exists>d. chans s k = Some d \<and> bufsize d = bufsize d' \<and> nbuf d = nbuf d'"
    if "chans s' k = Some d'" for k d'
  proof -
    from rel have "rel_option same_buf (((chans s)(ch \<mapsto> c')) k) (Some d')"
      using that by (metis released_def)
    then obtain e where "((chans s)(ch \<mapsto> c')) k = Some e" "same_buf e d'" by (auto simp: rel_option_iff split: option.splits)
    with c n sc show ?thesis by (cases "k = ch") (auto simp: same_buf_def same_chan_def)
  qed
  show ?thesis
    unfolding balanced_def
  proof (intro allI impI)
    fix k d' assume "chans s' k = Some d'"
    from sz [OF this] obtain d where
      d: "chans s k = Some d" "bufsize d' = bufsize d" "nbuf d' = nbuf d" by auto
    with bal have "chan_balanced s k d" by (simp add: balanced_def)
    then show "chan_balanced s' k d'" using d(2,3) sub by (rule chan_balanced_mono)
  qed
qed

end
