(* ===== verification/ChanAlt.thy ===== *)
theory ChanAlt
  imports ChanSync
begin

text \<open>
  \<open>chanalt\<close>: which operation it executes, when it refuses and when it waits, and that it keeps the
  invariants of the kernel and of the channels on each of these paths.
\<close>

subsection \<open>Choosing an operation\<close>

definition op_ready :: "'a chanst_scheme \<Rightarrow> alt \<Rightarrow> bool" where
  "op_ready s a \<longleftrightarrow>
     (\<exists>ch w c. achan a = Some ch \<and> chanarray (aop a) = Some w \<and> chans s ch = Some c \<and>
        can_exec s ch c w)"

definition op_valid :: "'a chanst_scheme \<Rightarrow> alt \<Rightarrow> bool" where
  "op_valid s a \<longleftrightarrow>
     aop a = CHANNOP \<or>
     (\<exists>ch w c. achan a = Some ch \<and> chanarray (aop a) = Some w \<and> chans s ch = Some c)"

lemma altcanexec_ready:
  assumes "chans_ok s" "aget p s = Inr a" "op_valid s a"
  shows "altcanexec p s = Inr (op_ready s a)"
proof (cases "aop a = CHANNOP")
  case True
  then have "\<not> op_ready s a" by (simp add: op_ready_def chanarray_def)
  with True assms(2) show ?thesis by (simp add: altcanexec_nop)
next
  case False
  with assms(3) obtain ch w c where "achan a = Some ch" "chanarray (aop a) = Some w" "chans s ch = Some c"
    by (auto simp: op_valid_def)
  with altcanexec_runs [OF assms(1,2) this] show ?thesis by (simp add: op_ready_def)
qed

lemma count_can_filter:
  "\<forall>i < n. altcanexec (b, j + i) s = Inr (P (j + i)) \<Longrightarrow>
     count_can b j n s = Inr (length (filter P [j..<j + n]))"
proof (induction n arbitrary: j)
  case (Suc n)
  from Suc.prems have "altcanexec (b, j) s = Inr (P j)" by (metis add_0_right zero_less_Suc)
  moreover have "\<forall>i < n. altcanexec (b, j + 1 + i) s = Inr (P (j + 1 + i))"
    using Suc.prems by (metis Suc_less_eq add.assoc plus_1_eq_Suc)
  moreover have "[j..<j + Suc n] = j # [j + 1..<j + 1 + n]" by (simp add: upt_conv_Cons)
  ultimately show ?case using Suc.IH [of "j + 1"] by simp
qed simp

lemma nth_can_filter:
  "\<forall>i < n. altcanexec (b, j + i) s = Inr (P (j + i)) \<Longrightarrow> F = filter P [j..<j + n] \<Longrightarrow>
     nth_can b j n k s = Inr (if k < length F then Some (F ! k) else None)"
proof (induction n arbitrary: j k F)
  case (Suc n)
  from Suc.prems(1) have "altcanexec (b, j) s = Inr (P j)" by (metis add_0_right zero_less_Suc)
  moreover have 1: "\<forall>i < n. altcanexec (b, j + 1 + i) s = Inr (P (j + 1 + i))"
    using Suc.prems(1) by (metis Suc_less_eq add.assoc plus_1_eq_Suc)
  moreover have "[j..<j + Suc n] = j # [j + 1..<j + 1 + n]" by (simp add: upt_conv_Cons)
  ultimately show ?case using Suc.IH [OF 1 refl] Suc.prems(2) by (cases k) simp_all
qed simp

text \<open>The array after the loop that notes the task, and the indices of the operations that can proceed.\<close>

definition prepared :: "addr \<Rightarrow> addr option \<Rightarrow> alt list \<Rightarrow> nat \<Rightarrow> alt list" where
  "prepared b t as n = map (\<lambda>a. a\<lparr>atask := t, xalt := Some (b, 0)\<rparr>) (take n as) @ drop n as"

definition ready_ops :: "'a chanst_scheme \<Rightarrow> alt list \<Rightarrow> nat \<Rightarrow> nat list" where
  "ready_ops s as n = filter (\<lambda>i. op_ready s (as ! i)) [0..<n]"

lemma length_prepared [simp]: "length (prepared b t as n) = length as"
  by (simp add: prepared_def min_def)

lemma nth_prepared:
  "n \<le> length as \<Longrightarrow> i < length as \<Longrightarrow>
     prepared b t as n ! i = (if i < n then (as ! i)\<lparr>atask := t, xalt := Some (b, 0)\<rparr> else as ! i)"
  by (simp add: prepared_def nth_append min_def)

lemma alt_end_map:
  "(\<forall>a. aop (f a) = aop a) \<Longrightarrow> n \<le> length as \<Longrightarrow> alt_end (map f (take n as) @ drop n as) = alt_end as"
proof (induction as arbitrary: n)
  case (Cons a as)
  then show ?case by (cases n) (simp_all add: end_mark_def)
qed simp

lemma alt_end_prepared: "n \<le> length as \<Longrightarrow> alt_end (prepared b t as n) = alt_end as"
  by (simp add: prepared_def alt_end_map)

lemma waitq_cong: "chans s' = chans s \<Longrightarrow> waitq s' ch w = waitq s ch w"
  by (simp add: waitq_def)

lemma op_ready_cong:
  assumes "chans s' = chans s" "achan a' = achan a" "aop a' = aop a"
  shows "op_ready s' a' = op_ready s a"
proof -
  have "can_exec s' ch c w = can_exec s ch c w" for ch c w
    using waitq_cong [OF assms(1)] by (simp add: can_exec_def)
  with assms show ?thesis by (simp add: op_ready_def)
qed

text \<open>A call by task \<open>t\<close> of \<open>chanalt\<close> on the array \<open>as\<close> at \<open>b\<close>, which nobody is waiting on.\<close>

definition alt_call ::
  "'a chanst_scheme \<Rightarrow> (lref \<Rightarrow> addr list) \<Rightarrow> addr \<Rightarrow> addr \<Rightarrow> alt list \<Rightarrow> nat \<Rightarrow> bool" where
  "alt_call s L t b as n \<longleftrightarrow>
     kinv s L \<and> alt_inv s L \<and> balanced s \<and> stack_room 512 t s \<and> \<not> blocked s b \<and>
     alts s b = Some as \<and> alt_end as = Some n \<and> (\<forall>i < n. op_valid s (as ! i))"

definition noted :: "'a chanst_scheme \<Rightarrow> addr \<Rightarrow> addr \<Rightarrow> alt list \<Rightarrow> nat \<Rightarrow> 'a chanst_scheme" where
  "noted s t b as n = s\<lparr>alts := (alts s)(b \<mapsto> prepared b (Some t) as n)\<rparr>"

lemma noted_simps [simp]:
  "chans (noted s t b as n) = chans s" "mem (noted s t b as n) = mem s"
  "heap (noted s t b as n) = heap s" "taskrunning (noted s t b as n) = taskrunning s"
  "realloc_fails (noted s t b as n) = realloc_fails s"
  "alts (noted s t b as n) = (alts s)(b \<mapsto> prepared b (Some t) as n)"
  "kinv (noted s t b as n) L = kinv s L" "off (noted s t b as n) L u = off s L u"
  "stack_room k u (noted s t b as n) = stack_room k u s"
  "waitq (noted s t b as n) ch w = waitq s ch w" "balanced (noted s t b as n) = balanced s"
  "can_exec (noted s t b as n) ch c w = can_exec s ch c w"
  by (simp_all add: noted_def waitq_def balanced_def chan_balanced_def can_exec_def)

text \<open>An array that nobody waits on can be written, created or dropped.\<close>

lemma alt_inv_free:
  assumes "alt_inv s L" "\<not> blocked s b"
  shows "alt_inv (s\<lparr>alts := (alts s)(b := x)\<rparr>) L"
proof -
  let ?s = "s\<lparr>alts := (alts s)(b := x)\<rparr>"
  have wq: "waitq ?s d v = waitq s d v" for d v by (rule waitq_cong) simp
  have bl: "blocked ?s d = blocked s d" for d by (simp add: blocked_def wq)
  have "chans_ok ?s" using assms(1) by (simp add: alt_inv_def chans_ok_def)
  moreover have "entries_ok ?s"
    using assms by (auto simp: alt_inv_def entries_ok_def entry_ok_def blocked_def wq)
  moreover have "parked ?s L d ds m u = parked s L d ds m u" if "d \<noteq> b" for d ds m u
    using that by (simp add: parked_def queued_at_def wq)
  then have "\<exists>ds m u. parked ?s L d ds m u" if "blocked s d" for d
    using assms that by (metis alt_inv_def)
  ultimately show ?thesis by (simp add: alt_inv_def bl)
qed

lemma alt_inv_noted: "alt_inv s L \<Longrightarrow> \<not> blocked s b \<Longrightarrow> alt_inv (noted s t b as n) L"
  unfolding noted_def by (rule alt_inv_free)

lemma alt_call_end: "alt_call s L t b as n \<Longrightarrow> n < length as"
  using alt_end_bound [of as n] by (simp add: alt_call_def)

lemma aget_noted:
  assumes "n < length as" "i < n"
  shows "aget (b, i) (noted s t b as n) = Inr ((as ! i)\<lparr>atask := Some t, xalt := Some (b, 0)\<rparr>)"
  using assms by (simp add: aget_def aarr_def nth_prepared)

lemma chanalt_paths:
  assumes call: "alt_call s L t b as n"
  defines "s0 \<equiv> noted s t b as n" and "F \<equiv> ready_ops s as n"
  shows "F \<noteq> [] \<Longrightarrow> chanalt b r1 r2 s =
      bindC (altexec r2 (b, F ! (r1 mod length F)) s0) (Done (int (F ! (r1 mod length F))))"
    and "F = [] \<Longrightarrow> aop (as ! n) \<noteq> CHANEND \<Longrightarrow> chanalt b r1 r2 s = Done (-1) s0"
    and "F = [] \<Longrightarrow> aop (as ! n) = CHANEND \<Longrightarrow> chanalt b r1 r2 s =
      blocks (bindR (queue_all b 0 (take n (prepared b (Some t) as n)) s0) (taskswitch (FAlt b)))"
proof -
  from call have inv: "alt_inv s L" and room: "stack_room 512 t s" and nb: "\<not> blocked s b"
    and as: "alts s b = Some as" "alt_end as = Some n" and valid: "\<forall>i < n. op_valid s (as ! i)"
    by (simp_all add: alt_call_def)
  from alt_call_end [OF call] have n: "n < length as" .
  have run: "taskrunning s = Some t" using room by (simp add: stack_room_def)
  have ok: "chans_ok s0" using alt_inv_noted [OF inv nb] by (simp add: s0_def alt_inv_def)
  have "altcanexec (b, 0 + i) s0 = Inr (op_ready s (as ! (0 + i)))" if i: "i < n" for i
  proof -
    let ?a = "(as ! i)\<lparr>atask := Some t, xalt := Some (b, 0)\<rparr>"
    have "op_valid s0 ?a" using valid i by (simp add: op_valid_def s0_def)
    with altcanexec_ready [OF ok] aget_noted [OF n i, where s = s and t = t and b = b]
    have "altcanexec (b, i) s0 = Inr (op_ready s0 ?a)" by (simp add: s0_def)
    moreover have "op_ready s0 ?a = op_ready s (as ! i)"
      by (rule op_ready_cong) (simp_all add: s0_def)
    ultimately show ?thesis by (simp add: s0_def)
  qed
  then have can: "\<forall>i < n. altcanexec (b, 0 + i) s0 = Inr (op_ready s (as ! (0 + i)))" by blast
  have F: "F = filter (\<lambda>i. op_ready s (as ! i)) [0..<0 + n]" by (simp add: F_def ready_ops_def)
  have cnt: "count_can b 0 n s0 = Inr (length F)"
    using count_can_filter [of n b 0 s0 "\<lambda>i. op_ready s (as ! i)", OF can] by (simp only: F)
  have nth: "nth_can b 0 n k s0 = Inr (if k < length F then Some (F ! k) else None)" for k
    using nth_can_filter [of n b 0 s0 "\<lambda>i. op_ready s (as ! i)", OF can F] .
  note need = needstack_ok [OF room]
  have eq: "s\<lparr>alts := (alts s)(b \<mapsto> map (\<lambda>a. a\<lparr>atask := Some t, xalt := Some (b, 0)\<rparr>) (take n as) @ drop n as)\<rparr> = s0"
    by (simp add: s0_def noted_def prepared_def)
  have tk: "take n (map (\<lambda>a. a\<lparr>atask := Some t, xalt := Some (b, 0)\<rparr>) (take n as) @ drop n as) =
      take n (prepared b (Some t) as n)" by (simp add: prepared_def)
  have main: "chanalt b r1 r2 s =
      bindC (if length F \<noteq> 0 then nth_can b 0 n (r1 mod length F) s0 else Inr None) (\<lambda>pick.
        case pick of
          Some i \<Rightarrow> bindC (altexec r2 (b, i) s0) (\<lambda>s. Done (int i) s)
        | None \<Rightarrow>
            if aop (as ! n) \<noteq> CHANEND then Done (-1) s0
            else blocks (bindR (queue_all b 0 (take n (prepared b (Some t) as n)) s0) (taskswitch (FAlt b))))"
    unfolding chanalt_def need aarr_def as option.case bindC.simps Let_def run eq cnt tk by (rule refl)
  show "F \<noteq> [] \<Longrightarrow> chanalt b r1 r2 s =
      bindC (altexec r2 (b, F ! (r1 mod length F)) s0) (Done (int (F ! (r1 mod length F))))"
    unfolding main by (simp add: nth)
  show "F = [] \<Longrightarrow> aop (as ! n) \<noteq> CHANEND \<Longrightarrow> chanalt b r1 r2 s = Done (-1) s0"
    unfolding main by simp
  show "F = [] \<Longrightarrow> aop (as ! n) = CHANEND \<Longrightarrow> chanalt b r1 r2 s =
      blocks (bindR (queue_all b 0 (take n (prepared b (Some t) as n)) s0) (taskswitch (FAlt b)))"
    unfolding main by simp
qed

subsection \<open>Executing\<close>

text \<open>
  \<open>performed s L a ch w c s' L'\<close>: the operation \<open>a\<close> of side \<open>w\<close> on the channel \<open>c\<close> at \<open>ch\<close> has been
  carried out, with the buffer alone or with a partner that was waiting.
\<close>

definition performed ::
  "'a chanst_scheme \<Rightarrow> (lref \<Rightarrow> addr list) \<Rightarrow> alt \<Rightarrow> addr \<Rightarrow> side \<Rightarrow> channel \<Rightarrow>
     'a chanst_scheme \<Rightarrow> (lref \<Rightarrow> addr list) \<Rightarrow> bool" where
  "performed s L a ch w c s' L' \<longleftrightarrow>
     (waitq s ch (flip w) = [] \<and> L' = L \<and>
      (\<exists>c'. s' = s\<lparr>mem := mem s', chans := (chans s)(ch \<mapsto> c')\<rparr> \<and> same_chan c c' \<and>
         moved (fst (ends w (av a) None)) (snd (ends w (av a) None)) (mem s) c (mem s') c')) \<or>
     (\<exists>other as n t c'. other \<in> set (waitq s ch (flip w)) \<and> parked s L (fst other) as n t \<and>
        L' = L(RunQueue := L RunQueue @ [t]) \<and> same_chan c c' \<and>
        moved (fst (ends w (av a) (Some (av (as ! snd other)))))
          (snd (ends w (av a) (Some (av (as ! snd other))))) (mem s) c (mem s') c' \<and>
        released s ch c' other as s')"

lemma altexec_runs:
  assumes k: "kinv s L" and inv: "alt_inv s L" and bal: "balanced s" and a: "aget p s = Inr a"
      "achan a = Some ch" "chanarray (aop a) = Some w" and c: "chans s ch = Some c"
    and can: "can_exec s ch c w"
  shows "\<exists>s' L'. altexec r p s = Inr s' \<and> kinv s' L' \<and> alt_inv s' L' \<and> balanced s' \<and>
    performed s L a ch w c s' L'"
proof (cases "waitq s ch (flip w) = []")
  case True
  from altexec_alone_runs [OF inv bal a c True can, of r] obtain m' c' where
    e: "altexec r p s = Inr (s\<lparr>mem := m', chans := (chans s)(ch \<mapsto> c')\<rparr>)"
    "moved (fst (ends w (av a) None)) (snd (ends w (av a) None)) (mem s) c m' c'"
    "same_chan c c'" "alt_inv (s\<lparr>mem := m', chans := (chans s)(ch \<mapsto> c')\<rparr>) L"
    "balanced (s\<lparr>mem := m', chans := (chans s)(ch \<mapsto> c')\<rparr>)"
    by blast
  let ?s' = "s\<lparr>mem := m', chans := (chans s)(ch \<mapsto> c')\<rparr>"
  have "performed s L a ch w c ?s' L" using True e(2,3) by (auto simp: performed_def)
  moreover have "kinv ?s' L" using k by simp
  ultimately show ?thesis using e by blast
next
  case False
  define other where "other = waitq s ch (flip w) ! (r mod length (waitq s ch (flip w)))"
  with False have mem: "other \<in> set (waitq s ch (flip w))" by (simp add: nth_mem)
  from parked_waiting [OF inv this] obtain as n t where par: "parked s L (fst other) as n t" by blast
  from altexec_partner [OF k inv a c False other_def par] obtain c' s' where
    e: "altexec r p s = Inr s'" "kinv s' (L(RunQueue := L RunQueue @ [t]))"
    "moved (fst (ends w (av a) (Some (av (as ! snd other)))))
      (snd (ends w (av a) (Some (av (as ! snd other))))) (mem s) c (mem s') c'"
    "same_chan c c'" "released s ch c' other as s'"
    by blast
  have "balanced s'"
    using e(3) by (cases w) (auto intro: balanced_released [OF bal c e(5) _ e(4)])
  moreover have "performed s L a ch w c s' (L(RunQueue := L RunQueue @ [t]))"
    using mem par e(3-5) unfolding performed_def by blast
  ultimately show ?thesis using e(1,2) alt_inv_released [OF inv par e(5)] by blast
qed

lemma ready_opsD:
  assumes "ready_ops s as n \<noteq> []"
  shows "ready_ops s as n ! (r mod length (ready_ops s as n)) \<in> {i. i < n \<and> op_ready s (as ! i)}"
proof -
  have "ready_ops s as n ! (r mod length (ready_ops s as n)) \<in> set (ready_ops s as n)"
    using assms by simp
  then show ?thesis by (simp add: ready_ops_def)
qed

text \<open>An operation that can proceed is executed at once; its index is returned.\<close>

lemma chanalt_executes:
  assumes call: "alt_call s L t b as n" and F: "ready_ops s as n \<noteq> []"
  shows "\<exists>i ch w c s' L'. i < n \<and> chanalt b r1 r2 s = Done (int i) s' \<and>
    achan (as ! i) = Some ch \<and> chanarray (aop (as ! i)) = Some w \<and> chans s ch = Some c \<and>
    can_exec s ch c w \<and> kinv s' L' \<and> alt_inv s' L' \<and> balanced s' \<and>
    performed (noted s t b as n) L (as ! i) ch w c s' L'"
proof -
  define i where "i = ready_ops s as n ! (r1 mod length (ready_ops s as n))"
  let ?s = "noted s t b as n" and ?a = "(as ! i)\<lparr>atask := Some t, xalt := Some (b, 0)\<rparr>"
  from ready_opsD [OF F, of r1] have i: "i < n" "op_ready s (as ! i)" by (simp_all add: i_def)
  from i(2) obtain ch w c where op: "achan (as ! i) = Some ch" "chanarray (aop (as ! i)) = Some w"
    "chans s ch = Some c" "can_exec s ch c w" by (auto simp: op_ready_def)
  from call have "kinv ?s L" "alt_inv ?s L" "balanced ?s"
    by (simp_all add: alt_call_def alt_inv_noted)
  moreover have "aget (b, i) ?s = Inr ?a" using aget_noted [OF alt_call_end [OF call] i(1)] .
  ultimately obtain s' L' where "altexec r2 (b, i) ?s = Inr s'" "kinv s' L'" "alt_inv s' L'"
    "balanced s'" "performed ?s L ?a ch w c s' L'"
    using altexec_runs [of ?s L "(b, i)" ?a ch w c r2] op by auto
  moreover from this(5) have "performed ?s L (as ! i) ch w c s' L'" by (simp add: performed_def)
  moreover have "chanalt b r1 r2 s = bindC (altexec r2 (b, i) ?s) (Done (int i))"
    using chanalt_paths(1) [OF call F] by (simp add: i_def)
  ultimately show ?thesis using i(1) op by auto
qed

subsection \<open>Waiting\<close>

text \<open>\<open>roomy s k\<close>: the counters of the arrays are far enough from 2^32 for \<open>k\<close> more enlargements.\<close>

definition roomy :: "'a chanst_scheme \<Rightarrow> nat \<Rightarrow> bool" where
  "roomy s k \<longleftrightarrow> (\<forall>ch c w. chans s ch = Some c \<longrightarrow> unat (am (side_get w c)) + 16 * k < 2 ^ 32)"

definition wants :: "alt \<Rightarrow> addr \<Rightarrow> side \<Rightarrow> bool" where
  "wants a ch w \<longleftrightarrow> achan a = Some ch \<and> chanarray (aop a) = Some w"

lemma roomy_mono: "roomy s n \<Longrightarrow> m \<le> n \<Longrightarrow> roomy s m"
  unfolding roomy_def by (meson add_left_mono le_less_trans mult_le_mono2)

lemma altqueue_runs:
  assumes ok: "chans_ok s" and a: "aget p s = Inr a" "wants a ch w" and c: "chans s ch = Some c"
    and room: "roomy s (Suc k)" "\<not> realloc_fails s" and new: "p \<notin> set (waitq s ch w)"
  shows "runs (altqueue p s) (\<lambda>s'. chans_ok s' \<and> requeued s s' \<and> roomy s' k \<and>
    (\<forall>d v. waitq s' d v = waitq s d v @ (if wants a d v then [p] else [])))"
proof -
  let ?ar = "side_get w c"
  have ar: "arr_ok ?ar" using ok c by (rule chans_ok_side)
  have "unat (am ?ar) + 16 * Suc k < 2 ^ 32" using room(1) c unfolding roomy_def by blast
  then have "unat (am ?ar) + 16 < 2 ^ 32" by simp
  moreover have "p \<notin> set (waiting ?ar)" using new c by (simp add: waitq_def)
  ultimately have "runs (addarray False ?ar p) (\<lambda>ar'. arr_ok ar' \<and> waiting ar' = waiting ?ar @ [p] \<and>
      unat (am ar') \<le> unat (am ?ar) + 16)" by (rule addarray_runs [OF ar])
  then obtain ar' where ar': "addarray False ?ar p = Inr ar'" "arr_ok ar'"
    "waiting ar' = waiting ?ar @ [p]" "unat (am ar') \<le> unat (am ?ar) + 16"
    by (auto simp: runs_iff)
  note res = set_side_runs [OF ok c ar'(2), of w]
  let ?s' = "s\<lparr>chans := (chans s)(ch \<mapsto> side_set w ar' c)\<rparr>"
  have le: "unat (am (side_get v (side_set w ar' c))) \<le> unat (am (side_get v c)) + 16" for v
    using ar'(4) by (cases v; cases w) simp_all
  have cap: "unat (am (side_get v d)) + 16 + 16 * k < 2 ^ 32" if "chans s e = Some d" for e d v
  proof -
    from room(1) that have "unat (am (side_get v d)) + 16 * Suc k < 2 ^ 32" unfolding roomy_def by blast
    then show ?thesis by simp
  qed
  have "unat (am (side_get v d)) + 16 * k < 2 ^ 32" if "chans ?s' e = Some d" for e d v
  proof (cases "e = ch")
    case True
    with that have d: "d = side_set w ar' c" by simp
    show ?thesis unfolding d using le [of v] cap [OF c, of v] by linarith
  next
    case False
    with that have "chans s e = Some d" by simp
    from cap [OF this, of v] show ?thesis by linarith
  qed
  then have "roomy ?s' k" by (simp add: roomy_def)
  moreover have "altqueue p s = Inr ?s'"
    using a c ar'(1) room(2) res(1) by (simp add: altqueue_def wants_def)
  moreover have "waitq ?s' d v = waitq s d v @ (if wants a d v then [p] else [])" for d v
    using res(4) [of d v] ar'(3) a(2) c by (auto simp: wants_def waitq_def)
  ultimately show ?thesis using res(2,3) by simp
qed

lemma new_entries_Cons:
  "map (\<lambda>k. (b, i + k)) (filter (\<lambda>k. wants ((a # as) ! k) d v) [0..<Suc m]) =
     (if wants a d v then [(b, i)] else []) @
     map (\<lambda>k. (b, i + 1 + k)) (filter (\<lambda>k. wants (as ! k) d v) [0..<m])"
proof -
  have "[0..<Suc m] = 0 # map Suc [0..<m]" by (metis map_Suc_upt upt_conv_Cons zero_less_Suc)
  then show ?thesis by (simp add: filter_map comp_def)
qed

lemma op_valid_requeued:
  assumes "requeued s s'"
  shows "op_valid s' a = op_valid s a"
proof -
  have rel: "rel_option same_buf (chans s d) (chans s' d)" for d
    using assms unfolding requeued_def by blast
  have "(\<exists>c. chans s' d = Some c) \<longleftrightarrow> (\<exists>c. chans s d = Some c)" for d
    using rel [of d] by (cases "chans s d"; cases "chans s' d") simp_all
  then show ?thesis by (simp add: op_valid_def)
qed

lemma queue_all_runs:
  assumes "chans_ok s" "roomy s (length as)" "\<not> realloc_fails s"
    and "\<forall>k < length as. aget (b, i + k) s = Inr (as ! k) \<and> op_valid s (as ! k)"
    and "\<forall>k. \<forall>d v. (b, i + k) \<notin> set (waitq s d v)"
  shows "runs (queue_all b i as s) (\<lambda>s'. chans_ok s' \<and> requeued s s' \<and>
    (\<forall>d v. waitq s' d v = waitq s d v @
       map (\<lambda>k. (b, i + k)) (filter (\<lambda>k. wants (as ! k) d v) [0..<length as])))"
  using assms
proof (induction as arbitrary: i s)
  case (Cons a as)
  from Cons.prems(4) have a: "aget (b, i) s = Inr a" "op_valid s a" by force+
  have rest: "\<forall>k < length as. aget (b, i + 1 + k) s = Inr (as ! k) \<and> op_valid s (as ! k)"
    using Cons.prems(4) by fastforce
  have out: "\<forall>k. \<forall>d v. (b, i + 1 + k) \<notin> set (waitq s d v)"
    using Cons.prems(5) by (metis add.assoc)
  show ?case
  proof (cases "aop a = CHANNOP")
    case True
    then have "\<not> wants a d v" for d v by (simp add: wants_def chanarray_def)
    moreover have "roomy s (length as)" using roomy_mono [OF Cons.prems(2)] by simp
    ultimately show ?thesis
      using True Cons.IH [OF Cons.prems(1) _ Cons.prems(3) rest out]
      by (simp only: queue_all.simps new_entries_Cons list.size if_False append_Nil simp_thms
          add_0_right add_Suc_right)
  next
    case False
    with a(2) obtain ch w c where w: "wants a ch w" "chans s ch = Some c"
      by (auto simp: op_valid_def wants_def)
    have "(b, i) \<notin> set (waitq s ch w)" using Cons.prems(5) by (metis add_0_right)
    from altqueue_runs [OF Cons.prems(1) a(1) w _ Cons.prems(3) this, of "length as"] Cons.prems(2)
    obtain s1 where s1: "altqueue (b, i) s = Inr s1" "chans_ok s1" "requeued s s1" "roomy s1 (length as)"
      "\<forall>d v. waitq s1 d v = waitq s d v @ (if wants a d v then [(b, i)] else [])"
      by (auto simp: runs_iff)
    note f = requeued_fields [OF s1(3)]
    note val = op_valid_requeued [OF s1(3)]
    have r1: "\<forall>k < length as. aget (b, i + 1 + k) s1 = Inr (as ! k) \<and> op_valid s1 (as ! k)"
      using rest by (simp add: val aget_cong [OF f(1)])
    have o1: "\<forall>k. \<forall>d v. (b, i + 1 + k) \<notin> set (waitq s1 d v)"
      using out s1(5) by auto
    from Cons.prems(3) have "\<not> realloc_fails s1" by (simp add: f)
    from Cons.IH [OF s1(2,4) this r1 o1] obtain s2 where
      s2: "queue_all b (i + 1) as s1 = Inr s2" "chans_ok s2" "requeued s1 s2"
      "\<forall>d v. waitq s2 d v = waitq s1 d v @
         map (\<lambda>k. (b, i + 1 + k)) (filter (\<lambda>k. wants (as ! k) d v) [0..<length as])"
      unfolding runs_iff by blast
    have "waitq s2 d v = waitq s d v @
        map (\<lambda>k. (b, i + k)) (filter (\<lambda>k. wants ((a # as) ! k) d v) [0..<length (a # as)])" for d v
      unfolding list.size(4) add_0_right add_Suc_right new_entries_Cons using s1(5) s2(4) by simp
    moreover have "queue_all b i (a # as) s = Inr s2" using False s1(1) s2(1) by simp
    ultimately show ?thesis using s2(2) requeued_trans [OF s1(3) s2(3)] by (simp only: runs_Inr) simp
  qed
qed simp

text \<open>Nobody is put in a queue while the operation could proceed.\<close>

lemma balanced_queued:
  assumes bal: "balanced s" and ok: "chans_ok s" and not: "\<forall>i < n. \<not> op_ready s (as ! i)"
    and rel: "\<forall>k. rel_option same_buf (chans s k) (chans s' k)"
    and q: "\<forall>d v. waitq s' d v = waitq s d v @ map (Pair b) (filter (\<lambda>i. wants (as ! i) d v) [0..<n])"
  shows "balanced s'"
  unfolding balanced_def
proof (intro allI impI)
  fix d c' assume "chans s' d = Some c'"
  with rel obtain c where c: "chans s d = Some c" "same_buf c c'"
    by (metis option.rel_cases option.distinct(1) option.inject)
  have old: "chan_balanced s d c" using bal c(1) by (simp add: balanced_def)
  have le: "nbuf c \<le> bufsize c" using ok c(1) by (simp add: chans_ok_def ch_ok_def)
  have stuck: "\<not> can_exec s d c v" if "i < n" "wants (as ! i) d v" for i v
    using not that c(1) by (auto simp: op_ready_def wants_def)
  have new: "x \<in> set (waitq s d v) \<or> fst x = b \<and> (\<exists>i < n. wants (as ! i) d v)"
    if "x \<in> set (waitq s' d v)" for x v
    using that q by auto
  have any: "waitq s d v \<noteq> [] \<or> \<not> can_exec s d c v" if "waitq s' d v \<noteq> []" for v
  proof -
    from that obtain x where "x \<in> set (waitq s' d v)" by (cases "waitq s' d v") auto
    with new [OF this] stuck show ?thesis by auto
  qed
  have "chan_balanced s' d c"
    unfolding chan_balanced_def
  proof (intro conjI impI ballI)
    assume "bufsize c \<noteq> 0" "waitq s' d Asend \<noteq> []"
    with any [of Asend] old le show "nbuf c = bufsize c"
      by (auto simp: chan_balanced_def can_exec_def)
  next
    assume "bufsize c \<noteq> 0" "waitq s' d Arecv \<noteq> []"
    with any [of Arecv] old show "nbuf c = 0"
      by (auto simp: chan_balanced_def can_exec_def word_neq_0_conv [symmetric])
  next
    fix x y assume z: "bufsize c = 0" and x: "x \<in> set (waitq s' d Asend)" and y: "y \<in> set (waitq s' d Arecv)"
    have "waitq s d (flip v) = []" if "i < n" "wants (as ! i) d v" for i v
      using stuck [OF that] z by (simp add: can_exec_def)
    from this [of _ Asend] this [of _ Arecv] new [OF x] new [OF y] old z show "fst x = fst y"
      by (auto simp: chan_balanced_def)
  qed
  with c(2) q show "chan_balanced s' d c'" by (simp add: chan_balanced_def same_buf_def)
qed

text \<open>A caller that has queued its operations and left the processor is parked.\<close>

lemma parked_queued:
  assumes call: "alt_call s L t b as n" and off: "off s L t"
    and al: "alts s' = (alts s)(b \<mapsto> prepared b (Some t) as n)"
    and w: "\<And>d v. waitq s' d v = waitq s d v @ map (Pair b) (filter (\<lambda>i. wants (as ! i) d v) [0..<n])"
    and ctx: "fld ctxt (heap s') = (fld ctxt (heap s))(t \<mapsto> FAlt b)"
    and dom: "dom (heap s') = dom (heap s)" and idle: "taskrunning s' = None"
  shows "parked s' L b (prepared b (Some t) as n) n t"
    and "parked s L d as' n' t' \<Longrightarrow> d \<noteq> b \<Longrightarrow> parked s' L d as' n' t'"
proof -
  let ?pr = "prepared b (Some t) as n"
  from call have as: "alt_end as = Some n" and run: "taskrunning s = Some t"
    and valid: "\<forall>i < n. op_valid s (as ! i)"
    by (simp_all add: alt_call_def stack_room_def)
  from alt_call_end [OF call] have n: "n < length as" .
  have nth: "?pr ! i = (as ! i)\<lparr>atask := Some t, xalt := Some (b, 0)\<rparr>" if "i < n" for i
    using that n by (simp add: nth_prepared)
  have "queued_at s' b i (?pr ! i)" if "i < n" for i
    using valid that by (auto simp: queued_at_def op_valid_def nth w wants_def)
  then show "parked s' L b ?pr n t"
    using as n off dom idle by (simp add: parked_def al alt_end_prepared nth ctx off_def)
  assume p: "parked s L d as' n' t'" and d: "d \<noteq> b"
  moreover have "t' \<noteq> t" using p run by (auto simp: parked_def)
  moreover have "queued_at s' d i a" if "queued_at s d i a" for i a
    using that by (auto simp: queued_at_def w)
  ultimately show "parked s' L d as' n' t'"
    using dom idle by (simp add: parked_def al ctx off_def)
qed

lemma alt_inv_queued:
  assumes call: "alt_call s L t b as n" and off: "off s L t" and ok: "chans_ok s'"
    and al: "alts s' = (alts s)(b \<mapsto> prepared b (Some t) as n)"
    and w: "\<And>d v. waitq s' d v = waitq s d v @ map (Pair b) (filter (\<lambda>i. wants (as ! i) d v) [0..<n])"
    and ctx: "fld ctxt (heap s') = (fld ctxt (heap s))(t \<mapsto> FAlt b)"
    and dom: "dom (heap s') = dom (heap s)" and idle: "taskrunning s' = None"
  shows "alt_inv s' L"
proof -
  let ?pr = "prepared b (Some t) as n"
  from call have inv: "alt_inv s L" and nb: "\<not> blocked s b" and as: "alt_end as = Some n"
    and run: "taskrunning s = Some t" and valid: "\<forall>i < n. op_valid s (as ! i)"
    by (simp_all add: alt_call_def stack_room_def)
  from alt_call_end [OF call] have n: "n < length as" .
  have nth: "?pr ! i = (as ! i)\<lparr>atask := Some t, xalt := Some (b, 0)\<rparr>" if "i < n" for i
    using that n by (simp add: nth_prepared)
  have "entries_ok s'"
    unfolding entries_ok_def
  proof (intro allI ballI)
    fix d v x assume "x \<in> set (waitq s' d v)"
    then consider "x \<in> set (waitq s d v)" | i where "x = (b, i)" "i < n" "wants (as ! i) d v"
      by (auto simp: w)
    then show "entry_ok s' d v x"
    proof cases
      case 1
      with nb have "fst x \<noteq> b" unfolding blocked_def by (metis prod.collapse)
      moreover have "entry_ok s d v x" using inv 1 by (simp add: alt_inv_def entries_ok_def)
      ultimately show ?thesis by (simp add: entry_ok_def al)
    next
      case 2
      then show ?thesis using as n by (simp add: entry_ok_def al alt_end_prepared nth wants_def)
    qed
  qed
  moreover have "\<exists>as' n' t'. parked s' L d as' n' t'" if "blocked s' d" for d
  proof (cases "d = b")
    case True
    then show ?thesis using parked_queued(1) [OF call off al w ctx dom idle] by blast
  next
    case False
    with that have "blocked s d" by (auto simp: blocked_def w)
    with inv obtain as' n' t' where "parked s L d as' n' t'" by (auto simp: alt_inv_def)
    from parked_queued(2) [OF call off al w ctx dom idle this False] show ?thesis by blast
  qed
  ultimately show ?thesis using ok by (simp add: alt_inv_def)
qed

lemma chanalt_queues:
  assumes call: "alt_call s L t b as n" and off: "off s L t" and F: "ready_ops s as n = []"
    and blk: "aop (as ! n) = CHANEND" and room: "roomy s n" "\<not> realloc_fails s"
  shows "\<exists>s'. chanalt b r1 r2 s = Blocked s' \<and> kinv s' L \<and> alt_inv (s'\<lparr>taskrunning := None\<rparr>) L \<and>
    balanced s' \<and> kblock t (FAlt b) (noted s t b as n\<lparr>chans := chans s'\<rparr>) s' \<and>
    (\<forall>k. rel_option same_buf (chans s k) (chans s' k)) \<and>
    (\<forall>d v. waitq s' d v = waitq s d v @ map (Pair b) (filter (\<lambda>i. wants (as ! i) d v) [0..<n]))"
proof -
  let ?s0 = "noted s t b as n" and ?pr = "prepared b (Some t) as n"
  let ?new = "\<lambda>d v. map (Pair b) (filter (\<lambda>i. wants (as ! i) d v) [0..<n])"
  from call have k: "kinv s L" and inv: "alt_inv s L" and bal: "balanced s"
    and st: "stack_room 512 t s" and nb: "\<not> blocked s b" and as: "alts s b = Some as" "alt_end as = Some n"
    and valid: "\<forall>i < n. op_valid s (as ! i)"
    by (simp_all add: alt_call_def)
  from alt_call_end [OF call] have n: "n < length as" .
  have run: "taskrunning s = Some t" using st by (simp add: stack_room_def)
  have nth: "?pr ! i = (as ! i)\<lparr>atask := Some t, xalt := Some (b, 0)\<rparr>" if "i < n" for i
    using that n by (simp add: nth_prepared)
  have out: "(b, i) \<notin> set (waitq s d v)" for i d v using nb by (auto simp: blocked_def)
  have pre: "\<forall>i < length (take n ?pr). aget (b, 0 + i) ?s0 = Inr (take n ?pr ! i) \<and> op_valid ?s0 (take n ?pr ! i)"
    using n valid by (auto simp: aget_noted [OF n] nth op_valid_def)
  have "chans_ok ?s0" "roomy ?s0 (length (take n ?pr))" "\<not> realloc_fails ?s0"
    using inv room n by (simp_all add: alt_inv_def chans_ok_def roomy_def min_def)
  from queue_all_runs [OF this pre] out obtain s1 where
    s1: "queue_all b 0 (take n ?pr) ?s0 = Inr s1" "chans_ok s1" "requeued ?s0 s1" and
    q1: "\<forall>d v. waitq s1 d v = waitq ?s0 d v @
      map (\<lambda>i. (b, 0 + i)) (filter (\<lambda>i. wants (take n ?pr ! i) d v) [0..<length (take n ?pr)])"
    unfolding runs_iff by auto
  have "filter (\<lambda>i. wants (take n ?pr ! i) d v) [0..<length (take n ?pr)] =
      filter (\<lambda>i. wants (as ! i) d v) [0..<n]" for d v
    using n by (intro filter_cong) (auto simp: nth wants_def)
  with q1 have q: "\<forall>d v. waitq s1 d v = waitq s d v @ ?new d v" by simp
  obtain cs where cs: "s1 = ?s0\<lparr>chans := cs\<rparr>" by (rule requeued_elim [OF s1(3)])
  have rel: "\<forall>x. rel_option same_buf (chans s x) (chans s1 x)"
    using s1(3) unfolding requeued_def by simp
  have "kinv s1 L" using k by (simp add: cs)
  moreover have "stack_room 0 t s1" using stack_room_mono [OF st] by (simp add: cs)
  ultimately obtain s2 where s2: "taskswitch (FAlt b) s1 = Inr s2" "kinv s2 L" "kblock t (FAlt b) s1 s2"
    using kt.switch_law [of s1 L t "FAlt b"] by (auto simp: runs_iff)
  note f2 = kblock_chanst [OF s2(3)]
  have w2: "waitq s2 d v = waitq s1 d v" for d v by (rule waitq_cong) (rule f2)
  have al: "alts s2 = (alts s)(b \<mapsto> ?pr)" by (simp add: f2 cs)
  have hp: "heap s1 = heap s" by (simp add: cs)
  have ctx: "fld ctxt (heap s2) = (fld ctxt (heap s))(t \<mapsto> FAlt b)"
    using kblock_ctxt [OF s2(3)] by (simp add: hp)
  have dom: "dom (heap s2) = dom (heap s)" using kblock_dom [OF s2(3)] by (simp add: hp)
  let ?s3 = "s2\<lparr>taskrunning := None\<rparr>"
  have w3: "waitq ?s3 d v = waitq s d v @ ?new d v" for d v
    using q by (simp add: waitq_cong [of ?s3 s2] w2)
  have "chans_ok ?s3" using s1(2) by (simp add: chans_ok_def f2)
  then have "alt_inv ?s3 L"
    by (rule alt_inv_queued [OF call off]) (simp_all add: al w3 ctx dom)
  moreover have "\<forall>i < n. \<not> op_ready s (as ! i)" using F by (simp add: ready_ops_def filter_empty_conv)
  then have "balanced s2"
    using bal inv rel q by (intro balanced_queued [of s n as s2 b]) (simp_all add: alt_inv_def f2 w2)
  moreover have "chanalt b r1 r2 s = Blocked s2"
    using chanalt_paths(3) [OF call F blk] s1(1) s2(1) by simp
  moreover have "kblock t (FAlt b) (?s0\<lparr>chans := chans s2\<rparr>) s2" using s2(3) by (simp add: cs f2)
  moreover have "\<forall>x. rel_option same_buf (chans s x) (chans s2 x)"
    "\<forall>d v. waitq s2 d v = waitq s d v @ ?new d v" using rel q by (simp_all add: f2 w2)
  ultimately show ?thesis using s2(2) by (intro exI [of _ s2] conjI)
qed

lemma chanalt_waits:
  assumes call: "alt_call s L t b as n" and off: "off s L t" and F: "ready_ops s as n = []"
    and blk: "aop (as ! n) = CHANEND" and room: "roomy s n" "\<not> realloc_fails s"
  shows "\<exists>s'. chanalt b r1 r2 s = Blocked s' \<and> kinv s' L \<and> alt_inv (s'\<lparr>taskrunning := None\<rparr>) L \<and>
    balanced s' \<and> fld ctxt (heap s') t = Some (FAlt b) \<and> mem s' = mem s \<and>
    (\<forall>k. rel_option same_buf (chans s k) (chans s' k)) \<and>
    (\<forall>d v. waitq s' d v = waitq s d v @ map (Pair b) (filter (\<lambda>i. wants (as ! i) d v) [0..<n]))"
proof -
  from chanalt_queues [OF assms, of r1 r2] obtain s' where
    s': "chanalt b r1 r2 s = Blocked s'" "kinv s' L" "alt_inv (s'\<lparr>taskrunning := None\<rparr>) L" "balanced s'"
    "kblock t (FAlt b) (noted s t b as n\<lparr>chans := chans s'\<rparr>) s'"
    "\<forall>k. rel_option same_buf (chans s k) (chans s' k)"
    "\<forall>d v. waitq s' d v = waitq s d v @ map (Pair b) (filter (\<lambda>i. wants (as ! i) d v) [0..<n])"
    by blast
  have "fld ctxt (heap s') t = Some (FAlt b)" using kblock_ctxt [OF s'(5)] by simp
  moreover have "mem s' = mem s" using kblock_chanst(3) [OF s'(5)] by simp
  ultimately show ?thesis using s' by (intro exI [of _ s'] conjI)
qed

text \<open>The task that was waiting returns the index of the operation its partner executed.\<close>

lemma chanalt_resumes:
  assumes "released s ch c' other as s'" "alts s (fst other) = Some as" "alt_end as = Some n"
  shows "chanalt_resume (fst other) s' = Done (int (snd other)) s'"
proof -
  have "0 < length as" using alt_end_bound [OF assms(3)] by auto
  moreover have "alts s' = (alts s)(fst other \<mapsto> as[0 := (as ! 0)\<lparr>xalt := Some other\<rparr>])"
    using assms(1) unfolding released_def by blast
  ultimately show ?thesis by (simp add: chanalt_resume_def aget_def aarr_def)
qed

end
