(* ===== verification/ChanProps.thy ===== *)
theory ChanProps
  imports ChanAlt
begin

text \<open>
  The single operations: \<open>chansend\<close>, \<open>chanrecv\<close> and their non-blocking forms, in terms of the
  elements of the channel and of the tasks that wait, and the properties of channels.
\<close>

subsection \<open>One operation\<close>

text \<open>
  The local array of \<open>_chanop\<close>. \<open>op_call s L t b ch c w\<close>: task \<open>t\<close> calls an operation of side \<open>w\<close> on
  the channel \<open>c\<close> at \<open>ch\<close>; the array gets the address \<open>b\<close>, where nothing is.
\<close>

definition op_code :: "side \<Rightarrow> 32 word" where
  "op_code w = (case w of Asend \<Rightarrow> CHANSND | Arecv \<Rightarrow> CHANRCV)"

definition op_array :: "addr option \<Rightarrow> addr option \<Rightarrow> side \<Rightarrow> bool \<Rightarrow> alt list" where
  "op_array c v w canblock =
     [\<lparr>achan = c, av = v, aop = op_code w, atask = None, xalt = None\<rparr>,
      \<lparr>achan = None, av = None, aop = (if canblock then CHANEND else CHANNOBLK), atask = None,
        xalt = None\<rparr>]"

definition op_call ::
  "'a chanst_scheme \<Rightarrow> (lref \<Rightarrow> addr list) \<Rightarrow> addr \<Rightarrow> addr \<Rightarrow> addr \<Rightarrow> channel \<Rightarrow> bool" where
  "op_call s L t b ch c \<longleftrightarrow>
     kinv s L \<and> alt_inv s L \<and> balanced s \<and> stack_room 512 t s \<and> alts s b = None \<and>
     chans s ch = Some c"

lemma not_blocked_free:
  assumes "alt_inv s L" "alts s b = None"
  shows "\<not> blocked s b"
  using assms by (auto simp: alt_inv_def parked_def)

lemma op_call_free: "op_call s L t b ch c \<Longrightarrow> alt_inv s L \<and> \<not> blocked s b"
  by (auto simp: op_call_def dest: not_blocked_free)

abbreviation op_state ::
  "'a chanst_scheme \<Rightarrow> addr \<Rightarrow> addr \<Rightarrow> addr option \<Rightarrow> side \<Rightarrow> bool \<Rightarrow> 'a chanst_scheme" where
  "op_state s b ch v w k \<equiv> s\<lparr>alts := (alts s)(b \<mapsto> op_array (Some ch) v w k)\<rparr>"

lemma alt_call_op:
  assumes "op_call s L t b ch c"
  shows "alt_call (op_state s b ch v w k) L t b (op_array (Some ch) v w k) 1"
proof -
  let ?as = "op_array (Some ch) v w k"
  from op_call_free [OF assms] have inv: "alt_inv (op_state s b ch v w k) L" and nb: "\<not> blocked s b"
    by (auto intro: alt_inv_free)
  have wq: "waitq (op_state s b ch v w k) d x = waitq s d x" for d x by (rule waitq_cong) simp
  have "alt_end ?as = Some 1"
    by (cases w) (simp_all add: op_array_def op_code_def end_mark_def)
  moreover have "op_valid (op_state s b ch v w k) (?as ! 0)"
    using assms by (cases w) (simp_all add: op_array_def op_code_def op_valid_def chanarray_def op_call_def)
  ultimately show ?thesis
    using assms nb inv
    by (simp add: alt_call_def op_call_def balanced_def chan_balanced_def blocked_def wq)
qed

lemma ready_ops_op:
  assumes "op_call s L t b ch c"
  shows "ready_ops (op_state s b ch v w k) (op_array (Some ch) v w k) 1 =
    (if can_exec s ch c w then [0] else [])"
proof -
  have "op_ready (op_state s b ch v w k) (op_array (Some ch) v w k ! 0) =
      op_ready s (op_array (Some ch) v w k ! 0)"
    by (rule op_ready_cong) simp_all
  also have "\<dots> = can_exec s ch c w"
    using assms by (cases w) (simp_all add: op_ready_def op_array_def op_code_def chanarray_def op_call_def)
  finally show ?thesis by (simp add: ready_ops_def)
qed

lemma do_chanop_op:
  "do_chanop b r1 r2 (Some ch) (op_code w) v k s = chanop_ret b (chanalt b r1 r2 (op_state s b ch v w k))"
  by (simp add: do_chanop_def op_array_def)

text \<open>A non-blocking operation that cannot proceed returns -1 and changes nothing.\<close>

lemma chanop_refused:
  assumes "op_call s L t b ch c" "\<not> can_exec s ch c w"
  shows "do_chanop b r1 r2 (Some ch) (op_code w) v False s = Done (-1) s"
proof -
  let ?as = "op_array (Some ch) v w False"
  have "aop (?as ! 1) \<noteq> CHANEND" by (simp add: op_array_def)
  from chanalt_paths(2) [OF alt_call_op [OF assms(1)] _ this] ready_ops_op [OF assms(1)] assms(2)
  have "chanalt b r1 r2 (op_state s b ch v w False) =
      Done (-1) (noted (op_state s b ch v w False) t b ?as 1)" by simp
  moreover have "(alts s)(b := None) = alts s" using assms(1) by (auto simp: op_call_def)
  ultimately show ?thesis by (simp add: do_chanop_op noted_def)
qed

text \<open>Dropping the local array afterwards leaves the effect of the operation on the state before.\<close>

lemma released_drop:
  assumes rel: "released (s\<lparr>alts := (alts s)(b \<mapsto> x)\<rparr>) ch c' other as s'"
    and b: "alts s b = None" "fst other \<noteq> b" "\<And>d v. \<forall>p \<in> set (waitq s d v). fst p \<noteq> b"
  shows "released s ch c' other as (s'\<lparr>alts := (alts s')(b := None)\<rparr>)"
proof -
  let ?s = "s\<lparr>alts := (alts s)(b \<mapsto> x)\<rparr>" and ?t = "s'\<lparr>alts := (alts s')(b := None)\<rparr>"
  have wq: "waitq ?s d v = waitq s d v" "waitq ?t d v = waitq s' d v" for d v
    by (rule waitq_cong, simp)+
  from rel have r: "chans_ok s'" "entries_ok s'"
    "\<forall>k v. set (waitq s' k v) = {p \<in> set (waitq s k v). fst p \<noteq> fst other}"
    "\<forall>k. rel_option same_buf (((chans s)(ch \<mapsto> c')) k) (chans s' k)"
    "alts s' = (alts s)(b \<mapsto> x, fst other \<mapsto> as[0 := (as ! 0)\<lparr>xalt := Some other\<rparr>])"
    unfolding released_def wq by simp_all
  from rel have "kframe (?s\<lparr>mem := mem s', chans := chans s', alts := alts s'\<rparr>) s'"
    unfolding released_def by blast
  then have fr: "kframe (s\<lparr>mem := mem s', chans := chans s', alts := alts s'\<rparr>) s'" by simp
  have al: "alts ?t = (alts s)(fst other \<mapsto> as[0 := (as ! 0)\<lparr>xalt := Some other\<rparr>])"
    using b(1,2) by (auto simp: r(5))
  have b3: "(b, i) \<notin> set (waitq s d v)" for d v i using b(3) [of d v] by auto
  have "entries_ok ?t"
    using r(2,3) b3 by (auto simp: entries_ok_def entry_ok_def wq)
  moreover have "kframe (s\<lparr>mem := mem ?t, chans := chans ?t, alts := alts ?t\<rparr>) ?t"
  proof -
    obtain m cs al h q where
      "s' = s\<lparr>mem := m, chans := cs, alts := al, heap := h, tlists := q\<rparr>" "agree undisp (heap s) h"
      by (rule kframe_elim [OF fr], rule that) simp_all
    then show ?thesis by (simp add: kframe_def)
  qed
  moreover have "chans_ok ?t" using r(1) by (simp add: chans_ok_def)
  ultimately show ?thesis unfolding released_def wq al using r(3,4) by simp
qed

lemma op_state_simps [simp]:
  "waitq (op_state s b ch v w k) d x = waitq s d x" "mem (op_state s b ch v w k) = mem s"
  "chans (op_state s b ch v w k) = chans s"
  by (simp_all add: waitq_def)

lemma performed_drop:
  assumes call: "op_call s L t b ch c"
    and perf: "performed (noted (op_state s b ch v w k) t b as 1) L a ch w c s' L'"
  shows "performed s L a ch w c (s'\<lparr>alts := (alts s')(b := None)\<rparr>) L'" "\<not> blocked s' b"
proof -
  let ?n = "noted (op_state s b ch v w k) t b as 1" and ?t = "s'\<lparr>alts := (alts s')(b := None)\<rparr>"
  from call have b: "alts s b = None" by (simp add: op_call_def)
  from op_call_free [OF call] have nb: "\<not> blocked s b" by simp
  then have out: "\<forall>p \<in> set (waitq s d v). fst p \<noteq> b" for d v by (auto simp: blocked_def)
  have n: "?n = s\<lparr>alts := (alts s)(b \<mapsto> prepared b (Some t) as 1)\<rparr>" by (simp add: noted_def)
  from perf consider
    (alone) c' where "waitq s ch (flip w) = []" "L' = L"
      "s' = ?n\<lparr>mem := mem s', chans := (chans ?n)(ch \<mapsto> c')\<rparr>" "same_chan c c'"
      "moved (fst (ends w (av a) None)) (snd (ends w (av a) None)) (mem s) c (mem s') c'"
  | (partner) other ds m u c' where "other \<in> set (waitq s ch (flip w))" "parked ?n L (fst other) ds m u"
      "L' = L(RunQueue := L RunQueue @ [u])" "same_chan c c'"
      "moved (fst (ends w (av a) (Some (av (ds ! snd other)))))
        (snd (ends w (av a) (Some (av (ds ! snd other))))) (mem s) c (mem s') c'"
      "released ?n ch c' other ds s'"
    unfolding performed_def by auto
  then have "performed s L a ch w c ?t L' \<and> \<not> blocked s' b"
  proof cases
    case alone
    from alone(3) obtain m' where s': "s' = ?n\<lparr>mem := m', chans := (chans s)(ch \<mapsto> c')\<rparr>" by auto
    have "(alts s)(b := None) = alts s" using b by auto
    then have t: "?t = s\<lparr>mem := m', chans := (chans s)(ch \<mapsto> c')\<rparr>" by (simp add: s' noted_def)
    have "performed s L a ch w c ?t L'"
      unfolding performed_def t
      by (rule disjI1) (use alone(1,2,4,5) in \<open>auto simp: s' intro!: exI [of _ c']\<close>)
    moreover have "chans s ch = Some c" using call by (simp add: op_call_def)
    then have "waitq s' d v = waitq s d v" for d v
      using waitq_same_chan [of ?n ch c c' m' d v] alone(4) by (simp add: s')
    then have "\<not> blocked s' b" using nb by (simp add: blocked_def)
    ultimately show ?thesis by blast
  next
    case partner
    from partner(1) out have ob: "fst other \<noteq> b" by blast
    have "parked s L (fst other) ds m u"
      using partner(2) ob by (simp add: parked_def queued_at_def)
    moreover have "released s ch c' other ds ?t"
      by (rule released_drop [OF partner(6) [unfolded n] b ob out])
    moreover have "mem ?t = mem s'" by simp
    ultimately have "performed s L a ch w c ?t L'"
      using partner(1,3-5) unfolding performed_def by metis
    moreover have "set (waitq s' d v) \<subseteq> set (waitq s d v)" for d v
      using partner(6) unfolding released_def by auto
    then have "\<not> blocked s' b" using nb unfolding blocked_def by blast
    ultimately show ?thesis by blast
  qed
  then show "performed s L a ch w c ?t L'" "\<not> blocked s' b" by blast+
qed

text \<open>An operation that can proceed is carried out at once, whether it may block or not.\<close>

lemma chanop_performed:
  assumes call: "op_call s L t b ch c" and can: "can_exec s ch c w"
  shows "\<exists>s' L'. do_chanop b r1 r2 (Some ch) (op_code w) v k s = Done 1 s' \<and> kinv s' L' \<and>
    alt_inv s' L' \<and> balanced s' \<and> performed s L (op_array (Some ch) v w k ! 0) ch w c s' L'"
proof -
  let ?as = "op_array (Some ch) v w k"
  have "ready_ops (op_state s b ch v w k) ?as 1 \<noteq> []" using ready_ops_op [OF call] can by simp
  from chanalt_executes [OF alt_call_op [OF call] this, of r1 r2] obtain i d x e s' L' where
    e: "i < 1" "chanalt b r1 r2 (op_state s b ch v w k) = Done (int i) s'" "achan (?as ! i) = Some d"
      "chanarray (aop (?as ! i)) = Some x" "chans s d = Some e" "kinv s' L'" "alt_inv s' L'" "balanced s'"
      "performed (noted (op_state s b ch v w k) t b ?as 1) L (?as ! i) d x e s' L'"
    by auto
  have "i = 0" "d = ch" "x = w" "e = c"
    using e(1,3-5) call
    by (auto simp: op_array_def op_code_def op_call_def chanarray_def split: side.splits)
  note e = e [unfolded this]
  let ?t = "s'\<lparr>alts := (alts s')(b := None)\<rparr>"
  note p = performed_drop [OF call e(9)]
  have "balanced ?t"
    using e(8) by (simp add: balanced_def chan_balanced_def waitq_cong [of ?t s'])
  then show ?thesis
    using e(2,6) p(1) alt_inv_free [OF e(7) p(2), of None] by (simp add: do_chanop_op) blast
qed

text \<open>A blocking operation that cannot proceed goes to the end of its queue.\<close>

lemma chanop_waits:
  assumes call: "op_call s L t b ch c" and off: "off s L t" and can: "\<not> can_exec s ch c w"
    and room: "roomy s 1" "\<not> realloc_fails s"
  shows "\<exists>s'. do_chanop b r1 r2 (Some ch) (op_code w) v True s = Blocked s' \<and> kinv s' L \<and>
    alt_inv (s'\<lparr>taskrunning := None\<rparr>) L \<and> balanced s' \<and> fld ctxt (heap s') t = Some (FAlt b) \<and>
    mem s' = mem s \<and> (\<forall>k. rel_option same_buf (chans s k) (chans s' k)) \<and>
    (\<forall>d x. waitq s' d x = waitq s d x @ (if d = ch \<and> x = w then [(b, 0)] else []))"
proof -
  let ?as = "op_array (Some ch) v w True" and ?s = "op_state s b ch v w True"
  have F: "ready_ops ?s ?as 1 = []" using ready_ops_op [OF call] can by simp
  have "off ?s L t" "roomy ?s 1" "\<not> realloc_fails ?s" "aop (?as ! 1) = CHANEND"
    using off room by (simp_all add: roomy_def op_array_def)
  from chanalt_waits [OF alt_call_op [OF call] this(1) F this(4,2,3), of r1 r2] obtain s' where
    s': "chanalt b r1 r2 ?s = Blocked s'" "kinv s' L" "alt_inv (s'\<lparr>taskrunning := None\<rparr>) L"
      "balanced s'" "fld ctxt (heap s') t = Some (FAlt b)" "mem s' = mem s"
      "\<forall>k. rel_option same_buf (chans s k) (chans s' k)"
      "\<forall>d x. waitq s' d x = waitq s d x @ map (Pair b) (filter (\<lambda>i. wants (?as ! i) d x) [0..<1])"
    by auto
  have "wants (?as ! 0) d x \<longleftrightarrow> d = ch \<and> x = w" for d x
    by (cases w; cases x) (auto simp: wants_def op_array_def op_code_def chanarray_def)
  with s'(8) have "\<forall>d x. waitq s' d x = waitq s d x @ (if d = ch \<and> x = w then [(b, 0)] else [])"
    by simp
  with s' show ?thesis by (intro exI [of _ s'] conjI) (simp_all add: do_chanop_op)
qed

subsection \<open>Words as bytes\<close>

lemma bytes_value:
  "foldr (\<lambda>b n. uint b + 256 * n) (map (\<lambda>i. word_of_int (x div 256 ^ i) :: byte) [0..<n]) 0 = x mod 256 ^ n"
proof (induction n arbitrary: x)
  case (Suc n)
  have "[0..<Suc n] = 0 # map Suc [0..<n]" by (metis map_Suc_upt upt_conv_Cons zero_less_Suc)
  moreover have "x div 256 ^ Suc i = x div 256 div 256 ^ i" for i by (simp add: zdiv_zmult2_eq)
  moreover have "x mod 256 ^ Suc n = x mod 256 + 256 * (x div 256 mod 256 ^ n)"
    by (simp add: zmod_zmult2_eq)
  ultimately show ?case using Suc.IH [of "x div 256"] by (simp add: comp_def uint_word_of_int)
qed simp

lemma of_le_bytes: "of_le (le_bytes v) = v"
proof -
  have "foldr (\<lambda>b n. uint b + 256 * n) (le_bytes v) 0 = uint v mod 256 ^ 8"
    unfolding le_bytes_def by (rule bytes_value)
  moreover have "uint v mod 256 ^ 8 = uint v" using uint_lt2p [of v] by simp
  ultimately show ?thesis by (simp add: of_le_def)
qed

lemma length_le_bytes [simp]: "length (le_bytes v) = 8"
  by (simp add: le_bytes_def)

end
