(* ===== verification/Demo.thy ===== *)
theory Demo
  imports FdWait Rwlock ChanProps
begin

text \<open>
  A concrete state of the library, on which the hypotheses of the properties are shown to hold: three
  tasks at the addresses 1000, 2000 and 3000, the first of which is running, and queues as given.
\<close>

fun succ_in :: "addr list \<Rightarrow> addr \<Rightarrow> addr option" where
  "succ_in (a # b # ts) t = (if t = a then Some b else succ_in (b # ts) t)"
| "succ_in ts t = None"

definition link_in :: "(addr list \<Rightarrow> addr \<Rightarrow> addr option) \<Rightarrow> (lref \<times> addr list) list \<Rightarrow> addr \<Rightarrow> addr option" where
  "link_in f qs t =
     (case filter (\<lambda>q. t \<in> set (snd q)) qs of [] \<Rightarrow> None | q # _ \<Rightarrow> f (snd q) t)"

definition demo_lists :: "(lref \<times> addr list) list \<Rightarrow> lref \<Rightarrow> addr list" where
  "demo_lists qs l = (case map_of qs l of None \<Rightarrow> [] | Some ts \<Rightarrow> ts)"

definition demo_task :: "(lref \<times> addr list) list \<Rightarrow> addr \<Rightarrow> nat \<Rightarrow> task" where
  "demo_task qs t i =
     \<lparr>tname = ''task'', tstate = [], nxt = link_in succ_in qs t,
       prv = link_in (\<lambda>ts. succ_in (rev ts)) qs t, allnext = None, allprev = None, ctxt = FYield 0,
       ss_sp = t + 408, ss_size = 32704, alarmtime = t, tid = word_of_nat i + 1, stk = t + 400,
       stksize = 32768, exiting = False, alltaskslot = i, system = False,
       ready = (t \<in> set (demo_lists qs RunQueue)), startfn = User 0, startarg = 0, udata = None\<rparr>"

definition demo :: "(lref \<times> addr list) list \<Rightarrow> fdst" where
  "demo qs =
     \<lparr>heap = [1000 \<mapsto> demo_task qs 1000 0, 2000 \<mapsto> demo_task qs 2000 1, 3000 \<mapsto> demo_task qs 3000 2],
       tlists = (\<lambda>l. \<lparr>head = first (demo_lists qs l), tail = final (demo_lists qs l)\<rparr>),
       taskcount = 3, tasknswitch = 7, taskexitval = 0, taskrunning = Some 1000,
       alltask = [1000, 2000, 3000] @ replicate 61 0, nalltask = 3, taskidgen = 3, sp = 30000,
       swapcontext_r = 0, sizeof_Task = 400, errstr = ''error'',
       qowner = (\<lambda>_. None), readers = (\<lambda>_. 0), writer = (\<lambda>_. None), rzl = (\<lambda>_. None),
       chans = (\<lambda>_. None), alts = (\<lambda>_. None), mem = (\<lambda>_. 0), realloc_fails = False,
       pollfd = replicate 1024 \<lparr>pfd = 0, events = {}, revents = 0\<rparr>, polltask = replicate 1024 0,
       npollfd = 0, startedfdtask = True, sleepingcounted = 0\<rparr>"

lemmas demo_defs = demo_def demo_task_def demo_lists_def link_in_def

lemma all_less_3: "(\<forall>i < (3 :: nat). P i) \<longleftrightarrow> P 0 \<and> P 1 \<and> P 2"
  by (auto simp: numeral_3_eq_3 numeral_2_eq_2 less_Suc_eq)

lemma demo_slots: "slots_ok (demo qs)"
proof -
  have "dom (heap (demo qs)) = {1000, 2000, 3000}" by (auto simp: demo_def)
  moreover have "fld alltaskslot (heap (demo qs)) (alltask (demo qs) ! i) = Some i" if "i < 3" for i
  proof -
    from that consider "i = 0" | "i = 1" | "i = 2" by linarith
    then show ?thesis by cases (simp_all add: demo_def demo_task_def fld_def)
  qed
  ultimately show ?thesis by (auto simp: slots_ok_def) (auto simp: demo_def)
qed

lemma demo_ready: "set (demo_lists qs RunQueue) \<subseteq> {1000, 2000, 3000} \<Longrightarrow> ready_ok (demo qs) (demo_lists qs)"
  by (auto simp: ready_ok_def demo_def demo_task_def fld_def)

lemma demo_kinv:
  "set (demo_lists qs RunQueue) \<subseteq> {1000, 2000, 3000} \<Longrightarrow>
     queues_ok (heap (demo qs)) (tlists (demo qs)) (demo_lists qs) \<Longrightarrow> kinv (demo qs) (demo_lists qs)"
  by (simp add: kinv_def demo_slots demo_ready)

text \<open>No queue, a queue of two tasks, and two queues of one task each.\<close>

lemma demo_idle: "kinv (demo []) (demo_lists [])"
  by (rule demo_kinv) (simp_all add: queues_ok_def dll_def demo_defs final_def)

lemma demo_one: "kinv (demo [(l, [2000, 3000])]) (demo_lists [(l, [2000, 3000])])"
  by (rule demo_kinv) (auto simp: queues_ok_def dll_def demo_defs final_def)

lemma demo_two:
  "l \<noteq> l' \<Longrightarrow> kinv (demo [(l, [2000]), (l', [3000])]) (demo_lists [(l, [2000]), (l', [3000])])"
  by (rule demo_kinv) (auto simp: queues_ok_def dll_def demo_defs final_def)

lemma demo_off:
  "\<forall>q \<in> set qs. t \<notin> set (snd q) \<Longrightarrow> t \<in> {1000, 2000, 3000} \<Longrightarrow> off (demo qs) (demo_lists qs) t"
  by (auto simp: off_def demo_def demo_lists_def dest!: map_of_SomeD [OF sym] split: option.splits)

lemma demo_room: "n \<le> 20000 \<Longrightarrow> stack_room n 1000 (demo qs)"
  by (simp add: stack_room_def demo_def demo_task_def fld_def)

lemma demo_alloc: "alloc_ok \<lparr>malloc_r = Some 4000, getcontext_r = 0, realloc_ok = True\<rparr> 4000 (demo qs)"
  by (simp add: alloc_ok_def demo_def)

end
