(* ===== verification/TaskSpec.thy ===== *)
theory TaskSpec
  imports Demo
begin

text \<open>
  The properties of tasks and of the scheduler (\<open>task.c\<close>).
\<close>

subsection \<open>Lists\<close>

text \<open>
  \<open>addtask\<close> appends. Given any number of disjoint lists threaded through one heap, adding a live
  task that is in none of them to list \<open>i\<close> succeeds, turns the sequence \<open>L i\<close> into \<open>L i @ [t]\<close>,
  leaves every other list as it was, and writes nothing but links.
\<close>

lemma addtask_appends:
  assumes "queues_ok h T L" "t \<in> dom h" "\<forall>i. t \<notin> set (L i)"
  shows "runs (addtask (T i) t h)
    (\<lambda>(l', h'). queues_ok h' (T(i := l')) (L(i := L i @ [t])) \<and> agree unlink h h')"
  by (rule addtask_queues [OF assms])

lemma addtask_appends_witness:
  "runs (addtask (tlists (demo [(RunQueue, [2000, 3000])]) RunQueue) 1000 (heap (demo [(RunQueue, [2000, 3000])])))
    (\<lambda>(l', h'). queues_ok h' ((tlists (demo [(RunQueue, [2000, 3000])]))(RunQueue := l'))
       ((demo_lists [(RunQueue, [2000, 3000])])(RunQueue := [2000, 3000, 1000])) \<and>
     agree unlink (heap (demo [(RunQueue, [2000, 3000])])) h')"
proof -
  let ?qs = "[(RunQueue, [2000, 3000])] :: (lref \<times> addr list) list"
  have q: "queues_ok (heap (demo ?qs)) (tlists (demo ?qs)) (demo_lists ?qs)"
    using demo_one [of RunQueue] by (simp add: kinv_def)
  have o: "off (demo ?qs) (demo_lists ?qs) 1000" by (rule demo_off) simp_all
  have "demo_lists ?qs RunQueue @ [1000] = [2000, 3000, 1000]" by (simp add: demo_lists_def)
  with addtask_appends [OF q, of 1000 RunQueue] o show ?thesis by (simp add: off_def)
qed

text \<open>
  \<open>deltask\<close> removes. Deleting a task from the list that holds it succeeds, removes that one
  occurrence and leaves every other list as it was.
\<close>

lemma deltask_removes:
  assumes "queues_ok h T L" "t \<in> set (L i)"
  shows "runs (deltask (T i) t h)
    (\<lambda>(l', h'). queues_ok h' (T(i := l')) (L(i := remove1 t (L i))) \<and> agree unlink h h')"
  by (rule deltask_queues [OF assms])

lemma deltask_removes_witness:
  "runs (deltask (tlists (demo [(RunQueue, [2000, 3000])]) RunQueue) 2000 (heap (demo [(RunQueue, [2000, 3000])])))
    (\<lambda>(l', h'). queues_ok h' ((tlists (demo [(RunQueue, [2000, 3000])]))(RunQueue := l'))
       ((demo_lists [(RunQueue, [2000, 3000])])(RunQueue := [3000])) \<and>
     agree unlink (heap (demo [(RunQueue, [2000, 3000])])) h')"
proof -
  let ?qs = "[(RunQueue, [2000, 3000])] :: (lref \<times> addr list) list"
  have q: "queues_ok (heap (demo ?qs)) (tlists (demo ?qs)) (demo_lists ?qs)"
    using demo_one [of RunQueue] by (simp add: kinv_def)
  have "demo_lists ?qs RunQueue = [2000, 3000]" by (simp add: demo_lists_def)
  with deltask_removes [OF q, of 2000 RunQueue] show ?thesis by simp
qed

subsection \<open>Scheduling\<close>

text \<open>
  C5: tasks run in the order in which they were made ready. Through any interleaving of
  \<open>taskready\<close>, of turns of the scheduler and of steps that leave the run queue alone, the tasks
  that were given the processor followed by those that still wait are the tasks that waited at the
  start followed by those that were made ready, and the invariant of the kernel holds at the end.
\<close>

theorem run_queue_in_order:
  assumes "flow (\<lambda>sL. kinv (fst sL) (snd sL)) (\<lambda>sL. snd sL RunQueue)
      (\<lambda>t sL. off (fst sL) (snd sL) t) can_run run_put (\<lambda>t sL. t) run_get
      (\<lambda>sL. hd (snd sL RunQueue)) sL woken chosen sL'"
    and "kinv (fst sL) (snd sL)"
  shows "kinv (fst sL') (snd sL') \<and> chosen @ snd sL' RunQueue = snd sL RunQueue @ woken"
  using rq.stream [OF assms] by simp

theorem run_queue_in_order_witness:
  "\<exists>sL'. run_get () (demo [(RunQueue, [2000, 3000])], demo_lists [(RunQueue, [2000, 3000])]) = Inr sL' \<and>
     kinv (fst sL') (snd sL') \<and>
     [2000] @ snd sL' RunQueue = demo_lists [(RunQueue, [2000, 3000])] RunQueue @ []"
proof -
  let ?qs = "[(RunQueue, [2000, 3000])] :: (lref \<times> addr list) list"
  let ?sL = "(demo ?qs, demo_lists ?qs)"
  have k: "kinv (fst ?sL) (snd ?sL)" using demo_one [of RunQueue] by simp
  have c: "can_run ?sL" by (simp add: can_run_def demo_def demo_lists_def)
  from rq.get_law [of ?sL "()"] k c obtain sL' where g: "run_get () ?sL = Inr sL'"
    by (auto simp: runs_iff)
  have out: "hd (snd ?sL RunQueue) = 2000" by (simp add: demo_lists_def)
  have "flow (\<lambda>sL. kinv (fst sL) (snd sL)) (\<lambda>sL. snd sL RunQueue)
      (\<lambda>t sL. off (fst sL) (snd sL) t) can_run run_put (\<lambda>t sL. t) run_get
      (\<lambda>sL. hd (snd sL RunQueue)) ?sL [] ([] @ [hd (snd ?sL RunQueue)]) sL'"
    by (rule flow.received [where w = "()"], rule flow.start) (rule c, rule g)
  from run_queue_in_order [OF this k] g show ?thesis unfolding out by simp
qed

subsection \<open>Creating a task\<close>

text \<open>
  The pointer that \<open>taskalloc\<close> passes to \<open>taskstart\<close> in two 32-bit arguments arrives with its
  lower 48 bits; the shift by 16 of a 32-bit value loses the others. (User addresses of the
  supported machines have no more than 48 bits.)
\<close>

lemma pointer_48_bits: "(case split_ptr z of (y, x) \<Rightarrow> join_ptr y x) = take_bit 48 z"
  unfolding split_ptr_def join_ptr_def Let_def prod.case
  by (rule bit_word_eqI) (auto simp: bit_simps)

text \<open>
  C17: a task that is created is counted, gets the next id, is last in the run queue, and will start
  the function it was created with: whatever happens to the other tasks, entering \<open>taskstart\<close> with
  the arguments saved in its context reads that function and argument.
\<close>

theorem created_task_starts:
  assumes "kinv s L" "alloc_ok lib p s" "uint p < 2 ^ 48"
  shows "\<exists>y x s'. taskcreate fn arg stack lib s = Inr (taskidgen s + 1, s') \<and>
    kinv s' (L(RunQueue := L RunQueue @ [p])) \<and> taskcount s' = taskcount s + 1 \<and>
    fld ctxt (heap s') p = Some (FStart y x) \<and>
    (\<forall>r. fld startfn (heap r) p = fld startfn (heap s') p \<and>
         fld startarg (heap r) p = fld startarg (heap s') p \<longrightarrow> taskstart y x r = Inr (fn, arg))"
proof -
  from taskcreate_runs [OF assms(1,2), of fn arg stack] obtain s' where
    s': "taskcreate fn arg stack lib s = Inr (taskidgen s + 1, s')"
      "kinv s' (L(RunQueue := L RunQueue @ [p]))" "taskcount s' = taskcount s + 1"
    and ag: "agree undisp ((heap s)(p \<mapsto> fresh_task fn arg stack p s)) (heap s')"
    by (auto simp: runs_iff)
  obtain y x where yx: "split_ptr p = (y, x)" by (cases "split_ptr p")
  have "join_ptr y x = p" using join_split_ptr [OF assms(3)] by (simp add: yx)
  moreover have "fld ctxt (heap s') p = Some (FStart y x)" "fld startfn (heap s') p = Some fn"
    "fld startarg (heap s') p = Some arg"
    using agree_fld [OF ag, of ctxt p] agree_fld [OF ag, of startfn p] agree_fld [OF ag, of startarg p]
    by (simp_all add: fld_def fresh_task_def yx)
  ultimately show ?thesis
    using s' by (intro exI [of _ y] exI [of _ x] exI [of _ s'])
      (auto simp: taskstart_def kget_def tget_def fld_def)
qed

theorem created_task_starts_witness:
  "\<exists>y x s'. taskcreate (User 77) 5 32768 \<lparr>malloc_r = Some 4000, getcontext_r = 0, realloc_ok = True\<rparr>
       (demo [(RunQueue, [2000, 3000])]) = Inr (4, s') \<and>
     kinv s' ((demo_lists [(RunQueue, [2000, 3000])])(RunQueue := [2000, 3000, 4000])) \<and>
     taskcount s' = 4 \<and> fld ctxt (heap s') 4000 = Some (FStart y x) \<and>
     taskstart y x s' = Inr (User 77, 5)"
proof -
  let ?qs = "[(RunQueue, [2000, 3000])] :: (lref \<times> addr list) list"
  have "demo_lists ?qs RunQueue @ [4000] = [2000, 3000, 4000]" by (simp add: demo_lists_def)
  moreover have "taskidgen (demo ?qs) = 3" "taskcount (demo ?qs) = 3" by (simp_all add: demo_def)
  ultimately show ?thesis
    using created_task_starts [OF demo_one [of RunQueue] demo_alloc, of "User 77" 5 32768] by auto
qed

subsection \<open>Yielding and exiting\<close>

text \<open>
  A task that yields goes to the end of the run queue and leaves the processor, to resume in
  \<open>taskyield\<close> with the count of switches it had seen; the scheduler, back from it, keeps the task
  alive. When it is resumed it returns the number of other tasks that ran in between.
\<close>

lemma yield_goes_last:
  assumes "kinv s L" "off s L t" "stack_room 0 t s" "fld exiting (heap s) t = Some False"
  shows "\<exists>s1 s2. taskyield s = Blocked s1 \<and> kblock t (FYield (tasknswitch s)) s s1 \<and>
    sched_back t s1 = Inr s2 \<and> s2 = s1\<lparr>taskrunning := None\<rparr> \<and>
    kinv s2 (L(RunQueue := L RunQueue @ [t])) \<and>
    (\<forall>r. tasknswitch r = tasknswitch s + 1 + k \<longrightarrow>
       taskyield_resume (tasknswitch s) r = Done k r)"
proof -
  from taskyield_runs [OF assms(1-3)] obtain s1 where
    s1: "taskyield s = Blocked s1" "kinv s1 (L(RunQueue := L RunQueue @ [t]))"
      "kblock t (FYield (tasknswitch s)) s s1" by blast
  have "fld exiting (heap s1) t = Some False"
    using agree_fld [OF kblock_heap [OF s1(3)], of exiting t] assms(4) by simp
  from sched_back_stay [OF s1(2) this] s1 show ?thesis by (simp add: taskyield_resume_def)
qed

lemma yield_goes_last_witness:
  "\<exists>s1 s2. taskyield (demo [(RunQueue, [2000, 3000])]) = Blocked s1 \<and> sched_back 1000 s1 = Inr s2 \<and>
     kinv s2 ((demo_lists [(RunQueue, [2000, 3000])])(RunQueue := [2000, 3000, 1000])) \<and>
     (\<forall>r. tasknswitch r = 10 \<longrightarrow> taskyield_resume 7 (r :: fdst) = Done 2 r)"
proof -
  let ?qs = "[(RunQueue, [2000, 3000])] :: (lref \<times> addr list) list"
  have "off (demo ?qs) (demo_lists ?qs) 1000" by (rule demo_off) simp_all
  moreover have "stack_room 0 1000 (demo ?qs)" by (rule demo_room) simp
  moreover have "fld exiting (heap (demo ?qs)) 1000 = Some False"
    by (simp add: demo_def demo_task_def fld_def)
  moreover have "demo_lists ?qs RunQueue @ [1000] = [2000, 3000, 1000]" by (simp add: demo_lists_def)
  moreover have "tasknswitch (demo ?qs) = 7" by (simp add: demo_def)
  ultimately show ?thesis
    using yield_goes_last [OF demo_one [of RunQueue], of 1000 2] by auto
qed

text \<open>
  C18: a task that exits is never run again: it leaves the processor without being put in a list,
  and the scheduler frees it, takes it out of the table of tasks, records its status and, unless it
  is a system task, stops counting it.
\<close>

theorem task_exits:
  assumes "kinv s L" "off s L t" "stack_room 0 t s"
  shows "\<exists>s1 s2. taskexit v s = Blocked s1 \<and> sched_back t s1 = Inr s2 \<and> kinv s2 L \<and>
    heap s2 t = None \<and> taskexitval s2 = v \<and> nalltask s2 = nalltask s - 1 \<and>
    users s2 = users s - {t} \<and>
    taskcount s2 = (if t \<in> users s then taskcount s - 1 else taskcount s)"
proof -
  from taskexit_runs [OF assms(1,3), of v] obtain s1 where
    s1: "taskexit v s = Blocked s1" "kinv s1 L" "exited t v s s1" by blast
  from s1(3) obtain tk where tk: "heap s t = Some tk" and
    e: "s1 = s\<lparr>heap := (heap s)(t \<mapsto> tk\<lparr>exiting := True, ctxt := FExit\<rparr>), taskexitval := v\<rparr>"
    by (auto simp: exited_def)
  have "off s1 L t" "fld exiting (heap s1) t = Some True"
    using assms(2) by (simp_all add: e off_def fld_def)
  from sched_back_exit [OF s1(2) this] obtain s2 where
    s2: "sched_back t s1 = Inr s2" "kinv s2 L" "reaped t s1 s2" by (auto simp: runs_iff)
  from s2(3) have f: "heap s2 t = None" "\<forall>u. u \<noteq> t \<longrightarrow> fld unslot (heap s2) u = fld unslot (heap s1) u"
    "taskcount s2 = (if fld system (heap s1) t = Some True then taskcount s1 else taskcount s1 - 1)"
    unfolding reaped_def by blast+
  from s2(3) obtain h a c where "s2 = s1\<lparr>heap := h, alltask := a, nalltask := nalltask s1 - 1,
      taskrunning := None, taskcount := c\<rparr>" unfolding reaped_def by blast
  then have "taskexitval s2 = v" "nalltask s2 = nalltask s - 1" by (simp_all add: e)
  moreover have "fld system (heap s2) u = (if u = t then None else fld system (heap s) u)" for u
  proof (cases "u = t")
    case False
    then have "fld unslot (heap s2) u = fld unslot (heap s1) u" using f(2) by blast
    then have "fld system (heap s2) u = fld system (heap s1) u"
      by (rule fld_through) (simp add: unslot_def)
    with False show ?thesis by (simp add: fld_def e)
  qed (simp add: fld_def f(1))
  then have "users s2 = users s - {t}" by (auto simp: users_def split: if_splits)
  moreover have "taskcount s2 = (if t \<in> users s then taskcount s - 1 else taskcount s)"
    using f(3) tk by (auto simp: e users_def fld_def)
  ultimately show ?thesis using s1(1) s2(1,2) f(1) by blast
qed

theorem task_exits_witness:
  "\<exists>s1 s2. taskexit 3 (demo [(RunQueue, [2000, 3000])]) = Blocked s1 \<and> sched_back 1000 s1 = Inr s2 \<and>
     kinv s2 (demo_lists [(RunQueue, [2000, 3000])]) \<and> heap s2 1000 = None \<and> taskexitval s2 = 3 \<and>
     nalltask s2 = 2 \<and> taskcount s2 = 2"
proof -
  let ?qs = "[(RunQueue, [2000, 3000])] :: (lref \<times> addr list) list"
  have "off (demo ?qs) (demo_lists ?qs) 1000" by (rule demo_off) simp_all
  moreover have "stack_room 0 1000 (demo ?qs)" by (rule demo_room) simp
  moreover have "1000 \<in> users (demo ?qs)" "taskcount (demo ?qs) = 3" "nalltask (demo ?qs) = 3"
    by (simp_all add: demo_def demo_task_def users_def fld_def)
  ultimately show ?thesis
    using task_exits [OF demo_one [of RunQueue], of 1000 3] by auto
qed

subsection \<open>The list of tasks\<close>





end
