(* ===== verification/RwHistory.thy ===== *)
theory RwHistory
  imports Rwlock
begin

text \<open>
  The histories of one reader-writer lock of the program: any interleaving of its operations by
  tasks that have the processor and of steps of the rest of the library. Every step of a history is
  a step of the specification \<open>rw_step\<close> or leaves the lock alone, so the invariant \<open>rw_ok\<close> holds
  throughout. The sequences \<open>L\<close> that the lists hold are determined by the state.
\<close>

lemma kinv_unique: "kinv s L \<Longrightarrow> kinv s L' \<Longrightarrow> L = L'"
  by (auto simp: kinv_def dest: queues_unique)

inductive rw_op ::
  "addr \<Rightarrow> 'a locks_scheme \<times> (lref \<Rightarrow> addr list) \<Rightarrow> 'a locks_scheme \<times> (lref \<Rightarrow> addr list) \<Rightarrow> bool"
  for l :: addr
where
  rlock_done: "off s L t \<Longrightarrow> stack_room 0 t s \<Longrightarrow> do_rlock l block s = Done v s' \<Longrightarrow> kinv s' L' \<Longrightarrow>
     rw_op l (s, L) (s', L')"
| rlock_wait: "off s L t \<Longrightarrow> stack_room 0 t s \<Longrightarrow> do_rlock l block s = Blocked s' \<Longrightarrow> kinv s' L' \<Longrightarrow>
     rw_op l (s, L) (s', L')"
| wlock_done: "off s L t \<Longrightarrow> stack_room 0 t s \<Longrightarrow> do_wlock l block s = Done v s' \<Longrightarrow> kinv s' L' \<Longrightarrow>
     rw_op l (s, L) (s', L')"
| wlock_wait: "off s L t \<Longrightarrow> stack_room 0 t s \<Longrightarrow> do_wlock l block s = Blocked s' \<Longrightarrow> kinv s' L' \<Longrightarrow>
     rw_op l (s, L) (s', L')"
| runlock: "0 < readers s l \<Longrightarrow> runlock l s = Inr s' \<Longrightarrow> kinv s' L' \<Longrightarrow> rw_op l (s, L) (s', L')"
| wunlock: "writer s l \<noteq> None \<Longrightarrow> wunlock l s = Inr s' \<Longrightarrow> kinv s' L' \<Longrightarrow> rw_op l (s, L) (s', L')"
| other: "readers s' l = readers s l \<Longrightarrow> writer s' l = writer s l \<Longrightarrow> L' (RWait l) = L (RWait l) \<Longrightarrow>
     L' (WWait l) = L (WWait l) \<Longrightarrow> kinv s' L' \<Longrightarrow> rw_op l (s, L) (s', L')"

lemma rw_result_determined:
  assumes "rw_result l a woken s L s'" "kinv s' L'"
  shows "rw_abs s' L' l = a"
proof -
  have "L' = L(RWait l := rq a, WWait l := wq a, RunQueue := L RunQueue @ woken)"
    using assms kinv_unique unfolding rw_result_def by blast
  with rw_result_abs [OF assms(1), of l] show ?thesis by simp
qed

lemma rw_wait_abs:
  assumes "kblock t f s s'" "kinv s' (L(q := ts))" "kinv s' L'"
  shows "rw_abs s' L' l = \<lparr>rd = readers s l, wr = writer s l, rq = (L(q := ts)) (RWait l),
    wq = (L(q := ts)) (WWait l)\<rparr>"
  using kinv_unique [OF assms(3,2)] kblock_locks [OF assms(1)] by (simp add: rw_abs_def)

lemma rw_rlock_step:
  assumes k: "kinv s L" and t: "off s L t" "stack_room 0 t s" and k': "kinv s' L'"
    and r: "do_rlock l block s = Done v s' \<or> do_rlock l block s = Blocked s'"
  shows "rw_abs s' L' l = rw_abs s L l \<or> rw_abs s' L' l = rw_rlock t (rw_abs s L l)"
proof -
  let ?a = "rw_abs s L l"
  have run: "taskrunning s = Some t" using t(2) by (simp add: stack_room_def)
  note spec = rw_rlock_runs [OF k run refl, of l]
  show ?thesis
  proof (cases "wr ?a = None \<and> wq ?a = []")
    case True
    with spec(1) [of block] r have "rw_result l (rw_rlock t ?a) [] s L s'" by auto
    from rw_result_determined [OF this k'] show ?thesis by blast
  next
    case False
    then have w: "wr ?a \<noteq> None \<or> wq ?a \<noteq> []" by simp
    show ?thesis
    proof (cases block)
      case True
      with spec(3) [OF w t] r have b: "kinv s' (L(RWait l := rq (rw_rlock t ?a)))"
        "kblock t (FRlock l) s s'" by auto
      from rw_wait_abs [OF b(2,1) k', of l] False show ?thesis
        by (simp add: rw_rlock_def rw_abs_def)
    next
      case False
      with spec(2) [OF w] r have "s' = s" by auto
      with kinv_unique [OF k' [unfolded this] k] show ?thesis by simp
    qed
  qed
qed

lemma rw_wlock_step:
  assumes k: "kinv s L" and t: "off s L t" "stack_room 0 t s" and k': "kinv s' L'"
    and r: "do_wlock l block s = Done v s' \<or> do_wlock l block s = Blocked s'"
  shows "rw_abs s' L' l = rw_abs s L l \<or> rw_abs s' L' l = rw_wlock t (rw_abs s L l)"
proof -
  let ?a = "rw_abs s L l"
  have run: "taskrunning s = Some t" using t(2) by (simp add: stack_room_def)
  note spec = rw_wlock_runs [OF k run refl, of l]
  show ?thesis
  proof (cases "wr ?a = None \<and> rd ?a = 0")
    case True
    with spec(1) [of block] r have "rw_result l (rw_wlock t ?a) [] s L s'" by auto
    from rw_result_determined [OF this k'] show ?thesis by blast
  next
    case False
    then have w: "wr ?a \<noteq> None \<or> rd ?a \<noteq> 0" by simp
    show ?thesis
    proof (cases block)
      case True
      with spec(3) [OF w t] r have b: "kinv s' (L(WWait l := wq (rw_wlock t ?a)))"
        "kblock t (FWlock l) s s'" by auto
      from rw_wait_abs [OF b(2,1) k', of l] False show ?thesis
        by (simp add: rw_wlock_def rw_abs_def)
    next
      case False
      with spec(2) [OF w] r have "s' = s" by auto
      with kinv_unique [OF k' [unfolded this] k] show ?thesis by simp
    qed
  qed
qed

text \<open>The simulation: the code takes the steps of the specification.\<close>

lemma rw_op_simulates:
  assumes "rw_op l (s, L) (s', L')" "kinv s L" "rw_ok (rw_abs s L l)"
  shows "kinv s' L' \<and> (rw_abs s' L' l = rw_abs s L l \<or> rw_step (rw_abs s L l) (rw_abs s' L' l))"
  using assms(1)
proof cases
  case (rlock_done t block v)
  then show ?thesis
    using rw_rlock_step [OF assms(2), of t s' L' l block v] by (auto intro: rw_step.rlock)
next
  case (rlock_wait t block)
  then show ?thesis
    using rw_rlock_step [OF assms(2), of t s' L' l block] by (auto intro: rw_step.rlock)
next
  case (wlock_done t block v)
  then show ?thesis
    using rw_wlock_step [OF assms(2), of t s' L' l block v] by (auto intro: rw_step.wlock)
next
  case (wlock_wait t block)
  then show ?thesis
    using rw_wlock_step [OF assms(2), of t s' L' l block] by (auto intro: rw_step.wlock)
next
  case runlock
  with rw_runlock_runs [OF assms(2) refl, of l] have
    "rw_result l (rw_runlock (rw_abs s L l)) (rw_woken (rw_abs s L l) (rw_runlock (rw_abs s L l))) s L s'"
    by simp
  from rw_result_determined [OF this] runlock show ?thesis
    using rw_step.runlock [of "rw_abs s L l"] by simp
next
  case wunlock
  with assms(3) have "wr (rw_abs s L l) \<noteq> None" "rd (rw_abs s L l) = 0" by (simp_all add: rw_ok_def)
  with rw_wunlock_runs [OF assms(2) refl this] wunlock have
    "rw_result l (rw_wunlock (rw_abs s L l)) (rw_woken (rw_abs s L l) (rw_wunlock (rw_abs s L l))) s L s'"
    by simp
  from rw_result_determined [OF this] wunlock show ?thesis
    using rw_step.wunlock [of "rw_abs s L l"] by simp
next
  case other
  then show ?thesis by (simp add: rw_abs_def)
qed

lemma rw_ops_ok:
  assumes "(rw_op l)\<^sup>*\<^sup>* sL sL'" "kinv (fst sL) (snd sL)" "rw_ok (rw_abs (fst sL) (snd sL) l)"
  shows "kinv (fst sL') (snd sL') \<and> rw_ok (rw_abs (fst sL') (snd sL') l)"
  using assms(1)
proof (induction rule: rtranclp_induct)
  case (step y z)
  then show ?case
    using rw_op_simulates [of l "fst y" "snd y" "fst z" "snd z"] rw_ok_step by auto
qed (use assms in simp)

end
