(* ===== verification/SyncSpec.thy ===== *)
theory SyncSpec
  imports Demo RwHistory
begin

text \<open>
  The properties of locks (\<open>qlock.c\<close>) and rendezvous points (\<open>rendez.c\<close>).
\<close>

subsection \<open>QLock\<close>

text \<open>
  C7: a \<open>QLock\<close> is granted in the order in which it was asked for. Take any interleaving of calls
  of \<open>qlock\<close> and \<open>qunlock\<close> on a lock, from a state in which it is free, and of steps that leave the
  lock and its queue alone. The tasks that have been owner and have unlocked are the first ones
  that asked, in that order; the owner now, followed by the tasks in the queue, are the others.
\<close>

theorem qlock_in_order:
  assumes "flow (lock_ok l) (lock_queue l) can_lock (locked l) (lock_put l) (\<lambda>t sL. t) (lock_get l)
      (owner_of l) sL asked served sL'"
    and "lock_ok l sL" "qowner (fst sL) l = None"
  shows "served = take (length served) asked \<and> lock_queue l sL' = drop (length served) asked \<and>
    lock_ok l sL'"
proof -
  have "lock_queue l sL = []" using assms(3) by (simp add: lock_queue_def)
  from lk.in_order [OF assms(1,2) this] lk.stream [OF assms(1,2)] show ?thesis by blast
qed

theorem qlock_in_order_witness:
  "\<exists>sL sL'. lock_put 50 1000 (demo [], demo_lists []) = Inr sL \<and> lock_get 50 () sL = Inr sL' \<and>
     [1000] = take 1 [1000] \<and> lock_queue 50 sL' = [] \<and> lock_ok 50 sL'"
proof -
  let ?sL = "(demo [], demo_lists [])"
  have ok: "lock_ok 50 ?sL" using demo_idle by (simp add: lock_ok_def demo_lists_def)
  have free: "qowner (fst ?sL) 50 = None" by (simp add: demo_def)
  have "off (demo []) (demo_lists []) 1000" by (rule demo_off) simp_all
  then have can: "can_lock 1000 ?sL" by (simp add: can_lock_def demo_room)
  from lock_put_law [OF ok can] obtain sL1 where
    p: "lock_put 50 1000 ?sL = Inr sL1" "lock_ok 50 sL1" "lock_queue 50 sL1 = lock_queue 50 ?sL @ [1000]"
    by (auto simp: runs_iff)
  have q0: "lock_queue 50 ?sL = []" by (simp add: lock_queue_def demo_def)
  have lk: "locked 50 sL1" "owner_of 50 sL1 = 1000"
    using p(3) q0 by (auto simp: locked_def lock_queue_def owner_of_def split: option.splits)
  from lock_get_law [OF p(2) lk(1), of "()"] obtain sL2 where g: "lock_get 50 () sL1 = Inr sL2"
    by (auto simp: runs_iff)
  have "flow (lock_ok 50) (lock_queue 50) can_lock (locked 50) (lock_put 50) (\<lambda>t sL. t) (lock_get 50)
      (owner_of 50) ?sL ([] @ [1000]) ([] @ [owner_of 50 sL1]) sL2"
    by (rule flow.received [where w = "()"], rule flow.sent [where v = 1000], rule flow.start)
      (rule can, rule p(1), rule lk(1), rule g)
  from qlock_in_order [OF this ok free] p(1) g show ?thesis
    by (intro exI [of _ sL1] exI [of _ sL2]) (simp add: lk(2))
qed

text \<open>
  \<open>qunlock\<close> on every branch. Unlocking a lock that nobody holds stops the program; without
  waiters the lock becomes free; otherwise it is handed to the first waiter, which leaves the queue
  and becomes ready, so that its check of the owner succeeds when it resumes, whatever has happened
  to other locks and tasks in between. Nothing else is changed.
\<close>

lemma qunlock_hands_over:
  assumes "kinv s L"
  shows "if qowner s l = None then qunlock l s = Inl (Abort ''qunlock: owner=0'')
    else case L (QWait l) of
      [] \<Rightarrow> qunlock l s = Inr (s\<lparr>qowner := (qowner s)(l := None)\<rparr>)
    | t # ts \<Rightarrow> runs (qunlock l s) (\<lambda>s'.
        kinv s' (L(QWait l := ts, RunQueue := L RunQueue @ [t])) \<and>
        kframe (s\<lparr>qowner := (qowner s)(l := Some t)\<rparr>) s' \<and>
        (\<forall>r. qowner r l = qowner s' l \<and> taskrunning r = Some t \<longrightarrow>
           do_qlock_resume l r = Done 1 (r :: 'a locks_scheme)))"
proof (cases "qowner s l")
  case None
  then show ?thesis by (simp add: qunlock_def)
next
  case (Some o')
  then have o': "qowner s l \<noteq> None" by simp
  show ?thesis
  proof (cases "L (QWait l)")
    case Nil
    with o' qunlock_last [OF assms o'] show ?thesis by simp
  next
    case (Cons t ts)
    from qunlock_next [OF assms o' Cons] obtain s' where
      s': "qunlock l s = Inr s'" "kinv s' (L(QWait l := ts, RunQueue := L RunQueue @ [t]))"
        "kframe (s\<lparr>qowner := (qowner s)(l := Some t)\<rparr>) s'" by (auto simp: runs_iff)
    from kframe_locks(1) [OF s'(3)] have "qowner s' l = Some t" by simp
    with Cons s' o' show ?thesis by (simp add: do_qlock_resume_def)
  qed
qed

lemma qunlock_hands_over_witness:
  "runs (qunlock 50 ((demo [(QWait 50, [2000, 3000])])\<lparr>qowner := (\<lambda>_. None)(50 := Some 1000)\<rparr>))
    (\<lambda>s'. qowner s' 50 = Some 2000 \<and>
      kinv s' ((demo_lists [(QWait 50, [2000, 3000])])(QWait 50 := [3000], RunQueue := [2000])))"
proof -
  let ?qs = "[(QWait 50, [2000, 3000])] :: (lref \<times> addr list) list"
  let ?s = "(demo ?qs)\<lparr>qowner := (\<lambda>_. None)(50 := Some 1000)\<rparr>"
  have L: "demo_lists ?qs (QWait 50) = [2000, 3000]" "demo_lists ?qs RunQueue = []"
    by (simp_all add: demo_lists_def)
  have k: "kinv ?s (demo_lists ?qs)" using demo_one [of "QWait 50"] by simp
  show ?thesis
    using qunlock_hands_over [OF k, of 50] kframe_locks(1) by (fastforce simp: L runs_iff)
qed

text \<open>
  A task that finds a \<open>QLock\<close> taken is refused without any change when it does not want to
  wait; otherwise it goes to the end of the queue of the lock and leaves the processor.
\<close>

lemma qlock_taken:
  assumes "kinv s L" "off s L t" "stack_room 0 t s" "qowner s l \<noteq> None"
  shows "canqlock l s = Done 0 s \<and>
    (\<exists>s'. qlock l s = Blocked s' \<and> kinv s' (L(QWait l := L (QWait l) @ [t])) \<and>
      kblock t (FQlock l) s s')"
  using qlock_busy [OF assms(4)] qlock_wait [OF assms]
  by (simp_all add: canqlock_def qlock_def)

lemma qlock_taken_witness:
  "\<exists>s'. qlock 50 ((demo [(QWait 50, [2000, 3000])])\<lparr>qowner := (\<lambda>_. None)(50 := Some 2000)\<rparr>) = Blocked s' \<and>
    kinv s' ((demo_lists [(QWait 50, [2000, 3000])])(QWait 50 := [2000, 3000, 1000]))"
proof -
  let ?qs = "[(QWait 50, [2000, 3000])] :: (lref \<times> addr list) list"
  let ?s = "(demo ?qs)\<lparr>qowner := (\<lambda>_. None)(50 := Some 2000)\<rparr>"
  have L: "demo_lists ?qs (QWait 50) @ [1000] = [2000, 3000, 1000]" by (simp add: demo_lists_def)
  have k: "kinv ?s (demo_lists ?qs)" using demo_one [of "QWait 50"] by simp
  have "off (demo ?qs) (demo_lists ?qs) 1000" by (rule demo_off) simp_all
  then have o: "off ?s (demo_lists ?qs) 1000" by simp
  have c: "stack_room 0 1000 ?s" by (simp add: demo_room)
  have w: "qowner ?s 50 \<noteq> None" by simp
  show ?thesis using qlock_taken [OF k o c w] unfolding L by blast
qed

subsection \<open>RWLock\<close>

text \<open>
  C8: mutual exclusion of a reader-writer lock. In every history of the operations on a lock, with
  steps of the rest of the library in between, whose users release only what they hold, a lock that
  a writer holds has no readers, the count of readers is never negative, and tasks wait only while
  the lock is held: readers only behind a writer that holds it or waits, writers only behind a
  writer or readers that hold it.
\<close>

theorem rwlock_exclusion:
  assumes "(rw_op l)\<^sup>*\<^sup>* (s, L) (s', L')" "kinv s L" "rw_ok (rw_abs s L l)"
  shows "(writer s' l \<noteq> None \<longrightarrow> readers s' l = 0) \<and> 0 \<le> readers s' l \<and>
    (L' (RWait l) \<noteq> [] \<longrightarrow> writer s' l \<noteq> None \<or> L' (WWait l) \<noteq> []) \<and>
    (L' (WWait l) \<noteq> [] \<longrightarrow> writer s' l \<noteq> None \<or> 0 < readers s' l)"
  using rw_ops_ok [OF assms(1)] assms(2,3) by (auto simp: rw_ok_def)

theorem rwlock_exclusion_witness:
  "\<exists>s'. wlock 60 (demo []) = Done 1 s' \<and> writer s' 60 \<noteq> None \<and> readers s' 60 = 0"
proof -
  let ?L = "demo_lists [] :: lref \<Rightarrow> addr list"
  let ?s' = "(demo [])\<lparr>writer := (\<lambda>_. None)(60 := Some 1000)\<rparr>"
  have o: "off (demo []) ?L 1000" by (rule demo_off) simp_all
  have w: "do_wlock 60 True (demo []) = Done 1 ?s'"
    by (simp add: do_wlock_def demo_def)
  have "rw_op 60 (demo [], ?L) (?s', ?L)"
    by (rule rw_op.wlock_done [OF o _ w]) (use demo_idle in \<open>simp_all add: demo_room\<close>)
  then have "(rw_op 60)\<^sup>*\<^sup>* (demo [], ?L) (?s', ?L)" by (rule r_into_rtranclp)
  moreover have "rw_ok (rw_abs (demo []) ?L 60)" by (simp add: rw_ok_def demo_def demo_lists_def)
  ultimately have "(writer ?s' 60 \<noteq> None \<longrightarrow> readers ?s' 60 = 0) \<and> 0 \<le> readers ?s' 60 \<and>
      (?L (RWait 60) \<noteq> [] \<longrightarrow> writer ?s' 60 \<noteq> None \<or> ?L (WWait 60) \<noteq> []) \<and>
      (?L (WWait 60) \<noteq> [] \<longrightarrow> writer ?s' 60 \<noteq> None \<or> 0 < readers ?s' 60)"
    by (rule rwlock_exclusion [OF _ demo_idle])
  with w show ?thesis by (simp add: wlock_def)
qed



text \<open>
  C19: what releasing a reader-writer lock does. The last reader hands the lock to the first waiting
  writer; a writer that releases it gives it to all waiting readers at once or, when there are none,
  to the first waiting writer. Exactly the tasks that got the lock become ready, in order, and
  nothing else is changed.
\<close>

theorem rwlock_release:
  assumes "kinv s L" "a = rw_abs s L l"
  shows "runs (runlock l s) (rw_result l (rw_runlock a) (rw_woken a (rw_runlock a)) s L) \<and>
    (writer s l \<noteq> None \<and> readers s l = 0 \<longrightarrow>
       runs (wunlock l s) (rw_result l (rw_wunlock a) (rw_woken a (rw_wunlock a)) s L)) \<and>
    (writer s l = None \<longrightarrow> wunlock l s = Inl (Abort ''wunlock: not locked'')) \<and>
    (writer s l \<noteq> None \<and> readers s l \<noteq> 0 \<longrightarrow> wunlock l s = Inl (Abort ''wunlock: readers''))"
  using rw_runlock_runs [OF assms] rw_wunlock_runs [OF assms] assms(2)
  by (auto simp: wunlock_def)

theorem rwlock_release_witness:
  "runs (wunlock 60 ((demo [(RWait 60, [2000, 3000])])\<lparr>writer := (\<lambda>_. None)(60 := Some 1000)\<rparr>))
    (\<lambda>s'. readers s' 60 = 2 \<and> writer s' 60 = None \<and>
      kinv s' ((demo_lists [(RWait 60, [2000, 3000])])(RWait 60 := [], WWait 60 := [],
        RunQueue := [2000, 3000])))"
proof -
  let ?qs = "[(RWait 60, [2000, 3000])] :: (lref \<times> addr list) list"
  let ?s = "(demo ?qs)\<lparr>writer := (\<lambda>_. None)(60 := Some 1000)\<rparr>" and ?L = "demo_lists ?qs"
  let ?a = "rw_abs ?s ?L 60"
  have L: "?L (RWait 60) = [2000, 3000]" "?L RunQueue = []" "?L (WWait 60) = []"
    by (simp_all add: demo_lists_def)
  have k: "kinv ?s ?L" using demo_one [of "RWait 60"] by simp
  have r: "readers ?s 60 = 0" "readers (demo ?qs) 60 = 0" by (simp_all add: demo_def)
  from rwlock_release [OF k refl, of 60] r(1) obtain s' where
    s': "wunlock 60 ?s = Inr s'" "rw_result 60 (rw_wunlock ?a) (rw_woken ?a (rw_wunlock ?a)) ?s ?L s'"
    by (auto simp: runs_iff)
  have w: "rw_wunlock ?a = \<lparr>rd = 2, wr = None, rq = [], wq = []\<rparr>" "rw_woken ?a (rw_wunlock ?a) = [2000, 3000]"
    by (simp_all add: rw_wunlock_def rw_woken_def rw_abs_def L r)
  from rw_result_abs [OF s'(2), of 60] have "readers s' 60 = 2" "writer s' 60 = None"
    unfolding w(1) by (simp_all add: rw_abs_def)
  moreover have "kinv s' (?L(RWait 60 := [], WWait 60 := [], RunQueue := [2000, 3000]))"
    using s'(2) unfolding w(1) w(2) [unfolded w(1)] rw_result_def L by simp
  ultimately show ?thesis using s'(1) by simp
qed

subsection \<open>Rendezvous points\<close>

text \<open>
  C20: going to sleep on a rendezvous point and releasing its lock is one step: the task is last in
  the list of the rendezvous point, the lock has passed to its first waiter, and no other task has
  run in between, so no wakeup can be missed. When it is resumed it asks for the lock again.
\<close>

theorem tasksleep_releases:
  fixes r t :: addr
  assumes "kinv s L" "off s L t" "stack_room 0 t s" "rzl s r = Some l" "qowner s l \<noteq> None"
  defines "L1 \<equiv> L(RzWait r := L (RzWait r) @ [t])"
  shows "\<exists>s'. tasksleep r s = Blocked s' \<and> qowner s' l = first (L (QWait l)) \<and>
    kinv s' (snd (unlocked (Some l) L1 (qowner s))) \<and> fld ctxt (heap s') t = Some (FSleep r) \<and>
    tasksleep_resume r s' = qlock l s'"
proof -
  obtain own' L' where u: "unlocked (Some l) L1 (qowner s) = (own', L')"
    by (cases "unlocked (Some l) L1 (qowner s)")
  have own: "\<And>m. rzl s r = Some m \<Longrightarrow> qowner s m \<noteq> None" using assms(4,5) by simp
  have "\<exists>s'. tasksleep r s = Blocked s' \<and>
      (case unlocked (rzl s r) (L(RzWait r := L (RzWait r) @ [t])) (qowner s) of (own, L') \<Rightarrow>
         kinv s' L' \<and> kblock t (FSleep r) (s\<lparr>qowner := own\<rparr>) s')"
    by (rule tasksleep_runs [OF assms(1-3)]) (rule own)
  then obtain s' where
    s': "tasksleep r s = Blocked s'" "kinv s' L'" "kblock t (FSleep r) (s\<lparr>qowner := own'\<rparr>) s'"
    using u assms(4) unfolding L1_def by auto
  have "own' l = first (L (QWait l))" using u by (auto simp: unlocked_def L1_def split: list.splits)
  moreover have "qowner s' = own'" using kblock_locks(1) [OF s'(3)] by simp
  moreover have "rzl s' = rzl s" using s'(3) by (rule kblock_elim) simp
  moreover have "fld ctxt (heap s') t = Some (FSleep r)" using kblock_ctxt [OF s'(3)] by simp
  ultimately show ?thesis using s'(1,2) u assms(4) by (simp add: tasksleep_resume_def)
qed

theorem tasksleep_releases_witness:
  "\<exists>s'. tasksleep 70 ((demo [(QWait 50, [2000, 3000])])\<lparr>qowner := (\<lambda>_. None)(50 := Some 1000),
       rzl := (\<lambda>_. None)(70 := Some 50)\<rparr>) = Blocked s' \<and> qowner s' 50 = Some 2000"
proof -
  let ?qs = "[(QWait 50, [2000, 3000])] :: (lref \<times> addr list) list"
  let ?s = "(demo ?qs)\<lparr>qowner := (\<lambda>_. None)(50 := Some 1000), rzl := (\<lambda>_. None)(70 := Some 50)\<rparr>"
  have k: "kinv ?s (demo_lists ?qs)" using demo_one [of "QWait 50"] by simp
  have "off (demo ?qs) (demo_lists ?qs) 1000" by (rule demo_off) simp_all
  then have o: "off ?s (demo_lists ?qs) 1000" by (simp add: off_def)
  have c: "stack_room 0 1000 ?s" using demo_room [of 0 ?qs] by (simp add: stack_room_def)
  have r: "rzl ?s 70 = Some 50" "qowner ?s 50 \<noteq> None" by simp_all
  have "demo_lists ?qs (QWait 50) = [2000, 3000]" by (simp add: demo_lists_def)
  with tasksleep_releases [OF k o c r] show ?thesis by auto
qed

text \<open>
  C21: waking. \<open>taskwakeup\<close> makes the task that has slept longest ready, if there is one, and
  \<open>taskwakeupall\<close> makes all sleeping tasks ready in the order in which they went to sleep; both
  return how many, both end, and nothing else is changed.
\<close>

theorem taskwakeup_wakes:
  fixes r :: addr
  assumes "kinv s L"
  defines "ts \<equiv> \<lambda>all. if all then L (RzWait r) else take 1 (L (RzWait r))"
  shows "runs (if all then taskwakeupall r s else taskwakeup r s) (\<lambda>(n, s').
    n = int (length (ts all)) \<and>
    kinv s' (L(RzWait r := drop (length (ts all)) (L (RzWait r)), RunQueue := L RunQueue @ ts all)) \<and>
    kframe s s')"
proof (cases all)
  case True
  then show ?thesis
    using taskwakeup_all_loop [OF assms(1) refl, of r 0]
    by (simp add: ts_def taskwakeupall_def do_taskwakeup_def)
next
  case False
  show ?thesis
  proof (cases "L (RzWait r)")
    case Nil
    then have "L(RzWait r := [], RunQueue := L RunQueue @ []) = L" by auto
    with assms(1) have "kinv s (L(RzWait r := [], RunQueue := L RunQueue @ []))" by (simp only:)
    with False Nil taskwakeup_one(1) [OF assms(1) Nil] show ?thesis
      by (simp only: ts_def if_False take_Nil drop_Nil list.size runs_Inr prod.case kframe_refl) simp
  next
    case (Cons t us)
    with False taskwakeup_one(2) [OF assms(1) Cons] show ?thesis by (simp add: ts_def)
  qed
qed

theorem taskwakeup_wakes_witness:
  "runs (taskwakeup 70 (demo [(RzWait 70, [2000, 3000])])) (\<lambda>(n, s'). n = 1 \<and>
     kinv s' ((demo_lists [(RzWait 70, [2000, 3000])])(RzWait 70 := [3000], RunQueue := [2000])))"
proof -
  let ?qs = "[(RzWait 70, [2000, 3000])] :: (lref \<times> addr list) list"
  have L: "demo_lists ?qs (RzWait 70) = [2000, 3000]" "demo_lists ?qs RunQueue = []"
    by (simp_all add: demo_lists_def)
  from taskwakeup_wakes [OF demo_one [of "RzWait 70"], where r = 70 and all = False] show ?thesis
    by (auto simp: L runs_iff)
qed

end
