(* ===== verification/ChanSpec.thy ===== *)
theory ChanSpec
  imports Demo
begin

text \<open>
  The properties of channels (\<open>channel.c\<close>).
\<close>

subsection \<open>Examples\<close>

text \<open>
  A buffered channel at 500 that nobody waits on, and an unbuffered one on which task 2000 waits in
  an operation of side \<open>w\<close>.
\<close>

definition demo_queue :: "aptr list \<Rightarrow> altarray" where
  "demo_queue ps = \<lparr>aa = ps, an = word_of_nat (length ps), am = word_of_nat (length ps)\<rparr>"

definition demo_channel :: "32 word \<Rightarrow> aptr list \<Rightarrow> aptr list \<Rightarrow> channel" where
  "demo_channel n ss rs =
     \<lparr>bufsize = n, elemsize = 8, buf = replicate (8 * unat n) 0, nbuf = 0, coff = 0,
       asend = demo_queue ss, arecv = demo_queue rs, cname = None\<rparr>"

definition demo_buffered :: fdst where
  "demo_buffered = (demo [])\<lparr>chans := [500 \<mapsto> demo_channel 2 [] []]\<rparr>"

definition demo_alts :: "side \<Rightarrow> alt list" where
  "demo_alts w =
     [\<lparr>achan = Some 500, av = Some 9000, aop = op_code w, atask = Some 2000, xalt = Some (600, 0)\<rparr>,
      \<lparr>achan = None, av = None, aop = CHANEND, atask = None, xalt = None\<rparr>]"

definition demo_unbuffered :: "side \<Rightarrow> channel" where
  "demo_unbuffered w =
     demo_channel 0 (if w = Asend then [(600, 0)] else []) (if w = Arecv then [(600, 0)] else [])"

definition demo_waiting :: "side \<Rightarrow> fdst" where
  "demo_waiting w = (demo [])\<lparr>heap := (heap (demo []))(2000 \<mapsto> (demo_task [] 2000 1)\<lparr>ctxt := FAlt 600\<rparr>),
     chans := [500 \<mapsto> demo_unbuffered w], alts := [600 \<mapsto> demo_alts w]\<rparr>"

lemma demo_channel_ok: "unat n \<le> 100 \<Longrightarrow> ch_ok (demo_channel n ss rs)"
  by (simp add: ch_ok_def demo_channel_def word_neq_0_conv)

lemma demo_queue_ok: "length ps < 100 \<Longrightarrow> distinct ps \<Longrightarrow> arr_ok (demo_queue ps) \<and> waiting (demo_queue ps) = ps"
  by (simp add: demo_queue_def arr_ok_def waiting_def unat_of_nat)

lemma demo_buffered_call: "op_call demo_buffered (demo_lists []) 1000 600 500 (demo_channel 2 [] [])"
proof -
  have w: "waitq demo_buffered ch w = []" for ch w
    using demo_queue_ok [of "[]"]
    by (cases w) (simp_all add: waitq_def demo_buffered_def demo_channel_def)
  have "alt_inv demo_buffered (demo_lists [])"
    unfolding alt_inv_def chans_ok_def entries_ok_def blocked_def w
    using demo_channel_ok [of 2 "[]" "[]"] demo_queue_ok [of "[]"]
    by (auto simp: demo_buffered_def demo_channel_def split: if_splits)
  moreover have "balanced demo_buffered" by (simp add: balanced_def chan_balanced_def w)
  moreover have "stack_room 512 1000 demo_buffered"
    using demo_room [of 512 "[]"] by (simp add: demo_buffered_def)
  moreover have "kinv demo_buffered (demo_lists [])" using demo_idle by (simp add: demo_buffered_def)
  moreover have "alts demo_buffered 600 = None" by (simp add: demo_buffered_def demo_def)
  ultimately show ?thesis by (simp add: op_call_def) (simp add: demo_buffered_def)
qed

lemma demo_waiting_waitq: "waitq (demo_waiting w) ch v = (if ch = 500 \<and> v = w then [(600, 0)] else [])"
  using demo_queue_ok [of "[(600, 0)]"] demo_queue_ok [of "[]"]
  by (cases v; cases w) (simp_all add: waitq_def demo_waiting_def demo_unbuffered_def demo_channel_def)

lemma op_code_simps: "op_code Asend = CHANSND" "op_code Arecv = CHANRCV"
  by (simp_all add: op_code_def)

lemma op_code_cases: "op_code w \<noteq> 0" "op_code w \<noteq> 3" "op_code w \<noteq> 4" "chanarray (op_code w) = Some w"
  by (cases w; simp add: op_code_simps chanarray_def)+

lemma demo_waiting_parked: "parked (demo_waiting w) (demo_lists []) 600 (demo_alts w) 1 2000"
proof -
  have "off (demo_waiting w) (demo_lists []) 2000"
    by (simp add: off_def demo_waiting_def demo_lists_def)
  moreover have "queued_at (demo_waiting w) 600 0 (demo_alts w ! 0)"
    by (simp add: queued_at_def demo_waiting_waitq demo_alts_def op_code_cases)
  moreover have "taskrunning (demo_waiting w) = Some 1000" by (simp add: demo_waiting_def demo_def)
  ultimately show ?thesis
    by (simp add: parked_def demo_alts_def end_mark_def op_code_cases)
      (simp add: demo_waiting_def demo_alts_def fld_def)
qed

lemma demo_waiting_call: "op_call (demo_waiting w) (demo_lists []) 1000 700 500 (demo_unbuffered w)"
proof -
  have "heap (demo []) 2000 = Some (demo_task [] 2000 1)" by (simp add: demo_def)
  from kinv_data [OF demo_idle this, of "(demo_task [] 2000 1)\<lparr>ctxt := FAlt 600\<rparr>"]
  have k: "kinv (demo_waiting w) (demo_lists [])" by (simp add: demo_waiting_def)
  have "chans_ok (demo_waiting w)"
    using demo_channel_ok [of 0] demo_queue_ok [of "[(600, 0)]"] demo_queue_ok [of "[]"]
    by (cases w) (auto simp: chans_ok_def demo_waiting_def demo_unbuffered_def demo_channel_def split: if_splits)
  moreover have "entries_ok (demo_waiting w)"
    by (simp add: entries_ok_def demo_waiting_waitq entry_ok_def)
      (simp add: demo_waiting_def demo_alts_def end_mark_def op_code_cases)
  moreover have "blocked (demo_waiting w) b \<Longrightarrow> \<exists>as n t. parked (demo_waiting w) (demo_lists []) b as n t" for b
    using demo_waiting_parked by (auto simp: blocked_def demo_waiting_waitq split: if_splits)
  ultimately have "alt_inv (demo_waiting w) (demo_lists [])" by (simp add: alt_inv_def)
  moreover have "balanced (demo_waiting w)"
  proof -
    have "bufsize c = 0" if "chans (demo_waiting w) ch = Some c" for ch c
      using that by (auto simp: demo_waiting_def demo_unbuffered_def demo_channel_def split: if_splits)
    then show ?thesis by (auto simp: balanced_def chan_balanced_def demo_waiting_waitq)
  qed
  moreover have "stack_room 512 1000 (demo_waiting w)"
    using demo_room [of 512 "[]"] by (simp add: demo_waiting_def stack_room_def fld_def)
  moreover have "alts (demo_waiting w) 700 = None" by (simp add: demo_waiting_def demo_def)
  ultimately show ?thesis using k by (simp add: op_call_def) (simp add: demo_waiting_def)
qed

text \<open>The task that waits is the only one that can be parked there.\<close>

lemma demo_waiting_who:
  assumes "parked (demo_waiting w) L 600 as n u"
  shows "as = demo_alts w" "u = 2000"
proof -
  show as: "as = demo_alts w" using assms demo_waiting_parked [of w] by (simp add: parked_def)
  have "n = 1" using assms demo_waiting_parked [of w] as by (simp add: parked_def)
  then show "u = 2000" using assms as by (simp add: parked_def demo_alts_def)
qed

subsection \<open>The buffer\<close>



subsection \<open>chanalt\<close>

text \<open>
  C6: \<open>chanalt\<close> on every path, for any array of operations, channels and waiting tasks. If some of
  the operations can proceed, one of them is carried out and its index is returned; otherwise, if
  the array ends with \<open>CHANNOBLK\<close>, -1 is returned, and if it ends with \<open>CHANEND\<close> every operation is
  queued at its channel and the task leaves the processor. On each path the invariants of the
  kernel and of the channels hold afterwards: every queued operation belongs to a task that is
  suspended in \<open>chanalt\<close>, and no task waits for an operation that could proceed.
\<close>

theorem chanalt_every_path:
  assumes "alt_call s L t b as n" "off s L t" "roomy s n" "\<not> realloc_fails s"
  shows "if ready_ops s as n \<noteq> []
    then \<exists>i ch w c s' L'. i < n \<and> chanalt b r1 r2 s = Done (int i) s' \<and>
      achan (as ! i) = Some ch \<and> chanarray (aop (as ! i)) = Some w \<and> chans s ch = Some c \<and>
      can_exec s ch c w \<and> performed (noted s t b as n) L (as ! i) ch w c s' L' \<and>
      kinv s' L' \<and> alt_inv s' L' \<and> balanced s'
    else if aop (as ! n) = 0
    then \<exists>s'. chanalt b r1 r2 s = Blocked s' \<and> fld ctxt (heap s') t = Some (FAlt b) \<and>
      mem s' = mem s \<and> (\<forall>k. rel_option same_buf (chans s k) (chans s' k)) \<and>
      (\<forall>d v. waitq s' d v = waitq s d v @ map (Pair b) (filter (\<lambda>i. wants (as ! i) d v) [0..<n])) \<and>
      kinv s' L \<and> alt_inv (s'\<lparr>taskrunning := None\<rparr>) L \<and> balanced s'
    else chanalt b r1 r2 s = Done (-1) (noted s t b as n)"
proof (cases "ready_ops s as n = []")
  case False
  then show ?thesis using chanalt_executes [OF assms(1) False, of r1 r2] by simp blast
next
  case True
  then show ?thesis
    using chanalt_waits [OF assms(1,2) True _ assms(3,4), of r1 r2]
      chanalt_paths(2) [OF assms(1) True, of r1 r2]
    by (cases "aop (as ! n) = 0") auto
qed

lemma demo_buffered_alt:
  "alt_call (op_state demo_buffered 600 500 (Some 9000) Asend True) (demo_lists []) 1000 600
     (op_array (Some 500) (Some 9000) Asend True) 1"
  by (rule alt_call_op [OF demo_buffered_call])

lemma demo_buffered_roomy: "roomy (demo_buffered\<lparr>alts := a\<rparr>) 1" "roomy demo_buffered 1"
proof -
  have "unat (am (side_get w c)) = 0" if "chans demo_buffered ch = Some c" for ch c w
    using that by (cases w) (auto simp: demo_buffered_def demo_def demo_channel_def demo_queue_def split: if_splits)
  then show "roomy (demo_buffered\<lparr>alts := a\<rparr>) 1" "roomy demo_buffered 1" by (simp_all add: roomy_def)
qed

theorem chanalt_every_path_witness:
  "\<exists>s'. chanalt 600 5 6 (op_state demo_buffered 600 500 (Some 9000) Asend True) = Done 0 s' \<and> balanced s'"
proof -
  let ?s = "op_state demo_buffered 600 500 (Some 9000) Asend True"
  let ?as = "op_array (Some 500) (Some 9000) Asend True"
  have "off (demo []) (demo_lists []) 1000" by (rule demo_off) simp_all
  then have o: "off ?s (demo_lists []) 1000" by (simp add: demo_buffered_def)
  have r: "roomy ?s 1" by (rule demo_buffered_roomy)
  have f: "\<not> realloc_fails ?s" by (simp add: demo_buffered_def demo_def)
  have "can_exec demo_buffered 500 (demo_channel 2 [] []) Asend"
    by (simp add: can_exec_def demo_channel_def)
  then have "ready_ops ?s ?as 1 \<noteq> []" using ready_ops_op [OF demo_buffered_call] by simp
  with chanalt_every_path [OF demo_buffered_alt o r f, of 5 6] show ?thesis by auto
qed

subsection \<open>Sending and receiving\<close>

lemma op_array_v [simp]: "av (op_array c v w k ! 0) = v"
  by (simp add: op_array_def)

lemma elems_empty: "nbuf c = 0 \<Longrightarrow> elems c = []"
  by (simp add: elems_def)

text \<open>An operation whose partner waits at an empty buffer hands the element over.\<close>

lemma chanop_meets:
  assumes call: "op_call s L t b ch c" and nb: "nbuf c = 0" and can: "can_exec s ch c w"
    and q: "waitq s ch (flip w) \<noteq> []"
  shows "\<exists>other as n u s' sv rv.
    do_chanop b r1 r2 (Some ch) (op_code w) v k s = Done 1 s' \<and>
    other \<in> set (waitq s ch (flip w)) \<and> parked s L (fst other) as n u \<and>
    ends w v (Some (av (as ! snd other))) = (Some sv, Some rv) \<and>
    mem s' = vput (mem s) rv (vval (mem s) (unat (elemsize c)) sv) \<and>
    kinv s' (L(RunQueue := L RunQueue @ [u])) \<and>
    (\<forall>d x. set (waitq s' d x) = {p \<in> set (waitq s d x). fst p \<noteq> fst other}) \<and>
    chanalt_resume (fst other) s' = Done (int (snd other)) s'"
proof -
  from chanop_performed [OF call can, of r1 r2 v k] obtain s' L' where
    e: "do_chanop b r1 r2 (Some ch) (op_code w) v k s = Done 1 s'" "kinv s' L'"
      "performed s L (op_array (Some ch) v w k ! 0) ch w c s' L'" by blast
  from e(3) q obtain other as n u c' where
    p: "other \<in> set (waitq s ch (flip w))" "parked s L (fst other) as n u"
      "L' = L(RunQueue := L RunQueue @ [u])"
      "moved (fst (ends w v (Some (av (as ! snd other))))) (snd (ends w v (Some (av (as ! snd other)))))
         (mem s) c (mem s') c'" "released s ch c' other as s'"
    unfolding performed_def op_array_v by blast
  obtain sv rv where sr: "ends w v (Some (av (as ! snd other))) = (Some sv, Some rv)" by (cases w) auto
  have "mem s' = vput (mem s) rv (vval (mem s) (unat (elemsize c)) sv)"
    using p(4) by (auto simp: sr moved_def nb elems_empty [OF nb])
  moreover have "\<forall>d x. set (waitq s' d x) = {p \<in> set (waitq s d x). fst p \<noteq> fst other}"
    using p(5) unfolding released_def by blast
  moreover have "alts s (fst other) = Some as" "alt_end as = Some n"
    using p(2) by (simp_all add: parked_def)
  from chanalt_resumes [OF p(5) this] have "chanalt_resume (fst other) s' = Done (int (snd other)) s'" .
  moreover have "kinv s' (L(RunQueue := L RunQueue @ [u]))" using e(2) by (simp only: p(3))
  ultimately show ?thesis using e(1) p(1,2) sr by blast
qed

text \<open>
  C11: a send meets a waiting receiver. When the buffer is empty or absent and tasks wait to receive,
  \<open>chansend\<close> returns 1 at once; the element is copied from the sender's memory straight to where one
  of the receivers wants it; all operations of that receiver are taken out of all queues, it becomes
  ready, and when it resumes its \<open>chanalt\<close> returns the index of this operation.
\<close>

theorem send_meets_receiver:
  assumes "op_call s L t b ch c" "nbuf c = 0" "waitq s ch Arecv \<noteq> []"
  shows "\<exists>other as n u s'. chansend b r1 r2 (Some ch) v s = Done 1 s' \<and>
    other \<in> set (waitq s ch Arecv) \<and> parked s L (fst other) as n u \<and>
    mem s' = vput (mem s) (av (as ! snd other)) (vval (mem s) (unat (elemsize c)) v) \<and>
    kinv s' (L(RunQueue := L RunQueue @ [u])) \<and>
    (\<forall>d x. set (waitq s' d x) = {p \<in> set (waitq s d x). fst p \<noteq> fst other}) \<and>
    chanalt_resume (fst other) s' = Done (int (snd other)) s'"
proof -
  have "can_exec s ch c Asend" using assms(2,3) by (auto simp: can_exec_def word_neq_0_conv)
  from chanop_meets [OF assms(1,2) this, of r1 r2 v True] assms(3) show ?thesis
    by (auto simp: chansend_def op_code_simps)
qed

theorem send_meets_receiver_witness:
  "\<exists>s'. chansend 700 0 0 (Some 500) (Some 8000) (demo_waiting Arecv) = Done 1 s' \<and>
     mem s' = mem_write (mem (demo_waiting Arecv)) 9000 (mem_read (mem (demo_waiting Arecv)) 8000 8) \<and>
     kinv s' ((demo_lists [])(RunQueue := [2000])) \<and> chanalt_resume 600 s' = Done 0 s'"
proof -
  let ?s = "demo_waiting Arecv"
  have "nbuf (demo_unbuffered Arecv) = 0" "waitq ?s 500 Arecv \<noteq> []"
    and e: "unat (elemsize (demo_unbuffered Arecv)) = 8" "demo_lists [] RunQueue = []"
    by (simp_all add: demo_unbuffered_def demo_channel_def demo_waiting_waitq demo_lists_def)
  from send_meets_receiver [OF demo_waiting_call this(1,2), of 0 0 "Some 8000"] obtain as n u s' where
    s': "chansend 700 0 0 (Some 500) (Some 8000) ?s = Done 1 s'"
      "parked ?s (demo_lists []) 600 as n u"
      "mem s' = vput (mem ?s) (av (as ! 0)) (vval (mem ?s) 8 (Some 8000))"
      "kinv s' ((demo_lists [])(RunQueue := [u]))" "chanalt_resume 600 s' = Done 0 s'"
    by (auto simp: demo_waiting_waitq e)
  note who = demo_waiting_who [OF s'(2)]
  show ?thesis using s'(1,3,4,5) unfolding who by (auto simp: vput_def vval_def demo_alts_def)
qed

text \<open>
  C12: a receive meets a waiting sender. On a channel without a buffer, \<open>chanrecv\<close> copies the element
  of one of the waiting senders to where it was asked for, returns 1, and that sender becomes ready
  with the index of its operation.
\<close>

theorem receive_meets_sender:
  assumes "op_call s L t b ch c" "bufsize c = 0" "waitq s ch Asend \<noteq> []"
  shows "\<exists>other as n u s'. chanrecv b r1 r2 (Some ch) v s = Done 1 s' \<and>
    other \<in> set (waitq s ch Asend) \<and> parked s L (fst other) as n u \<and>
    mem s' = vput (mem s) v (vval (mem s) (unat (elemsize c)) (av (as ! snd other))) \<and>
    kinv s' (L(RunQueue := L RunQueue @ [u])) \<and>
    (\<forall>d x. set (waitq s' d x) = {p \<in> set (waitq s d x). fst p \<noteq> fst other}) \<and>
    chanalt_resume (fst other) s' = Done (int (snd other)) s'"
proof -
  have "chans_ok s" "chans s ch = Some c" using assms(1) by (simp_all add: op_call_def alt_inv_def)
  then have "ch_ok c" by (simp add: chans_ok_def)
  then have nb: "nbuf c = 0" using assms(2) by (simp add: ch_ok_def)
  have "can_exec s ch c Arecv" using assms(2,3) by (simp add: can_exec_def)
  from chanop_meets [OF assms(1) nb this, of r1 r2 v True] assms(3) show ?thesis
    by (auto simp: chanrecv_def op_code_simps)
qed

theorem receive_meets_sender_witness:
  "\<exists>s'. chanrecv 700 0 0 (Some 500) (Some 8000) (demo_waiting Asend) = Done 1 s' \<and>
     mem s' = mem_write (mem (demo_waiting Asend)) 8000 (mem_read (mem (demo_waiting Asend)) 9000 8) \<and>
     kinv s' ((demo_lists [])(RunQueue := [2000])) \<and> chanalt_resume 600 s' = Done 0 s'"
proof -
  let ?s = "demo_waiting Asend"
  have "bufsize (demo_unbuffered Asend) = 0" "waitq ?s 500 Asend \<noteq> []"
    and e: "unat (elemsize (demo_unbuffered Asend)) = 8" "demo_lists [] RunQueue = []"
    by (simp_all add: demo_unbuffered_def demo_channel_def demo_waiting_waitq demo_lists_def)
  from receive_meets_sender [OF demo_waiting_call this(1,2), of 0 0 "Some 8000"] obtain as n u s' where
    s': "chanrecv 700 0 0 (Some 500) (Some 8000) ?s = Done 1 s'"
      "parked ?s (demo_lists []) 600 as n u"
      "mem s' = vput (mem ?s) (Some 8000) (vval (mem ?s) 8 (av (as ! 0)))"
      "kinv s' ((demo_lists [])(RunQueue := [u]))" "chanalt_resume 600 s' = Done 0 s'"
    by (auto simp: demo_waiting_waitq e)
  note who = demo_waiting_who [OF s'(2)]
  show ?thesis using s'(1,3,4,5) unfolding who by (auto simp: vput_def vval_def demo_alts_def)
qed

lemma chanop_alone:
  assumes call: "op_call s L t b ch c" and can: "can_exec s ch c w" and q: "waitq s ch (flip w) = []"
  shows "\<exists>m' c'. do_chanop b r1 r2 (Some ch) (op_code w) v k s =
      Done 1 (s\<lparr>mem := m', chans := (chans s)(ch \<mapsto> c')\<rparr>) \<and> same_chan c c' \<and>
    op_call (s\<lparr>mem := m', chans := (chans s)(ch \<mapsto> c')\<rparr>) L t b ch c' \<and>
    (case w of
       Asend \<Rightarrow> m' = mem s \<and> elems c' = elems c @ [vval (mem s) (unat (elemsize c)) v]
     | Arecv \<Rightarrow> \<exists>x. elems c = x # elems c' \<and> m' = vput (mem s) v x)"
proof -
  from chanop_performed [OF call can, of r1 r2 v k] obtain s' L' where
    e: "do_chanop b r1 r2 (Some ch) (op_code w) v k s = Done 1 s'" "kinv s' L'" "alt_inv s' L'" "balanced s'"
      "performed s L (op_array (Some ch) v w k ! 0) ch w c s' L'" by blast
  from e(5) q obtain c' m' where
    p: "L' = L" "s' = s\<lparr>mem := m', chans := (chans s)(ch \<mapsto> c')\<rparr>" "same_chan c c'"
      "moved (fst (ends w v None)) (snd (ends w v None)) (mem s) c (mem s') c'"
    unfolding performed_def op_array_v by auto
  have "op_call s' L t b ch c'"
    using e(2-4) p(1) call by (simp add: op_call_def) (simp add: p(2))
  moreover have "case w of
       Asend \<Rightarrow> m' = mem s \<and> elems c' = elems c @ [vval (mem s) (unat (elemsize c)) v]
     | Arecv \<Rightarrow> \<exists>x. elems c = x # elems c' \<and> m' = vput (mem s) v x"
  proof (cases w)
    case Asend
    with p(4) show ?thesis by (auto simp: moved_def p(2))
  next
    case Arecv
    with p(4) obtain x where "x # elems c' = elems c" "m' = vput (mem s) v x"
      by (auto simp: moved_def p(2))
    then show ?thesis using Arecv by (auto intro!: exI [of _ x])
  qed
  ultimately show ?thesis using e(1) p(3) unfolding p(2) by blast
qed

text \<open>
  C14: a send into a buffer. With room in the buffer and nobody waiting to receive, \<open>chansend\<close> and
  \<open>channbsend\<close> return 1 at once, the element is the last one of the buffer, and nothing else is
  changed.
\<close>

theorem send_into_buffer:
  assumes "op_call s L t b ch c" "nbuf c < bufsize c" "waitq s ch Arecv = []"
  shows "\<exists>c'. (if block then chansend else channbsend) b r1 r2 (Some ch) v s =
      Done 1 (s\<lparr>chans := (chans s)(ch \<mapsto> c')\<rparr>) \<and>
    elems c' = elems c @ [vval (mem s) (unat (elemsize c)) v] \<and> same_chan c c'"
proof -
  have can: "can_exec s ch c Asend" using assms(2) by (auto simp: can_exec_def)
  have q: "waitq s ch (flip Asend) = []" using assms(3) by simp
  have "s\<lparr>mem := mem s, chans := x\<rparr> = s\<lparr>chans := x\<rparr>" for x by simp
  with chanop_alone [OF assms(1) can q, of r1 r2 v block] show ?thesis
    by (auto simp: chansend_def channbsend_def op_code_simps)
qed

theorem send_into_buffer_witness:
  "\<exists>c'. channbsend 600 1 2 (Some 500) (Some 9000) demo_buffered =
      Done 1 (demo_buffered\<lparr>chans := (chans demo_buffered)(500 \<mapsto> c')\<rparr>) \<and>
    elems c' = [mem_read (mem demo_buffered) 9000 8]"
proof -
  let ?c = "demo_channel 2 [] []"
  have "nbuf ?c < bufsize ?c" "waitq demo_buffered 500 Arecv = []"
    "elems ?c = []" "unat (elemsize ?c) = 8"
    using demo_queue_ok [of "[]"]
    by (simp_all add: demo_channel_def elems_def demo_buffered_def waitq_def)
  with send_into_buffer [OF demo_buffered_call, where block = False and v = "Some 9000" and ?r1.0 = 1 and ?r2.0 = 2]
  show ?thesis by (auto simp: vval_def)
qed

text \<open>
  C15: a receive from a buffer. With an element in the buffer and nobody waiting to send, \<open>chanrecv\<close>
  and \<open>channbrecv\<close> return 1 at once and deliver the oldest element to where it was asked for.
\<close>

theorem receive_from_buffer:
  assumes "op_call s L t b ch c" "0 < nbuf c" "waitq s ch Asend = []"
  shows "\<exists>c' x. (if block then chanrecv else channbrecv) b r1 r2 (Some ch) v s =
      Done 1 (s\<lparr>mem := vput (mem s) v x, chans := (chans s)(ch \<mapsto> c')\<rparr>) \<and>
    elems c = x # elems c' \<and> same_chan c c'"
proof -
  have "chans_ok s" "chans s ch = Some c" using assms(1) by (simp_all add: op_call_def alt_inv_def)
  then have "nbuf c \<le> bufsize c" by (auto simp: chans_ok_def ch_ok_def)
  with assms(2) have can: "can_exec s ch c Arecv" by (auto simp: can_exec_def)
  have q: "waitq s ch (flip Arecv) = []" using assms(3) by simp
  from chanop_alone [OF assms(1) can q, of r1 r2 v block] show ?thesis
    by (auto simp: chanrecv_def channbrecv_def op_code_simps)
qed

text \<open>The buffered channel with one element in it.\<close>

definition demo_full :: fdst where
  "demo_full = demo_buffered\<lparr>chans := [500 \<mapsto> (demo_channel 2 [] [])\<lparr>nbuf := 1\<rparr>]\<rparr>"

lemma demo_full_call: "op_call demo_full (demo_lists []) 1000 600 500 ((demo_channel 2 [] [])\<lparr>nbuf := 1\<rparr>)"
proof -
  let ?c = "demo_channel 2 [] []"
  have "waitq demo_buffered ch w = []" for ch w
    using demo_queue_ok [of "[]"]
    by (cases w) (simp_all add: waitq_def demo_buffered_def demo_channel_def)
  then have w: "waitq demo_full ch w = []" for ch w
    using demo_queue_ok [of "[]"]
    by (cases w) (auto simp: waitq_def demo_full_def demo_channel_def)
  have "ch_ok (?c\<lparr>nbuf := 1\<rparr>)" by (simp add: ch_ok_def demo_channel_def)
  then have "alt_inv demo_full (demo_lists [])"
    unfolding alt_inv_def chans_ok_def entries_ok_def blocked_def w
    using demo_queue_ok [of "[]"] by (auto simp: demo_full_def demo_channel_def split: if_splits)
  moreover have "balanced demo_full" by (simp add: balanced_def chan_balanced_def w)
  ultimately show ?thesis
    using demo_buffered_call by (simp add: op_call_def demo_full_def)
qed

theorem receive_from_buffer_witness:
  "\<exists>c' x. channbrecv 600 1 2 (Some 500) (Some 9000) demo_full =
      Done 1 (demo_full\<lparr>mem := mem_write (mem demo_full) 9000 x, chans := (chans demo_full)(500 \<mapsto> c')\<rparr>) \<and>
    elems c' = [] \<and> x = replicate 8 0"
proof -
  let ?c = "(demo_channel 2 [] [])\<lparr>nbuf := 1\<rparr>"
  have e: "0 < nbuf ?c" "waitq demo_full 500 Asend = []" "elems ?c = [replicate 8 0]"
    using demo_queue_ok [of "[]"]
    by (simp_all add: demo_channel_def elems_def slot_def demo_full_def waitq_def)
  from receive_from_buffer [OF demo_full_call e(1,2), where block = False and v = "Some 9000" and ?r1.0 = 1 and ?r2.0 = 2]
  show ?thesis unfolding e(3) by (auto simp: vput_def)
qed

text \<open>
  C13: an operation that cannot proceed. The non-blocking forms return -1 and leave the whole state as
  it was; the blocking forms put the task at the end of the one queue concerned, move no data, keep
  the invariants and leave the processor.
\<close>

theorem operation_refused_or_waits:
  assumes "op_call s L t b ch c" "\<not> can_exec s ch c w" "off s L t" "roomy s 1" "\<not> realloc_fails s"
  shows "(case w of Asend \<Rightarrow> channbsend | Arecv \<Rightarrow> channbrecv) b r1 r2 (Some ch) v s = Done (-1) s \<and>
    (\<exists>s'. (case w of Asend \<Rightarrow> chansend | Arecv \<Rightarrow> chanrecv) b r1 r2 (Some ch) v s = Blocked s' \<and>
       kinv s' L \<and> alt_inv (s'\<lparr>taskrunning := None\<rparr>) L \<and> balanced s' \<and>
       fld ctxt (heap s') t = Some (FAlt b) \<and> mem s' = mem s \<and>
       (\<forall>k. rel_option same_buf (chans s k) (chans s' k)) \<and>
       (\<forall>d x. waitq s' d x = waitq s d x @ (if d = ch \<and> x = w then [(b, 0)] else [])))"
  using chanop_refused [OF assms(1,2), of r1 r2 v] chanop_waits [OF assms(1,3,2,4,5), of r1 r2 v]
  by (cases w) (simp_all add: op_code_simps chansend_def chanrecv_def channbsend_def channbrecv_def)

theorem operation_refused_or_waits_witness:
  "channbrecv 600 1 2 (Some 500) (Some 9000) demo_buffered = Done (-1) demo_buffered \<and>
   (\<exists>s'. chanrecv 600 1 2 (Some 500) (Some 9000) demo_buffered = Blocked s' \<and>
      fld ctxt (heap s') 1000 = Some (FAlt 600))"
proof -
  have c: "\<not> can_exec demo_buffered 500 (demo_channel 2 [] []) Arecv"
    by (simp add: can_exec_def demo_channel_def)
  have "off (demo []) (demo_lists []) 1000" by (rule demo_off) simp_all
  then have o: "off demo_buffered (demo_lists []) 1000" by (simp add: demo_buffered_def)
  have f: "\<not> realloc_fails demo_buffered" by (simp add: demo_buffered_def demo_def)
  from operation_refused_or_waits [OF demo_buffered_call c o demo_buffered_roomy(2) f, of 1 2 "Some 9000"]
  show ?thesis by auto
qed

subsection \<open>Values\<close>



end
