(* ===== verification/FdSpec.thy ===== *)
theory FdSpec
  imports Demo
begin

text \<open>
  The properties of timers and descriptors (\<open>fd.c\<close>).
\<close>

subsection \<open>Timers\<close>

text \<open>
  C24: a task that calls \<open>taskdelay\<close> leaves the processor and is put into the list of sleeping tasks
  at the place of its alarm time, before the tasks that wake later or at the same time; the list
  stays sorted. A task that is not a system task counts as sleeping, and the first such task keeps
  the program alive.
\<close>

theorem taskdelay_sleeps:
  assumes "kinv s L" "off s L t" "stack_room 0 t s" "startedfdtask s" "sleep_sorted s L"
  shows "\<exists>s' L'. taskdelay ms now lib s = Blocked s' \<and>
    L' = L(Sleeping := insort_key (alarm (heap s')) t (L Sleeping)) \<and> kinv s' L' \<and>
    sleep_sorted s' L' \<and> alarm (heap s') t = now + ucast ms * 1000000 \<and>
    fld ctxt (heap s') t = Some (FDelay now) \<and>
    sleepingcounted s' = sleepingcounted s + (if t \<in> users s then 1 else 0) \<and>
    taskcount s' = taskcount s + (if t \<in> users s \<and> sleepingcounted s = 0 then 1 else 0)"
proof -
  let ?w = "now + ucast ms * 1000000"
  from taskdelay_runs [OF assms(1-4)] obtain s' where
    s': "taskdelay ms now lib s = Blocked s'" "asleep t ?w now s s'"
      "kinv s' (L(Sleeping := insort_key (alarm (heap s')) t (L Sleeping)))" by blast
  have a: "fld alarmtime (heap s') = (fld alarmtime (heap s))(t \<mapsto> ?w)"
    "fld ctxt (heap s') = (fld ctxt (heap s))(t \<mapsto> FDelay now)"
    "sleepingcounted s' = sleepingcounted s + (if t \<in> users s then 1 else 0)"
    "taskcount s' = taskcount s + (if t \<in> users s \<and> sleepingcounted s = 0 then 1 else 0)"
    using s'(2) unfolding asleep_def by blast+
  have "alarm (heap s') t = ?w" using fun_cong [OF a(1), of t] by (auto simp: alarm_def fld_def)
  with a s'(1,3) asleep_sorted [OF s'(2) assms(2,5)] show ?thesis by auto
qed


theorem taskdelay_sleeps_witness:
  "\<exists>s'. taskdelay 5 2000 \<lparr>malloc_r = None, getcontext_r = 0, realloc_ok = True\<rparr>
       (demo [(Sleeping, [2000, 3000])]) = Blocked s' \<and>
     alarm (heap s') 1000 = 5002000 \<and> sleepingcounted s' = 1 \<and> taskcount s' = 4"
proof -
  let ?qs = "[(Sleeping, [2000, 3000])] :: (lref \<times> addr list) list"
  have o: "off (demo ?qs) (demo_lists ?qs) 1000" by (rule demo_off) simp_all
  have c: "stack_room 0 1000 (demo ?qs)" by (rule demo_room) simp
  have st: "startedfdtask (demo ?qs)" by (simp add: demo_def)
  have srt: "sleep_sorted (demo ?qs) (demo_lists ?qs)"
    by (simp add: sleep_sorted_def demo_lists_def alarm_def demo_def demo_task_def)
  have "1000 \<in> users (demo ?qs)" "sleepingcounted (demo ?qs) = 0" "taskcount (demo ?qs) = 3"
    by (simp_all add: users_def demo_def demo_task_def fld_def)
  with taskdelay_sleeps [OF demo_one o c st srt, where ms = 5 and now = 2000
      and lib = "\<lparr>malloc_r = None, getcontext_r = 0, realloc_ok = True\<rparr>"]
  show ?thesis by auto
qed

text \<open>
  C22: waking by time is exact. When the list is sorted, the loop of \<open>fdtask\<close> ends, makes ready every
  sleeping task whose alarm time has come, in the order of the list, and no other; the counters drop
  by the tasks that counted.
\<close>

theorem expire_wakes_due:
  assumes "kinv s L" "sleep_sorted s L" "counted s (L Sleeping) \<le> sleepingcounted s"
  shows "runs (expire now s) (\<lambda>s'.
    kinv s' (L(Sleeping := filter (\<lambda>u. now < alarm (heap s) u) (L Sleeping),
               RunQueue := L RunQueue @ filter (\<lambda>u. alarm (heap s) u \<le> now) (L Sleeping))) \<and>
    sleepingcounted s' = sleepingcounted s - counted s (filter (\<lambda>u. alarm (heap s) u \<le> now) (L Sleeping)) \<and>
    taskcount s' = taskcount s - (if 0 < sleepingcounted s \<and> sleepingcounted s' = 0 then 1 else 0))"
proof -
  have "takeWhile (\<lambda>u. f u \<le> now) xs = filter (\<lambda>u. f u \<le> now) xs \<and>
      dropWhile (\<lambda>u. f u \<le> now) xs = filter (\<lambda>u. now < f u) xs"
    if "sorted (map f xs)" for f :: "addr \<Rightarrow> 64 word" and xs
    using that
  proof (induction xs)
    case (Cons x xs)
    show ?case
    proof (cases "f x \<le> now")
      case True
      with Cons show ?thesis by (simp add: not_less)
    next
      case False
      then have "\<forall>y \<in> set (x # xs). now < f y" using Cons.prems by (auto intro: less_le_trans)
      then have "filter (\<lambda>u. now < f u) (x # xs) = x # xs" "filter (\<lambda>u. f u \<le> now) (x # xs) = []"
        by (auto simp: filter_id_conv filter_empty_conv not_le)
      with False show ?thesis by simp
    qed
  qed simp
  from this [OF assms(2) [unfolded sleep_sorted_def]]
    expire_runs [OF assms(1) refl assms(3), of now] show ?thesis
    by (simp only: runs_iff) blast
qed

theorem expire_wakes_due_witness:
  "runs (expire 2500 ((demo [(Sleeping, [2000, 3000])])\<lparr>sleepingcounted := 2, taskcount := 4\<rparr>)) (\<lambda>s'.
     kinv s' ((demo_lists [(Sleeping, [2000, 3000])])(Sleeping := [3000], RunQueue := [2000])) \<and>
     sleepingcounted s' = 1 \<and> taskcount s' = 4)"
proof -
  let ?qs = "[(Sleeping, [2000, 3000])] :: (lref \<times> addr list) list"
  let ?s = "(demo ?qs)\<lparr>sleepingcounted := 2, taskcount := 4\<rparr>"
  have L: "demo_lists ?qs Sleeping = [2000, 3000]" "demo_lists ?qs RunQueue = []"
    by (simp_all add: demo_lists_def)
  have k: "kinv ?s (demo_lists ?qs)" using demo_one [of Sleeping] by simp
  have al: "alarm (heap ?s) 2000 = 2000" "alarm (heap ?s) 3000 = 3000"
    by (simp_all add: alarm_def demo_def demo_task_def)
  have c: "counted ?s [2000, 3000] = 2" "counted ?s [2000] = 1"
    by (simp_all add: counted_def demo_def demo_task_def fld_def)
  have "sleep_sorted ?s (demo_lists ?qs)" "counted ?s (demo_lists ?qs Sleeping) \<le> sleepingcounted ?s"
    by (simp_all only: sleep_sorted_def L al c list.map) simp_all
  from expire_wakes_due [OF k this, of 2500] show ?thesis
    by (simp only: L filter.simps al c runs_iff) (auto simp: c)
qed



subsection \<open>Descriptors\<close>

text \<open>
  C23: the sweep over the poll table is exact although it moves entries while it runs. It ends, makes
  ready exactly the tasks whose entries have events, each once, and leaves in the table exactly the
  entries without events; the waiting tasks stay pairwise different and in no list.
\<close>

theorem poll_sweep_exact:
  assumes "kinv s L" "pollers_ok s L"
  shows "runs (wake_ready s) (\<lambda>s'. \<exists>ws. kinv s' (L(RunQueue := L RunQueue @ map snd ws)) \<and>
    pollers_ok s' (L(RunQueue := L RunQueue @ map snd ws)) \<and>
    mset ws = filter_mset (\<lambda>x. revents (fst x) \<noteq> 0) (mset (pollers s)) \<and>
    mset (pollers s') = filter_mset (\<lambda>x. revents (fst x) = 0) (mset (pollers s)))"
  by (rule runs_mono [OF wake_ready_runs [OF assms]]) blast

text \<open>Two tasks wait, the first has an event.\<close>

definition demo_poll :: fdst where
  "demo_poll = (demo [])\<lparr>npollfd := 2,
     pollfd := [\<lparr>pfd = 3, events = {POLLIN}, revents = 1\<rparr>, \<lparr>pfd = 4, events = {POLLIN}, revents = 0\<rparr>] @
       replicate 1022 \<lparr>pfd = 0, events = {}, revents = 0\<rparr>,
     polltask := [2000, 3000] @ replicate 1022 0\<rparr>"

lemma demo_pollers:
  "pollers demo_poll = [(\<lparr>pfd = 3, events = {POLLIN}, revents = 1\<rparr>, 2000),
     (\<lparr>pfd = 4, events = {POLLIN}, revents = 0\<rparr>, 3000)]"
  by (simp add: pollers_def demo_poll_def numeral_2_eq_2)

lemma demo_poll_ok: "kinv demo_poll (demo_lists [])" "pollers_ok demo_poll (demo_lists [])"
proof -
  show "kinv demo_poll (demo_lists [])" using demo_idle by (simp add: demo_poll_def)
  have "off demo_poll (demo_lists []) 2000" "off demo_poll (demo_lists []) 3000"
    by (simp_all add: off_def demo_poll_def demo_def demo_lists_def)
  then show "pollers_ok demo_poll (demo_lists [])"
    by (simp add: pollers_ok_def demo_pollers) (simp add: tables_ok_def demo_poll_def)
qed

theorem poll_sweep_exact_witness:
  "runs (wake_ready demo_poll) (\<lambda>s'. kinv s' ((demo_lists [])(RunQueue := [2000])) \<and>
     map snd (pollers s') = [3000])"
proof -
  from poll_sweep_exact [OF demo_poll_ok] obtain s' ws where
    s': "wake_ready demo_poll = Inr s'" "kinv s' ((demo_lists [])(RunQueue := demo_lists [] RunQueue @ map snd ws))"
      "mset ws = filter_mset (\<lambda>x. revents (fst x) \<noteq> 0) (mset (pollers demo_poll))"
      "mset (pollers s') = filter_mset (\<lambda>x. revents (fst x) = 0) (mset (pollers demo_poll))"
    unfolding runs_iff by blast
  have "map snd ws = [2000]" "map snd (pollers s') = [3000]"
    using s'(3,4) by (auto simp: demo_pollers)
  moreover have "demo_lists [] RunQueue = []" by (simp add: demo_lists_def)
  ultimately show ?thesis using s'(1,2) by simp
qed

text \<open>
  C25: one turn of \<open>fdtask\<close> in which \<open>poll\<close> succeeds: the tasks whose descriptors have events become
  ready, and after them, in the order of their alarms, the sleeping tasks at the front of the list
  whose time has come; all others keep waiting.
\<close>

theorem fdtask_turn_wakes:
  assumes "kinv s L" "pollers_ok s L" "stack_room 0 t s" "counted s (L Sleeping) \<le> sleepingcounted s"
    and "\<And>tab n ms. 0 \<le> poll_r (pl tab n ms)"
  shows "\<exists>ms rv s' ws. poll_ms now1 s = Inr ms \<and> rv = poll_revents (pl (pollfd s) (npollfd s) ms) \<and>
    fdtask_turn now1 pl now2 s = Done () s' \<and>
    kinv s' (L(Sleeping := dropWhile (\<lambda>u. alarm (heap s) u \<le> now2) (L Sleeping),
       RunQueue := L RunQueue @ map snd ws @ takeWhile (\<lambda>u. alarm (heap s) u \<le> now2) (L Sleeping))) \<and>
    mset ws = filter_mset (\<lambda>x. revents (fst x) \<noteq> 0) (mset (pollers (set_revents rv s))) \<and>
    mset (pollers s') = filter_mset (\<lambda>x. revents (fst x) = 0) (mset (pollers (set_revents rv s)))"
  by (rule fdtask_turn_runs [OF assms])

theorem fdtask_turn_wakes_witness:
  "\<exists>s'. fdtask_turn 0 (\<lambda>tab n ms. \<lparr>poll_r = 1, poll_eintr = False, poll_revents = (\<lambda>i. if i = 1 then 1 else 0)\<rparr>)
       7 demo_poll = Done () s' \<and> map snd (pollers s') = [2000] \<and>
     kinv s' ((demo_lists [])(Sleeping := [], RunQueue := [3000]))"
proof -
  let ?pl = "\<lambda>(tab :: pollent list) (n :: nat) (ms :: int).
    \<lparr>poll_r = 1, poll_eintr = False, poll_revents = (\<lambda>i. if i = (1 :: nat) then 1 else 0)\<rparr>"
  let ?s = "set_revents (\<lambda>i. if i = (1 :: nat) then 1 else 0) demo_poll"
  have c: "stack_room 0 1000 demo_poll" using demo_room [of 0 "[]"] by (simp add: demo_poll_def)
  have L: "demo_lists [] Sleeping = []" "demo_lists [] RunQueue = []" by (simp_all add: demo_lists_def)
  have n: "counted demo_poll (demo_lists [] Sleeping) \<le> sleepingcounted demo_poll"
    by (simp add: L demo_poll_def demo_def)
  have pos: "0 \<le> poll_r (?pl tab n ms)" for tab n ms by simp
  have "tables_ok demo_poll" using demo_poll_ok(2) by (simp add: pollers_ok_def)
  from pollers_revents [OF this] have ps:
    "pollers ?s = [(\<lparr>pfd = 3, events = {POLLIN}, revents = 0\<rparr>, 2000),
       (\<lparr>pfd = 4, events = {POLLIN}, revents = 1\<rparr>, 3000)]"
    by (simp add: demo_poll_def numeral_2_eq_2)
  from fdtask_turn_wakes [OF demo_poll_ok c n pos, of 0 7] obtain s' ws where
    s': "fdtask_turn 0 ?pl 7 demo_poll = Done () s'"
      "kinv s' ((demo_lists [])(Sleeping := [], RunQueue := map snd ws))"
      "mset ws = filter_mset (\<lambda>x. revents (fst x) \<noteq> 0) (mset (pollers ?s))"
      "mset (pollers s') = filter_mset (\<lambda>x. revents (fst x) = 0) (mset (pollers ?s))"
    by (auto simp: L)
  have "map snd ws = [3000]" "map snd (pollers s') = [2000]" using s'(3,4) unfolding ps by auto
  with s'(1,2) show ?thesis by auto
qed



end
