(* ===== verification/Net.thy ===== *)
theory Net
  imports FdWait
begin

text \<open>
  Network dialling (\<open>net.c\<close>): parsing of addresses, name lookup, announcing, accepting and dialling.

  The calls to the operating system that change something outside the program are recorded in
  \<open>trace\<close>, in order; what the system answers is the parameter \<open>y\<close>, a record with one field per call
  (each function makes every call at most once). An address is the list of its four bytes in the
  order of memory, a port the 16-bit number that \<open>htons\<close> puts into network order. \<open>addr_junk\<close> is what
  the uninitialised array of \<open>parseip\<close> holds.
\<close>

subsection \<open>Numbers in text\<close>

text \<open>\<open>strtoul(p, &p, 0)\<close> of the C library: the value and the rest of the string.\<close>

definition isspace :: "char \<Rightarrow> bool" where
  "isspace c \<longleftrightarrow> of_char c = (32 :: nat) \<or> (9 \<le> (of_char c :: nat) \<and> of_char c \<le> (13 :: nat))"

definition digit_val :: "char \<Rightarrow> nat" where
  "digit_val c =
     (let n = of_char c in
      if 48 \<le> n \<and> n \<le> 57 then n - 48
      else if 97 \<le> n \<and> n \<le> 122 then n - 87
      else if 65 \<le> n \<and> n \<le> 90 then n - 55
      else 99)"

definition strtoul_sign :: "string \<Rightarrow> bool \<times> string" where
  "strtoul_sign q =
     (case q of
        [] \<Rightarrow> (False, [])
      | c # r \<Rightarrow> if c = CHR ''-'' then (True, r) else if c = CHR ''+'' then (False, r) else (False, q))"

definition strtoul_base :: "string \<Rightarrow> nat \<times> string" where
  "strtoul_base q =
     (case q of
        a # b # c # r \<Rightarrow>
          if a = CHR ''0'' \<and> (b = CHR ''x'' \<or> b = CHR ''X'') \<and> digit_val c < 16 then (16, c # r)
          else if a = CHR ''0'' then (8, q) else (10, q)
      | a # r \<Rightarrow> if a = CHR ''0'' then (8, q) else (10, q)
      | [] \<Rightarrow> (10, q))"

definition strtoul :: "string \<Rightarrow> 64 word \<times> string" where
  "strtoul p =
     (let (neg, q) = strtoul_sign (dropWhile isspace p);
          (base, q) = strtoul_base q;
          ds = takeWhile (\<lambda>c. digit_val c < base) q;
          v = foldl (\<lambda>v c. v * base + digit_val c) 0 ds
      in if ds = [] then (0, p)
         else (if v \<ge> 2 ^ 64 then - 1 else if neg then - word_of_nat v else word_of_nat v,
               dropWhile (\<lambda>c. digit_val c < base) q))"

subsection \<open>parseip\<close>

text \<open>The loop over the parts; \<open>None\<close> is the return of -1.\<close>

function parse_parts :: "nat \<Rightarrow> string \<Rightarrow> byte list \<Rightarrow> (nat \<times> byte list) option" where
  "parse_parts i p addr =
     (if i < 4 \<and> p \<noteq> [] then
        (let (v, q) = strtoul p; x = sint (ucast v :: 32 word) in
         if x < 0 \<or> x \<ge> 256 then None
         else
           (case q of
              [] \<Rightarrow> parse_parts (i + 1) [] (addr[i := word_of_int x])
            | c # r \<Rightarrow>
                if c \<noteq> CHR ''.'' then None
                else parse_parts (i + 1) r (addr[i := word_of_int x])))
      else Some (i, addr))"
  by pat_completeness auto
termination
  by (relation "measure (\<lambda>(i, p, addr). 4 - i)") auto

declare parse_parts.simps [simp del]

definition parseip :: "byte list \<Rightarrow> string \<Rightarrow> byte list option" where
  "parseip addr_junk name =
     (case parse_parts 0 name addr_junk of
        None \<Rightarrow> None
      | Some (i, addr) \<Rightarrow>
          (let class = drop_bit 6 (addr ! 0) in
           if class = 0 \<or> class = 1 then
             (if i = 3 then
                (let addr = addr[3 := addr ! 2]; addr = addr[2 := addr ! 1]; addr = addr[1 := 0]
                 in Some addr)
              else if i = 2 then
                (let addr = addr[3 := addr ! 1]; addr = addr[2 := 0]; addr = addr[1 := 0]
                 in Some addr)
              else if i \<noteq> 4 then None
              else Some addr)
           else if class = 2 then
             (if i = 3 then
                (let addr = addr[3 := addr ! 2]; addr = addr[2 := 0] in Some addr)
              else if i \<noteq> 4 then None
              else Some addr)
           else Some addr))"

subsection \<open>The operating system\<close>

datatype syscall =
    Socket bool int
  | Reuse int
  | Bind int "byte list" "16 word"
  | Listen int int
  | Setfl int "32 word"
  | Accept int int
  | Nodelay int
  | Broadcast int
  | Connect int "byte list" "16 word"
  | Close int

record netst = fdst +
  trace :: "syscall list"
  errno :: int

record netsys =
  addr_junk :: "byte list"
  hostbyname :: "string \<Rightarrow> byte list option"
  socket_r :: int
  sotype_r :: int
  bind_r :: int
  accept_r :: int
  accept_ip :: "byte list"
  accept_port :: "16 word"
  connect_r :: int
  connect_inprogress :: bool
  peername_r :: int
  so_error :: int
  econnrefused :: int
  getfl :: "int \<Rightarrow> 32 word"
  o_nonblock :: "32 word"

definition record_call :: "syscall \<Rightarrow> 'a netst_scheme \<Rightarrow> 'a netst_scheme" where
  "record_call c s = s\<lparr>trace := trace s @ [c]\<rparr>"

text \<open>\<open>fdnoblock(fd)\<close>, whose result is not used here.\<close>

definition net_noblock :: "netsys \<Rightarrow> int \<Rightarrow> 'a netst_scheme \<Rightarrow> 'a netst_scheme" where
  "net_noblock y fd s = record_call (Setfl fd (or (getfl y fd) (o_nonblock y))) s"

subsection \<open>Lookup\<close>

definition netlookup ::
  "netsys \<Rightarrow> string \<Rightarrow> 'a netst_scheme \<Rightarrow> halt + byte list option \<times> 'a netst_scheme" where
  "netlookup y name s =
     (case parseip (addr_junk y) name of
        Some ip \<Rightarrow> Inr (Some ip, s)
      | None \<Rightarrow>
          bindR (taskstate ''netlookup'' [] s) (\<lambda>s.
          case hostbyname y name of
            Some ip \<Rightarrow> bindR (taskstate ''netlookup succeeded'' [] s) (\<lambda>s. Inr (Some ip, s))
          | None \<Rightarrow> bindR (taskstate ''netlookup failed'' [] s) (\<lambda>s. Inr (None, s))))"

subsection \<open>Announcing\<close>

text \<open>\<open>announce_socket\<close> is the part from the creation of the socket on.\<close>

definition announce_socket ::
  "netsys \<Rightarrow> bool \<Rightarrow> byte list \<Rightarrow> int \<Rightarrow> 'a netst_scheme \<Rightarrow> halt + int \<times> 'a netst_scheme" where
  "announce_socket y istcp ip port s =
     (let fd = socket_r y; s = record_call (Socket istcp fd) s in
      if fd < 0 then bindR (taskstate ''socket failed'' [] s) (\<lambda>s. Inr (-1, s))
      else
        (let s = (if istcp \<and> sotype_r y \<ge> 0 then record_call (Reuse fd) s else s);
             s = record_call (Bind fd ip (word_of_int port)) s
         in
         if bind_r y < 0 then
           bindR (taskstate ''bind failed'' [] s) (\<lambda>s. Inr (-1, record_call (Close fd) s))
         else
           (let s = (if istcp then record_call (Listen fd 16) s else s);
                s = net_noblock y fd s
            in bindR (taskstate ''netannounce succeeded'' [] s) (\<lambda>s. Inr (fd, s)))))"

definition netannounce ::
  "netsys \<Rightarrow> bool \<Rightarrow> string option \<Rightarrow> int \<Rightarrow> 'a netst_scheme \<Rightarrow> halt + int \<times> 'a netst_scheme" where
  "netannounce y istcp server port s =
     bindR (taskstate ''netannounce'' [] s) (\<lambda>s.
     bindR
       (case server of
          None \<Rightarrow> Inr (Some [0, 0, 0, 0], s)
        | Some n \<Rightarrow>
            if n = ''*'' then Inr (Some [0, 0, 0, 0], s)
            else netlookup y n s)
       (\<lambda>(ip, s).
     case ip of
       None \<Rightarrow> bindR (taskstate ''netlookup failed'' [] s) (\<lambda>s. Inr (-1, s))
     | Some ip \<Rightarrow> announce_socket y istcp ip port s))"

subsection \<open>Accepting\<close>

text \<open>
  \<open>netaccept\<close> waits first; the rest is \<open>netaccept_resume\<close>, with whether the caller wants the address
  and the port. The results of \<open>netaccept\<close> are the descriptor and what is stored for the caller.
\<close>

definition netaccept :: "int \<Rightarrow> libc \<Rightarrow> 'a netst_scheme \<Rightarrow> (int, 'a netst_scheme) co" where
  "netaccept fd lib s = blocks (fdwait fd 114 lib s)"

definition netaccept_resume ::
  "netsys \<Rightarrow> int \<Rightarrow> bool \<Rightarrow> bool \<Rightarrow> 'a netst_scheme \<Rightarrow>
     halt + (int \<times> string option \<times> 16 word option) \<times> 'a netst_scheme" where
  "netaccept_resume y fd server port s =
     bindR (taskstate ''netaccept'' [] s) (\<lambda>s.
     let cfd = accept_r y; s = record_call (Accept fd cfd) s in
     if cfd < 0 then bindR (taskstate ''accept failed'' [] s) (\<lambda>s. Inr ((-1, None, None), s))
     else
       (let ip = accept_ip y in
        bindR
          (if server
           then bindR (snprint (errstr s) 16 ''%d.%d.%d.%d''
                  [Num (ucast (ip ! 0)), Num (ucast (ip ! 1)), Num (ucast (ip ! 2)), Num (ucast (ip ! 3))])
                (\<lambda>t. Inr (Some t))
           else Inr None)
          (\<lambda>text.
        let pt = (if port then Some (accept_port y) else None);
            s = net_noblock y cfd s;
            s = record_call (Nodelay cfd) s
        in bindR (taskstate ''netaccept succeeded'' [] s) (\<lambda>s. Inr ((cfd, text, pt), s)))))"

subsection \<open>Dialling\<close>

text \<open>\<open>dial_socket\<close> is the part from the creation of the socket up to the wait for the connection.\<close>

definition dial_socket ::
  "netsys \<Rightarrow> bool \<Rightarrow> byte list \<Rightarrow> int \<Rightarrow> libc \<Rightarrow> 'a netst_scheme \<Rightarrow> (int, 'a netst_scheme) co" where
  "dial_socket y istcp ip port lib s =
     (let fd = socket_r y; s = record_call (Socket istcp fd) s in
      if fd < 0 then bindC (taskstate ''socket failed'' [] s) (\<lambda>s. Done (-1) s)
      else
        (let s = net_noblock y fd s;
             s = (if \<not> istcp then record_call (Broadcast fd) s else s);
             s = record_call (Connect fd ip (word_of_int port)) s
         in
         if connect_r y < 0 \<and> \<not> connect_inprogress y then
           bindC (taskstate ''connect failed'' [] s) (\<lambda>s. Done (-1) (record_call (Close fd) s))
         else blocks (fdwait fd 119 lib s)))"

definition netdial ::
  "netsys \<Rightarrow> bool \<Rightarrow> string \<Rightarrow> int \<Rightarrow> libc \<Rightarrow> 'a netst_scheme \<Rightarrow> (int, 'a netst_scheme) co" where
  "netdial y istcp server port lib s =
     bindC (netlookup y server s) (\<lambda>(ip, s).
     case ip of
       None \<Rightarrow> Done (-1) s
     | Some ip \<Rightarrow>
         bindC (taskstate ''netdial'' [] s) (\<lambda>s. dial_socket y istcp ip port lib s))"

definition netdial_resume :: "netsys \<Rightarrow> int \<Rightarrow> 'a netst_scheme \<Rightarrow> (int, 'a netst_scheme) co" where
  "netdial_resume y fd s =
     (if peername_r y \<ge> 0 then bindC (taskstate ''connect succeeded'' [] s) (\<lambda>s. Done fd s)
      else
        (let n = so_error y;
             n = (if n = 0 then econnrefused y else n);
             s = record_call (Close fd) s
         in bindC (taskstate ''connect failed'' [] s) (\<lambda>s. Done (-1) (s\<lparr>errno := n\<rparr>))))"

end
