(* ===== verification/NetProps.thy ===== *)
theory NetProps
  imports Net
begin

text \<open>
  What \<open>net.c\<close> does with addresses and descriptors: a dotted quad as \<open>netaccept\<close> prints it is parsed
  back to the same four bytes, and a call that fails leaves no socket open.
\<close>

subsection \<open>Decimal numbers\<close>

definition dec :: "nat \<Rightarrow> string" where
  "dec n = (if n = 0 then ''0'' else digs 10 n [])"

definition dec_ok :: "nat \<Rightarrow> bool" where
  "dec_ok n \<longleftrightarrow>
     dec n \<noteq> [] \<and> length (dec n) \<le> 3 \<and> (\<forall>c \<in> set (dec n). digit_val c < 10) \<and>
     \<not> isspace (hd (dec n)) \<and> hd (dec n) \<noteq> CHR ''-'' \<and> hd (dec n) \<noteq> CHR ''+'' \<and>
     (n \<noteq> 0 \<longrightarrow> hd (dec n) \<noteq> CHR ''0'') \<and> foldl (\<lambda>v c. v * 10 + digit_val c) 0 (dec n) = n"

lemma decimal_digit:
  assumes "i < 10"
  shows "digit_val (digits ! i) = i \<and> \<not> isspace (digits ! i) \<and> digits ! i \<noteq> CHR ''-'' \<and>
    digits ! i \<noteq> CHR ''+'' \<and> (i \<noteq> 0 \<longrightarrow> digits ! i \<noteq> CHR ''0'')"
proof -
  have "\<forall>i \<in> {0..<10}. digit_val (digits ! i) = i \<and> \<not> isspace (digits ! i) \<and>
      digits ! i \<noteq> CHR ''-'' \<and> digits ! i \<noteq> CHR ''+'' \<and> (i \<noteq> 0 \<longrightarrow> digits ! i \<noteq> CHR ''0'')"
    by code_simp
  with assms show ?thesis by simp
qed

lemma digs_chars: "c \<in> set (digs 10 n []) \<Longrightarrow> \<exists>i < 10. c = digits ! i"
proof (induction n rule: less_induct)
  case (less n)
  show ?case
  proof (cases "n = 0")
    case True
    with less.prems show ?thesis by (simp add: digs.simps)
  next
    case False
    then have "c \<in> set (digs 10 (n div 10) []) \<or> c = digits ! (n mod 10)"
      using less.prems digs_step [of n 10] by auto
    then show ?thesis using less.IH [of "n div 10"] False by force
  qed
qed

lemma digs_hd: "0 < n \<Longrightarrow> \<exists>i < 10. i \<noteq> 0 \<and> (\<exists>r. digs 10 n [] = digits ! i # r)"
proof (induction n rule: less_induct)
  case (less n)
  show ?case
  proof (cases "n < 10")
    case True
    with less.prems show ?thesis using digs_step [of n 10] by (auto simp: digs.simps [of 10 0])
  next
    case False
    then have "0 < n div 10" "n div 10 < n" by (simp_all add: div_greater_zero_iff)
    with less.IH obtain i r where "i < 10" "i \<noteq> 0" "digs 10 (n div 10) [] = digits ! i # r" by blast
    with less.prems digs_step [of n 10] show ?thesis by auto
  qed
qed

lemma dec_ok_byte: "n < 256 \<Longrightarrow> dec_ok n"
proof (cases "n = 0")
  case True
  have "dec_ok 0" by code_simp
  with True show ?thesis by simp
next
  case False
  assume n: "n < 256"
  from False digs_hd [of n] obtain i r where i: "i < 10" "i \<noteq> 0" "digs 10 n [] = digits ! i # r" by auto
  have dv: "digit_val c = digit_of c \<and> digit_val c < 10" if c: "c \<in> set (digs 10 n [])" for c
  proof -
    from digs_chars [OF c] obtain j where j: "j < 10" "c = digits ! j" by blast
    then show ?thesis using decimal_digit [OF j(1)] digit_of_digits [of j] by simp
  qed
  then have "foldl (\<lambda>v c. v * 10 + digit_val c) 0 (digs 10 n []) =
      foldl (\<lambda>v c. v * 10 + digit_of c) 0 (digs 10 n [])"
    by (intro foldl_cong) auto
  also have "\<dots> = n" using numval_digs [of 10 n] by (simp add: numval_def)
  finally have "foldl (\<lambda>v c. v * 10 + digit_val c) 0 (digs 10 n []) = n" .
  moreover have "length (digs 10 n []) \<le> 3" using length_digs [of 10 n 3 "[]"] n by simp
  moreover have "\<forall>c \<in> set (digs 10 n []). digit_val c < 10" using dv by blast
  moreover have "digs 10 n [] \<noteq> []" "hd (digs 10 n []) = digits ! i" by (simp_all add: i(3))
  ultimately show "dec_ok n"
    unfolding dec_ok_def dec_def using False i(2) decimal_digit [OF i(1)] by simp
qed

lemma byte_bits: "bit (b :: byte) n \<Longrightarrow> n < 8"
  using bit_imp_le_length [of b n] by simp

lemma numstr_byte: "numstr 10 (flags_of 0 False) (arg_value 0 False (ucast (b :: byte))) = dec (unat b)"
proof -
  have lt: "uint b < 256" using uint_lt2p [of b] by simp
  have "signed_take_bit 31 (ucast b :: 64 word) = ucast b"
    by (intro bit_word_eqI) (auto simp: bit_simps min_def dest: byte_bits)
  then have a: "arg_value 0 False (ucast b) = ucast b" by (simp add: arg_value_def)
  have "sint (ucast b :: 64 word) = uint b" using lt by (simp add: sint_cases unsigned_ucast_eq take_bit_int_eq_self)
  then have "magnitude (flags_of 0 False) (ucast b) = unat b"
    by (simp add: magnitude_def flags_of_def nat_uint_eq)
  then show ?thesis by (simp add: numstr_magnitude a dec_def digs.simps)
qed

subsection \<open>Reading them back\<close>

definition ends_part :: "string \<Rightarrow> bool" where
  "ends_part r \<longleftrightarrow> r = [] \<or> hd r = CHR ''.''"

lemma dot_digit: "\<not> digit_val CHR ''.'' < 10" "\<not> digit_val CHR ''.'' < 8"
  by (simp_all add: digit_val_def)

lemma strtoul_dec:
  assumes n: "n < 256" and r: "ends_part r"
  shows "strtoul (dec n @ r) = (word_of_nat n, r)"
proof -
  note ok = dec_ok_byte [OF n, unfolded dec_ok_def]
  from ok obtain c ds where d: "dec n = c # ds" by (cases "dec n") auto
  have c: "\<not> isspace c" "c \<noteq> CHR ''-''" "c \<noteq> CHR ''+''" "n \<noteq> 0 \<longrightarrow> c \<noteq> CHR ''0''" using ok d by auto
  have tw: "takeWhile (\<lambda>c. digit_val c < 10) r = []" "takeWhile (\<lambda>c. digit_val c < 8) r = []"
    "dropWhile (\<lambda>c. digit_val c < 10) r = r" "dropWhile (\<lambda>c. digit_val c < 8) r = r"
    using r dot_digit by (cases r; auto simp: ends_part_def)+
  have s: "strtoul_sign (dropWhile isspace (dec n @ r)) = (False, dec n @ r)"
    using c d by (simp add: strtoul_sign_def)
  show ?thesis
  proof (cases "n = 0")
    case True
    then have dn: "dec n = ''0''" by (simp add: dec_def)
    have "strtoul_base (''0'' @ r) = (8, ''0'' @ r)"
      using r by (cases r; cases "tl r") (auto simp: strtoul_base_def ends_part_def)
    moreover have "digit_val CHR ''0'' = 0" by (simp add: digit_val_def)
    ultimately show ?thesis using s True tw unfolding strtoul_def dn by simp
  next
    case False
    then have "strtoul_base (dec n @ r) = (10, dec n @ r)"
      using c(4) d by (cases "ds @ r"; cases "tl (ds @ r)") (auto simp: strtoul_base_def)
    moreover have "takeWhile (\<lambda>c. digit_val c < 10) (dec n @ r) = dec n"
      "dropWhile (\<lambda>c. digit_val c < 10) (dec n @ r) = r"
      using ok tw by (simp_all add: takeWhile_append dropWhile_append)
    ultimately show ?thesis using s ok n unfolding strtoul_def by simp
  qed
qed

lemma byte_int: "n < 256 \<Longrightarrow> sint (ucast (word_of_nat n :: 64 word) :: 32 word) = int n"
proof -
  assume n: "n < 256"
  have "uint (word_of_nat n :: 64 word) = int n" using n by (simp add: unsigned_of_nat take_bit_nat_eq_self)
  then have "uint (ucast (word_of_nat n :: 64 word) :: 32 word) = int n"
    using n by (simp add: unsigned_ucast_eq take_bit_int_eq_self)
  then show ?thesis using n by (simp add: sint_uint signed_take_bit_int_eq_self)
qed

lemma parse_part:
  assumes "n < 256" "i < 4"
  shows "parse_parts i (dec n @ CHR ''.'' # r) addr = parse_parts (i + 1) r (addr[i := word_of_nat n])"
    and "parse_parts i (dec n) addr = Some (i + 1, addr[i := word_of_nat n])"
proof -
  have ne: "dec n \<noteq> []" using dec_ok_byte [OF assms(1)] by (simp add: dec_ok_def)
  show "parse_parts i (dec n @ CHR ''.'' # r) addr = parse_parts (i + 1) r (addr[i := word_of_nat n])"
    using strtoul_dec [OF assms(1), of "CHR ''.'' # r"] byte_int [OF assms(1)] assms ne
    by (subst parse_parts.simps) (simp add: ends_part_def)
  show "parse_parts i (dec n) addr = Some (i + 1, addr[i := word_of_nat n])"
    using strtoul_dec [OF assms(1), of "[]"] byte_int [OF assms(1)] assms ne
    by (subst parse_parts.simps) (simp add: ends_part_def parse_parts.simps [of "Suc i" "[]"])
qed

definition dotted :: "byte list \<Rightarrow> string" where
  "dotted ip =
     dec (unat (ip ! 0)) @ ''.'' @ dec (unat (ip ! 1)) @ ''.'' @ dec (unat (ip ! 2)) @ ''.'' @
     dec (unat (ip ! 3))"

lemma byte_lt: "unat (b :: byte) < 256"
  using unsigned_less [of b] by simp

lemma parseip_dotted:
  assumes "length ip = 4" "length junk = 4"
  shows "parseip junk (dotted ip) = Some ip"
proof -
  from assms(1) obtain a b c d where ip: "ip = [a, b, c, d]"
    by (auto simp: length_Suc_conv numeral_eq_Suc)
  from assms(2) obtain j0 j1 j2 j3 where j: "junk = [j0, j1, j2, j3]"
    by (auto simp: length_Suc_conv numeral_eq_Suc)
  have "parse_parts 0 (dotted ip) junk = Some (4, [a, b, c, d])"
  proof -
    have w: "word_of_nat (unat x) = x" for x :: byte by simp
    show ?thesis unfolding dotted_def ip j nth_Cons_0
      by (simp add: parse_part byte_lt numeral_2_eq_2 numeral_3_eq_3)
  qed
  then show ?thesis by (simp add: parseip_def ip Let_def)
qed

lemma dotted_length: "length (dotted ip) < 16"
proof -
  have l: "length (dec (unat (b :: byte))) \<le> 3" for b
    using dec_ok_byte [OF byte_lt, of b] by (simp add: dec_ok_def)
  show ?thesis
    using l [of "ip ! 0"] l [of "ip ! 1"] l [of "ip ! 2"] l [of "ip ! 3"] by (simp add: dotted_def)
qed

lemma dotted_printed:
  assumes "length ip = 4"
  shows "snprint err 16 ''%d.%d.%d.%d''
    [Num (ucast (ip ! 0)), Num (ucast (ip ! 1)), Num (ucast (ip ! 2)), Num (ucast (ip ! 3))] =
    Inr (dotted ip)"
proof -
  let ?n = "\<lambda>i. Numf False 0 0 False CHR ''d'' (ucast (ip ! i))"
  let ?its = "[?n 0, Lit CHR ''.'', ?n 1, Lit CHR ''.'', ?n 2, Lit CHR ''.'', ?n 3]"
  have r: "render (?n i) = dec (unat (ip ! i))" for i
    by (simp add: pad_def base_of_def numstr_byte)
  have l: "length (dec (unat (b :: byte))) \<le> 3" for b
    using dec_ok_byte [OF byte_lt, of b] by (simp add: dec_ok_def)
  have "length (concat (map render ?its)) < 16"
    using l [of "ip ! 0"] l [of "ip ! 1"] l [of "ip ! 2"] l [of "ip ! 3"] by (simp add: r del: render.simps(2))
  then have "vseprint err 16 (concat (map unparse ?its)) (concat (map item_args ?its)) =
      Inr (concat (map render ?its))"
    by (intro vseprint_items) auto
  moreover have "concat (map render ?its) = dotted ip" by (simp add: r dotted_def del: render.simps(2))
  moreover have "concat (map unparse ?its) = ''%d.%d.%d.%d''" by (simp add: opts_def digs.simps)
  moreover have "concat (map item_args ?its) =
      [Num (ucast (ip ! 0)), Num (ucast (ip ! 1)), Num (ucast (ip ! 2)), Num (ucast (ip ! 3))]" by simp
  ultimately show ?thesis unfolding snprint_def vsnprint_def by (simp only:) simp
qed

subsection \<open>Descriptors that stay open\<close>

text \<open>The sockets that a sequence of system calls leaves open, of those it opened.\<close>

fun left_open :: "syscall list \<Rightarrow> int set" where
  "left_open [] = {}"
| "left_open (c # cs) =
     (case c of
        Socket _ fd \<Rightarrow> (if fd < 0 \<or> Close fd \<in> set cs then {} else {fd})
      | Accept _ fd \<Rightarrow> (if fd < 0 \<or> Close fd \<in> set cs then {} else {fd})
      | _ \<Rightarrow> {}) \<union> left_open cs"

text \<open>
  \<open>net_ok s L t tr\<close>: task \<open>t\<close> is running and can wait for a descriptor; the calls made so far are \<open>tr\<close>.
\<close>

definition net_ok ::
  "'a netst_scheme \<Rightarrow> (lref \<Rightarrow> addr list) \<Rightarrow> addr \<Rightarrow> syscall list \<Rightarrow> bool" where
  "net_ok s L t tr \<longleftrightarrow>
     kinv s L \<and> pollers_ok s L \<and> off s L t \<and> t \<notin> set (map snd (pollers s)) \<and> stack_room 0 t s \<and>
     startedfdtask s \<and> npollfd s < 1024 \<and> trace s = tr"

lemma record_call_simps [simp]:
  "kinv (record_call c s) L = kinv s L" "off (record_call c s) L t = off s L t"
  "stack_room n t (record_call c s) = stack_room n t s" "pollers (record_call c s) = pollers s"
  "tables_ok (record_call c s) = tables_ok s" "startedfdtask (record_call c s) = startedfdtask s"
  "npollfd (record_call c s) = npollfd s" "trace (record_call c s) = trace s @ [c]"
  "errstr (record_call c s) = errstr s"
  by (simp_all add: record_call_def kinv_def ready_ok_def slots_ok_def off_def stack_room_def
      pollers_def tables_ok_def)

lemma net_ok_record: "net_ok s L t tr \<Longrightarrow> net_ok (record_call c s) L t (tr @ [c])"
  by (simp add: net_ok_def pollers_ok_def)

lemma net_ok_record_if:
  "net_ok s L t tr \<Longrightarrow> net_ok (if b then record_call c s else s) L t (tr @ (if b then [c] else []))"
  by (simp add: net_ok_record)

lemma net_ok_kframe:
  assumes f: "kframe s s'" and k: "kinv s' L" and ok: "net_ok s L t tr"
  shows "net_ok s' L t tr"
proof -
  have "trace s' = trace s" using f by (rule kframe_elim) simp
  moreover have "off s' L t" "stack_room 0 t s'"
    using ok by (simp_all add: net_ok_def off_frame [OF f] stack_room_frame [OF f])
  ultimately show ?thesis
    using ok k kframe_fdst [OF f] kframe_pollers [OF f] kframe_pollers_ok [OF f, of L]
    by (simp add: net_ok_def)
qed

lemma say_wp [wp]:
  assumes "net_ok s L t tr" "plain m" "\<And>s'. net_ok s' L t tr \<Longrightarrow> P s'"
  shows "runs (taskstate m [] s) P"
proof -
  have k: "kinv s L" and c: "stack_room 0 t s" using assms(1) by (simp_all add: net_ok_def)
  show ?thesis
    by (rule runs_mono [OF kt.say_law [OF k c assms(2)]]) (blast intro: assms(3) net_ok_kframe assms(1))
qed

lemma plain_net [simp]:
  "plain ''netannounce''" "plain ''netlookup''" "plain ''netlookup succeeded''"
  "plain ''netlookup failed''" "plain ''socket failed''" "plain ''bind failed''"
  "plain ''netannounce succeeded''" "plain ''netaccept''" "plain ''accept failed''"
  "plain ''netaccept succeeded''" "plain ''netdial''" "plain ''connect failed''"
  "plain ''connect succeeded''"
  by (simp_all add: plain_def)

lemma netlookup_wp [wp]:
  assumes ok: "net_ok s L t tr"
    and P: "\<And>s'. net_ok s' L t tr \<Longrightarrow>
      P (case parseip (addr_junk y) name of Some ip \<Rightarrow> Some ip | None \<Rightarrow> hostbyname y name, s')"
  shows "runs (netlookup y name s) P"
proof (cases "parseip (addr_junk y) name")
  case (Some ip)
  with P [OF ok] show ?thesis by (simp add: netlookup_def)
next
  case None
  show ?thesis
  proof (cases "hostbyname y name")
    case n: None
    have "P (None, s')" if "net_ok s' L t tr" for s' using P [OF that] None n by simp
    with None n ok show ?thesis by (auto simp: netlookup_def intro!: wp)
  next
    case (Some ip)
    have "P (Some ip, s')" if "net_ok s' L t tr" for s' using P [OF that] None Some by simp
    with None Some ok show ?thesis by (auto simp: netlookup_def intro!: wp)
  qed
qed

text \<open>Announcing: the descriptor that is returned is the only one left open.\<close>

definition announced ::
  "netsys \<Rightarrow> bool \<Rightarrow> int \<Rightarrow> (lref \<Rightarrow> addr list) \<Rightarrow> addr \<Rightarrow> syscall list \<Rightarrow> int \<times> 'a netst_scheme \<Rightarrow> bool" where
  "announced y istcp port L t tr rs \<longleftrightarrow>
     (case rs of (r, s') \<Rightarrow> \<exists>new. net_ok s' L t (tr @ new) \<and>
        left_open new = (if r < 0 then {} else {r}) \<and>
        (0 \<le> r \<longrightarrow> r = socket_r y \<and> (\<exists>ip. Bind r ip (word_of_int port) \<in> set new) \<and>
           (istcp \<longrightarrow> Listen r 16 \<in> set new) \<and> Setfl r (or (getfl y r) (o_nonblock y)) \<in> set new))"

lemma announce_socket_wp [wp]:
  assumes ok: "net_ok s L t tr" and P: "\<And>rs. announced y istcp port L t tr rs \<Longrightarrow> P rs"
  shows "runs (announce_socket y istcp ip port s) P"
proof -
  let ?fd = "socket_r y" and ?b = "istcp \<and> 0 \<le> sotype_r y"
  let ?bind = "Bind ?fd ip (word_of_int port)" and ?setfl = "Setfl ?fd (or (getfl y ?fd) (o_nonblock y))"
  note ok1 = net_ok_record [OF ok, of "Socket istcp ?fd"]
  note ok2 = net_ok_record [OF net_ok_record_if [OF ok1, of ?b "Reuse ?fd"], of ?bind]
  note ok3 = net_ok_record [OF net_ok_record_if [OF ok2, of istcp "Listen ?fd 16"], of ?setfl]
  let ?c1 = "Socket istcp ?fd # (if ?b then [Reuse ?fd] else [])"
  let ?c2 = "?bind # (if istcp then [Listen ?fd 16] else []) @ [?setfl]"
  have "announced y istcp port L t tr (-1, s')" if "net_ok s' L t (tr @ [Socket istcp ?fd])" "?fd < 0" for s' :: "'a netst_scheme"
    using that by (auto simp: announced_def intro!: exI [of _ "[Socket istcp ?fd]"])
  moreover have "announced y istcp port L t tr (-1, record_call (Close ?fd) s')"
    if "net_ok s' L t (((tr @ [Socket istcp ?fd]) @ (if ?b then [Reuse ?fd] else [])) @ [?bind])" for s' :: "'a netst_scheme"
    using net_ok_record [OF that, of "Close ?fd"]
    by (cases ?b) (auto simp: announced_def intro!: exI [of _ "?c1 @ [?bind, Close ?fd]"])
  moreover have "announced y istcp port L t tr (?fd, s')"
    if "net_ok s' L t (((((tr @ [Socket istcp ?fd]) @ (if ?b then [Reuse ?fd] else [])) @ [?bind]) @
      (if istcp then [Listen ?fd 16] else [])) @ [?setfl])" "\<not> ?fd < 0" for s' :: "'a netst_scheme"
    using that by (cases ?b; cases istcp) (auto simp: announced_def intro!: exI [of _ "?c1 @ ?c2"])
  ultimately show ?thesis
    using ok1 ok2 ok3
    by (auto simp: announce_socket_def net_noblock_def Let_def intro!: say_wp P simp del: append_assoc)
qed

lemma netannounce_runs:
  assumes "net_ok s L t tr"
  shows "runs (netannounce y istcp server port s) (announced y istcp port L t tr)"
proof -
  have "announced y istcp port L t tr (-1, s')" if "net_ok s' L t tr" for s' :: "'a netst_scheme"
    using that by (auto simp: announced_def intro!: exI [of _ "[]"])
  with assms show ?thesis
    by (auto simp: netannounce_def intro!: wp split: option.split)
qed

subsection \<open>Dialling\<close>

text \<open>How a computation that may block ends: with a value, by giving up the processor, never by stopping.\<close>

definition ends :: "('a, 's) co \<Rightarrow> ('a \<Rightarrow> 's \<Rightarrow> bool) \<Rightarrow> ('s \<Rightarrow> bool) \<Rightarrow> bool" where
  "ends m D B \<longleftrightarrow> (case m of Done r s \<Rightarrow> D r s | Blocked s \<Rightarrow> B s | Halted _ \<Rightarrow> False)"

lemma ends_simps [simp]:
  "ends (Done r s) D B = D r s" "ends (Blocked s) D B = B s" "ends (Halted h) D B = False"
  "ends (bindC m f) D B = runs m (\<lambda>x. ends (f x) D B)" "ends (blocks n) D B = runs n B"
  by (cases m; cases n; simp add: ends_def)+

text \<open>A wait for the descriptor \<open>fd\<close> in the middle of a network operation.\<close>

definition net_waits ::
  "int \<Rightarrow> int \<Rightarrow> 'a netst_scheme \<Rightarrow> (lref \<Rightarrow> addr list) \<Rightarrow> addr \<Rightarrow> syscall list \<Rightarrow> 'a netst_scheme \<Rightarrow> bool" where
  "net_waits fd rw s L t tr s' \<longleftrightarrow>
     kinv s' L \<and> pollers_ok s' L \<and> fld ctxt (heap s') t = Some (FFdwait fd rw) \<and> trace s' = tr \<and>
     map snd (pollers s') = map snd (pollers s) @ [t] \<and>
     fst (last (pollers s')) = \<lparr>pfd = fd, events = rw_bits rw, revents = 0\<rparr>"

lemma net_fdwait [wp]:
  assumes ok: "net_ok s L t tr" and P: "\<And>s'. net_waits fd rw s L t tr s' \<Longrightarrow> P s'"
  shows "runs (fdwait fd rw lib s) P"
proof -
  have "net_waits fd rw s L t tr s'"
    if p: "polled t \<lparr>pfd = fd, events = rw_bits rw, revents = 0\<rparr> (FFdwait fd rw) s s'"
      and "kinv s' L" "pollers_ok s' L" for s'
  proof -
    have e: "s' = s\<lparr>heap := heap s', tlists := tlists s', pollfd := pollfd s', polltask := polltask s',
        npollfd := npollfd s + 1\<rparr>" and c: "fld ctxt (heap s') = (fld ctxt (heap s))(t \<mapsto> FFdwait fd rw)"
      and ps: "pollers s' = pollers s @ [(\<lparr>pfd = fd, events = rw_bits rw, revents = 0\<rparr>, t)]"
      using p unfolding polled_def by blast+
    have "trace s' = trace s" by (subst e) simp
    with that(2,3) ok show ?thesis by (simp add: net_waits_def c ps net_ok_def)
  qed
  with ok show ?thesis
    unfolding net_ok_def by (intro runs_mono [OF fdwait_runs]) (auto intro: P)
qed

text \<open>The first half of \<open>netdial\<close>: an error with nothing left open, or a wait for the only open socket.\<close>

definition dial_failed ::
  "(lref \<Rightarrow> addr list) \<Rightarrow> addr \<Rightarrow> syscall list \<Rightarrow> int \<Rightarrow> 'a netst_scheme \<Rightarrow> bool" where
  "dial_failed L t tr r s' \<longleftrightarrow> r = -1 \<and> (\<exists>new. net_ok s' L t (tr @ new) \<and> left_open new = {})"

definition dial_waits ::
  "int \<Rightarrow> int \<Rightarrow> (lref \<Rightarrow> addr list) \<Rightarrow> addr \<Rightarrow> syscall list \<Rightarrow> 'a netst_scheme \<Rightarrow> bool" where
  "dial_waits fd port L t tr s' \<longleftrightarrow>
     (\<exists>s1 new. net_waits fd 119 s1 L t (tr @ new) s' \<and> left_open new = {fd} \<and>
        (\<exists>ip. Connect fd ip (word_of_int port) \<in> set new))"

lemma dial_socket_runs:
  assumes ok: "net_ok s L t tr"
  shows "ends (dial_socket y istcp ip port lib s) (dial_failed L t tr)
    (dial_waits (socket_r y) port L t tr)"
proof -
  let ?fd = "socket_r y"
  let ?setfl = "Setfl ?fd (or (getfl y ?fd) (o_nonblock y))"
  let ?bc = "if \<not> istcp then [Broadcast ?fd] else []"
  let ?con = "Connect ?fd ip (word_of_int port)"
  note ok1 = net_ok_record [OF ok, of "Socket istcp ?fd"]
  note ok2 = net_ok_record [OF net_ok_record_if [OF net_ok_record [OF ok1, of ?setfl],
      of "\<not> istcp" "Broadcast ?fd"], of ?con]
  let ?tr = "(((tr @ [Socket istcp ?fd]) @ [?setfl]) @ ?bc) @ [?con]"
  have sock: "dial_failed L t tr (-1) s'" if "net_ok s' L t (tr @ [Socket istcp ?fd])" "?fd < 0"
    for s' :: "'a netst_scheme"
    using that by (auto simp: dial_failed_def intro!: exI [of _ "[Socket istcp ?fd]"])
  have conn: "dial_failed L t tr (-1) (record_call (Close ?fd) s')" if "net_ok s' L t ?tr"
    for s' :: "'a netst_scheme"
    using net_ok_record [OF that, of "Close ?fd"]
    by (cases istcp) (auto simp: dial_failed_def
      intro!: exI [of _ "Socket istcp ?fd # ?setfl # ?bc @ [?con, Close ?fd]"])
  have wait: "dial_waits ?fd port L t tr s'" if "net_waits ?fd 119 s1 L t ?tr s'" "\<not> ?fd < 0"
    for s' s1 :: "'a netst_scheme"
    using that by (cases istcp) (auto simp: dial_waits_def
      intro!: exI [of _ s1] exI [of _ "Socket istcp ?fd # ?setfl # ?bc @ [?con]"])
  let ?s2 = "record_call ?con (if \<not> istcp then record_call (Broadcast ?fd)
      (record_call ?setfl (record_call (Socket istcp ?fd) s))
    else record_call ?setfl (record_call (Socket istcp ?fd) s))"
  have "runs (taskstate ''socket failed'' [] (record_call (Socket istcp ?fd) s)) (dial_failed L t tr (-1))"
    if "?fd < 0" by (rule say_wp [OF ok1]) (simp_all add: sock that)
  moreover have "runs (taskstate ''connect failed'' [] ?s2)
      (\<lambda>s'. dial_failed L t tr (-1) (record_call (Close ?fd) s'))"
    by (rule say_wp [OF ok2]) (simp, rule conn)
  moreover have "runs (fdwait ?fd 119 lib ?s2) (dial_waits ?fd port L t tr)" if "\<not> ?fd < 0"
    by (rule net_fdwait [OF ok2]) (rule wait [OF _ that])
  ultimately show ?thesis
    unfolding dial_socket_def net_noblock_def Let_def
    by (cases "?fd < 0"; cases "connect_r y < 0 \<and> \<not> connect_inprogress y")
      (simp_all only: if_True if_False ends_simps simp_thms)
qed

lemma netdial_runs:
  assumes "net_ok s L t tr"
  shows "ends (netdial y istcp server port lib s) (dial_failed L t tr)
    (dial_waits (socket_r y) port L t tr)"
proof -
  have lookup: "dial_failed L t tr (-1) s'" if "net_ok s' L t tr" for s' :: "'a netst_scheme"
    using that by (auto simp: dial_failed_def intro!: exI [of _ "[]"])
  with assms show ?thesis
    by (auto simp: netdial_def intro!: wp dial_socket_runs split: option.split)
qed

text \<open>Its second half keeps the descriptor or closes it and reports why.\<close>

lemma netdial_resume_runs:
  assumes ok: "net_ok s L t tr"
  shows "ends (netdial_resume y fd s)
    (\<lambda>r s'. if 0 \<le> peername_r y then r = fd \<and> net_ok s' L t tr
       else r = -1 \<and> net_ok s' L t (tr @ [Close fd]) \<and>
         errno s' = (if so_error y = 0 then econnrefused y else so_error y)) (\<lambda>_. False)"
proof -
  have e: "net_ok (s'\<lparr>errno := n\<rparr>) L t tr' = net_ok s' L t tr'" for s' :: "'a netst_scheme" and n tr'
    by (simp add: net_ok_def pollers_ok_def pollers_def tables_ok_def kinv_def ready_ok_def slots_ok_def
        off_def stack_room_def)
  from net_ok_record [OF ok, of "Close fd"] ok show ?thesis
    by (auto simp: netdial_resume_def Let_def e intro!: wp)
qed

subsection \<open>Accepting\<close>

text \<open>The text written for the caller fits its 16 bytes, and the new descriptor does not block.\<close>

lemma netaccept_resume_runs:
  assumes ok: "net_ok s L t tr" and ip: "length (accept_ip y) = 4"
  shows "runs (netaccept_resume y fd server port s) (\<lambda>((r, text, pt), s').
    if accept_r y < 0 then r = -1 \<and> text = None \<and> pt = None \<and> net_ok s' L t (tr @ [Accept fd (accept_r y)])
    else r = accept_r y \<and> text = (if server then Some (dotted (accept_ip y)) else None) \<and>
      pt = (if port then Some (accept_port y) else None) \<and>
      net_ok s' L t (tr @ [Accept fd r, Setfl r (or (getfl y r) (o_nonblock y)), Nodelay r]))"
proof -
  let ?fd = "accept_r y"
  let ?setfl = "Setfl ?fd (or (getfl y ?fd) (o_nonblock y))"
  have a: "runs (taskstate ''netaccept succeeded'' [] (record_call (Nodelay ?fd)
      (record_call ?setfl (record_call (Accept fd ?fd) s'))))
      (\<lambda>s'. net_ok s' L t (tr @ [Accept fd ?fd, ?setfl, Nodelay ?fd]))" if "net_ok s' L t tr"
    for s' :: "'a netst_scheme"
    using net_ok_record [OF net_ok_record [OF net_ok_record [OF that, of "Accept fd ?fd"], of ?setfl],
        of "Nodelay ?fd"] by (auto intro!: wp)
  have b: "runs (taskstate ''accept failed'' [] (record_call (Accept fd ?fd) s'))
      (\<lambda>s'. net_ok s' L t (tr @ [Accept fd ?fd]))" if "net_ok s' L t tr" for s' :: "'a netst_scheme"
    using net_ok_record [OF that, of "Accept fd ?fd"] by (auto intro!: wp)
  have c: "snprint err 16 ''%d.%d.%d.%d''
      [Num (ucast (accept_ip y ! 0)), Num (ucast (accept_ip y ! 1)), Num (ucast (accept_ip y ! 2)),
       Num (ucast (accept_ip y ! 3))] = Inr (dotted (accept_ip y))" for err
    by (rule dotted_printed [OF ip])
  show ?thesis
    unfolding netaccept_resume_def net_noblock_def Let_def runs_bindR
    by (rule say_wp [OF ok], simp)
      (auto simp: c [simplified] intro!: runs_mono [OF a] runs_mono [OF b])
qed

end
