(* ===== verification/NetSpec.thy ===== *)
theory NetSpec
  imports NetProps Demo
begin

text \<open>
  The properties of network dialling (\<open>net.c\<close>).
\<close>

subsection \<open>A state and a system to try them on\<close>

definition demo_net :: netst where
  "demo_net = fdst.extend (demo []) (netst.fields [] 0)"

definition demo_sys :: netsys where
  "demo_sys =
     \<lparr>addr_junk = [9, 9, 9, 9], hostbyname = (\<lambda>_. None), socket_r = 5, sotype_r = 0, bind_r = -1,
       accept_r = 6, accept_ip = [192, 168, 0, 1], accept_port = 80, connect_r = -1,
       connect_inprogress = True, peername_r = -1, so_error = 0, econnrefused = 111,
       getfl = (\<lambda>_. 2), o_nonblock = 2048\<rparr>"

lemma demo_net_ok: "net_ok demo_net (demo_lists []) 1000 []"
proof -
  have s: "heap demo_net = heap (demo [])" "tlists demo_net = tlists (demo [])"
    "pollers demo_net = []" "tables_ok demo_net" "startedfdtask demo_net" "npollfd demo_net = 0"
    "trace demo_net = []" "slots_ok demo_net = slots_ok (demo [])"
    "off demo_net (demo_lists []) 1000 = off (demo []) (demo_lists []) 1000"
    "stack_room 0 1000 demo_net = stack_room 0 1000 (demo [])"
    by (simp_all add: demo_net_def fdst.extend_def netst.fields_def pollers_def tables_ok_def demo_def
      slots_ok_def off_def stack_room_def)
  then have "kinv demo_net (demo_lists [])" using demo_idle by (simp add: kinv_def ready_ok_def)
  then show ?thesis
    by (simp add: net_ok_def pollers_ok_def s demo_off demo_room)
qed

subsection \<open>Addresses\<close>

text \<open>
  C38: the address that \<open>netaccept\<close> writes for its caller is read back by the address parser of
  \<open>netlookup\<close>, so it can be dialled: printing into the 16 bytes never truncates it, parsing yields the
  same four bytes whatever the uninitialised array held, and the lookup needs no name server. The
  new descriptor is switched to non-blocking.
\<close>

theorem accepted_address_dials:
  assumes "net_ok s L t tr" "length (accept_ip y) = 4" "length (addr_junk y) = 4" "0 \<le> accept_r y"
  shows "runs (netaccept_resume y fd True True s) (\<lambda>((r, text, port), s'). r = accept_r y \<and>
    port = Some (accept_port y) \<and> Setfl r (or (getfl y r) (o_nonblock y)) \<in> set (trace s') \<and>
    (\<exists>txt. text = Some txt \<and> length txt < 16 \<and> netlookup y txt s' = Inr (Some (accept_ip y), s')))"
proof -
  have "length (dotted (accept_ip y)) < 16" by (rule dotted_length)
  moreover have "netlookup y (dotted (accept_ip y)) s' = Inr (Some (accept_ip y), s')"
    for s' :: "'a netst_scheme"
    using assms(2,3) by (simp add: netlookup_def parseip_dotted)
  ultimately show ?thesis
    using assms(4)
    by (intro runs_mono [OF netaccept_resume_runs [OF assms(1,2)]]) (auto simp: net_ok_def)
qed

theorem accepted_address_dials_witness:
  "runs (netaccept_resume demo_sys 3 True True demo_net) (\<lambda>((r, text, port), s'). r = 6 \<and> port = Some 80 \<and>
     (\<exists>txt. text = Some txt \<and> netlookup demo_sys txt s' = Inr (Some [192, 168, 0, 1], s')))"
proof -
  have y: "length (accept_ip demo_sys) = 4" "length (addr_junk demo_sys) = 4" "0 \<le> accept_r demo_sys"
    "accept_r demo_sys = 6" "accept_port demo_sys = 80" "accept_ip demo_sys = [192, 168, 0, 1]"
    by (simp_all add: demo_sys_def)
  show ?thesis
    by (rule runs_mono [OF accepted_address_dials [OF demo_net_ok y(1-3)]]) (auto simp: y(4-6))
qed

lemmas parse_eval = strtoul_def strtoul_sign_def strtoul_base_def isspace_def digit_val_def Let_def

text \<open>
  An address with the two top bits set is accepted with fewer than four parts, and then the bytes that
  were not given are those of the uninitialised array.
\<close>

lemma parseip_uninitialised: "parseip [a, b, c, d] ''224'' = Some [224, b, c, d]"
  by (simp add: parseip_def parse_parts.simps parse_eval)

text \<open>A part of an address is cut to 32 bits before it is compared with 256.\<close>

lemma parseip_truncates: "parseip [a, b, c, d] ''4294967297.0.0.1'' = Some [1, 0, 0, 1]"
  by (simp add: parseip_def parse_parts.simps parse_eval)

text \<open>What follows the fourth part is never looked at.\<close>

lemma parseip_fifth: "parseip [a, b, c, d] ''1.2.3.4.elephant'' = Some [1, 2, 3, 4]"
  by (simp add: parseip_def parse_parts.simps parse_eval)

subsection \<open>Descriptors\<close>

text \<open>
  C39: \<open>netannounce\<close> leaks nothing. On every error path the socket it made is closed; otherwise the
  socket it returns is the only one it leaves open, bound to the port asked for, listening when it
  is a stream, and non-blocking. The kernel invariant holds afterwards.
\<close>

theorem announce_leaves_no_socket:
  assumes "net_ok s L t tr"
  shows "runs (netannounce y istcp server port s) (\<lambda>(r, s'). \<exists>new. net_ok s' L t (tr @ new) \<and>
    left_open new = (if r < 0 then {} else {r}) \<and>
    (0 \<le> r \<longrightarrow> r = socket_r y \<and> (\<exists>ip. Bind r ip (word_of_int port) \<in> set new) \<and>
       (istcp \<longrightarrow> Listen r 16 \<in> set new) \<and> Setfl r (or (getfl y r) (o_nonblock y)) \<in> set new))"
  using netannounce_runs [OF assms] unfolding announced_def by (rule runs_mono) auto

theorem announce_leaves_no_socket_witness:
  "runs (netannounce demo_sys True None 80 demo_net) (\<lambda>(r, s'). \<exists>new. trace s' = new \<and>
     left_open new = (if r < 0 then {} else {r}))"
  using announce_leaves_no_socket [OF demo_net_ok, of demo_sys True None 80]
  by (rule runs_mono) (auto simp: net_ok_def)

text \<open>
  C40: \<open>netdial\<close> leaks nothing. Its first half either returns -1 with no socket left open, or waits
  for the one socket it has opened, after starting the connection to the port asked for; its second
  half returns that socket, or closes it, sets \<open>errno\<close> to a value other than 0 and returns -1.
\<close>

theorem dial_leaves_no_socket:
  assumes "net_ok s L t tr" "net_ok s2 L2 t2 tr2" "econnrefused y \<noteq> 0"
  shows "(case netdial y istcp server port lib s of
      Done r s' \<Rightarrow> r = -1 \<and> (\<exists>new. net_ok s' L t (tr @ new) \<and> left_open new = {})
    | Blocked s' \<Rightarrow> kinv s' L \<and> pollers_ok s' L \<and>
        fld ctxt (heap s') t = Some (FFdwait (socket_r y) 119) \<and>
        (\<exists>new. trace s' = tr @ new \<and> left_open new = {socket_r y} \<and>
           (\<exists>ip. Connect (socket_r y) ip (word_of_int port) \<in> set new))
    | Halted h \<Rightarrow> False) \<and>
    (case netdial_resume y fd s2 of
      Done r s' \<Rightarrow> if 0 \<le> peername_r y then r = fd \<and> trace s' = tr2
        else r = -1 \<and> trace s' = tr2 @ [Close fd] \<and> errno s' \<noteq> 0
    | _ \<Rightarrow> False)"
  using netdial_runs [OF assms(1), of y istcp server port lib] netdial_resume_runs [OF assms(2), of y fd]
    assms(3)
  by (auto simp: ends_def dial_failed_def dial_waits_def net_waits_def net_ok_def split: co.splits if_splits)

theorem dial_leaves_no_socket_witness:
  "(case netdial demo_sys True ''10.0.0.1'' 80 \<lparr>malloc_r = None, getcontext_r = 0, realloc_ok = True\<rparr> demo_net of
      Done r s' \<Rightarrow> r = -1 \<and> left_open (trace s') = {}
    | Blocked s' \<Rightarrow> left_open (trace s') = {5}
    | Halted h \<Rightarrow> False) \<and>
   (\<exists>s'. netdial_resume demo_sys 5 demo_net = Done (-1) s' \<and> trace s' = [Close 5])"
proof -
  have y: "socket_r demo_sys = 5" "peername_r demo_sys = -1" "econnrefused demo_sys \<noteq> 0"
    by (simp_all add: demo_sys_def)
  from dial_leaves_no_socket [OF demo_net_ok demo_net_ok y(3), where istcp = True and fd = 5
      and server = "''10.0.0.1''" and port = 80 and lib = "\<lparr>malloc_r = None, getcontext_r = 0, realloc_ok = True\<rparr>"]
  show ?thesis by (auto simp: y net_ok_def split: co.splits)
qed

end
