(* ===== verification/Machine.thy ===== *)
theory Machine
  imports Prelude
begin

unbundle bit_operations_syntax

text \<open>
  A machine with registers of type \<open>'r\<close>, word addressed memory and a program counter, and the
  instructions that the routines of \<open>asm.S\<close> use. Addresses are byte addresses; all accesses of these
  routines are to whole aligned words, so a word is one cell of \<open>ram\<close>. A routine is straight-line
  code that ends with a jump to its caller, so running it is running its instructions in order.
\<close>

record ('r, 'v) machine =
  reg :: "'r \<Rightarrow> 'v"
  ram :: "'v \<Rightarrow> 'v"
  pc :: 'v

text \<open>
  \<open>Load r n b\<close> reads \<open>r\<close> from the address \<open>n\<close> bytes after that in \<open>b\<close>, \<open>Store r n b\<close> writes it.
  The low half of a 32-bit word is what a segment register holds. \<open>Push w n b p\<close> pushes a word of
  \<open>w\<close> bytes on the stack whose pointer is \<open>p\<close>, \<open>Ret w p\<close> pops the program counter.
\<close>

datatype 'r instr =
    Load 'r nat 'r
  | Store 'r nat 'r
  | Store_imm nat nat 'r
  | Load_seg 'r nat 'r
  | Store_seg 'r nat 'r
  | Move 'r 'r
  | Move_imm 'r nat
  | Lea 'r nat 'r
  | Xor 'r 'r 'r
  | Push nat nat 'r 'r
  | Ret nat 'r
  | Jump 'r
  | Nop

definition set_reg :: "'r \<Rightarrow> 'w word \<Rightarrow> ('r, 'w :: len word) machine \<Rightarrow> ('r, 'w word) machine" where
  "set_reg r v m = m\<lparr>reg := (reg m)(r := v)\<rparr>"

definition set_ram :: "'w word \<Rightarrow> 'w word \<Rightarrow> ('r, 'w :: len word) machine \<Rightarrow> ('r, 'w word) machine" where
  "set_ram a v m = m\<lparr>ram := (ram m)(a := v)\<rparr>"

fun exec1 :: "'r instr \<Rightarrow> ('r, 'w :: len word) machine \<Rightarrow> ('r, 'w word) machine" where
  "exec1 (Load r n b) m = set_reg r (ram m (reg m b + of_nat n)) m"
| "exec1 (Store r n b) m = set_ram (reg m b + of_nat n) (reg m r) m"
| "exec1 (Store_imm v n b) m = set_ram (reg m b + of_nat n) (of_nat v) m"
| "exec1 (Load_seg r n b) m = set_reg r (take_bit 16 (ram m (reg m b + of_nat n))) m"
| "exec1 (Store_seg r n b) m =
     (let a = reg m b + of_nat n
      in set_ram a ((ram m a AND NOT (mask 16)) OR take_bit 16 (reg m r)) m)"
| "exec1 (Move r q) m = set_reg r (reg m q) m"
| "exec1 (Move_imm r v) m = set_reg r (of_nat v) m"
| "exec1 (Lea r n b) m = set_reg r (reg m b + of_nat n) m"
| "exec1 (Xor r p q) m = set_reg r (reg m p XOR reg m q) m"
| "exec1 (Push w n b p) m =
     (let v = ram m (reg m b + of_nat n); m = set_reg p (reg m p - of_nat w) m
      in set_ram (reg m p) v m)"
| "exec1 (Ret w p) m = (set_reg p (reg m p + of_nat w) m)\<lparr>pc := ram m (reg m p)\<rparr>"
| "exec1 (Jump r) m = m\<lparr>pc := reg m r\<rparr>"
| "exec1 Nop m = m"

primrec exec :: "'r instr list \<Rightarrow> ('r, 'w :: len word) machine \<Rightarrow> ('r, 'w word) machine" where
  "exec [] m = m"
| "exec (i # is) m = exec is (exec1 i m)"

lemma machine_simps [simp]:
  "reg (set_reg r v m) = (reg m)(r := v)" "ram (set_reg r v m) = ram m" "pc (set_reg r v m) = pc m"
  "reg (set_ram a v m) = reg m" "ram (set_ram a v m) = (ram m)(a := v)" "pc (set_ram a v m) = pc m"
  by (simp_all add: set_reg_def set_ram_def)

text \<open>The words of a structure at \<open>p\<close> that lie at the offsets \<open>ns\<close>.\<close>

definition words_at :: "nat list \<Rightarrow> 'w word \<Rightarrow> 'w :: len word set" where
  "words_at ns p = (\<lambda>n. p + of_nat n) ` set ns"

lemma words_at_simps [simp]:
  "words_at [] p = {}" "words_at (n # ns) p = insert (p + of_nat n) (words_at ns p)"
  by (simp_all add: words_at_def)

text \<open>The offset of a field in a structure of words of \<open>w\<close> bytes with the fields \<open>fs\<close>.\<close>

fun offset_of :: "nat \<Rightarrow> 'f list \<Rightarrow> 'f \<Rightarrow> nat" where
  "offset_of w (f # fs) g = (if f = g then 0 else w + offset_of w fs g)"
| "offset_of w [] g = 0"

text \<open>What was stored from a segment register is what is loaded.\<close>

lemma seg_load_store [simp]:
  "take_bit n a AND take_bit n (NOT (mask n)) = (0 :: 'a :: len word)"
  by (rule bit_word_eqI) (auto simp: bit_simps)

text \<open>Statements on all the numbers below a bound, one by one.\<close>

lemma upt_from_0: "2 \<le> (numeral n :: nat) \<Longrightarrow> [0..<numeral n] = 0 # 1 # [2..<numeral n]"
  by (metis One_nat_def Suc_1 less_le_trans numeral_2_eq_2 upt_conv_Cons zero_less_Suc lessI)

end
