(* ===== verification/Context.thy ===== *)
theory Context
  imports Machine
begin

text \<open>
  Machine contexts: the routines that save and load them (\<open>asm.S\<close>), their layout (\<open>struct mcontext\<close>
  of the \<open>*-ucontext.h\<close>) and \<open>makecontext\<close> and \<open>swapcontext\<close> (\<open>context.c\<close>), for the five machines
  that the library has code for.

  \<open>X_get p m\<close> is the call \<open>getmcontext(p)\<close> from the machine state \<open>m\<close>, whose program counter is the
  place to return to, up to the return, and \<open>X_set p m\<close> the call \<open>setmcontext(p)\<close>; the calling
  convention of the machine puts the argument and the return address where the routine expects them.
  \<open>X_make\<close> is what \<open>makecontext\<close> does to the memory; its arguments are the address of the machine
  context, the address and the size of the stack, the function and its arguments.
\<close>

subsection \<open>64-bit Intel and AMD\<close>

datatype amd64 = RAX | RBX | RCX | RDX | RSI | RDI | RBP | RSP | R8 | R9 | R10 | R11 | R12 | R13 | R14 | R15

datatype amd64_field =
    Onstack | Rdi | Rsi | Rdx | Rcx | F8 | F9 | Rax | Rbx | Rbp | F10 | F11 | F12 | F13 | F14 | F15
  | Trapno | Addr | Flags | Err | Rip | Cs | Rflags | Rsp | Ss | Len | Fpformat | Ownedfp
  | Fpstate nat | Spare nat

definition amd64_mcontext :: "amd64_field list" where
  "amd64_mcontext =
     [Onstack, Rdi, Rsi, Rdx, Rcx, F8, F9, Rax, Rbx, Rbp, F10, F11, F12, F13, F14, F15,
      Trapno, Addr, Flags, Err, Rip, Cs, Rflags, Rsp, Ss, Len, Fpformat, Ownedfp] @
     map Fpstate [0..<64] @ map Spare [0..<8]"

definition amd64_SET :: "amd64 instr list" where
  "amd64_SET =
     [Load RSI 16 RDI, Load RDX 24 RDI, Load RCX 32 RDI, Load R8 40 RDI, Load R9 48 RDI,
      Load RAX 56 RDI, Load RBX 64 RDI, Load RBP 72 RDI, Load R10 80 RDI, Load R11 88 RDI,
      Load R12 96 RDI, Load R13 104 RDI, Load R14 112 RDI, Load R15 120 RDI, Load RSP 184 RDI,
      Push 8 160 RDI RSP, Load RDI 8 RDI, Ret 8 RSP]"

definition amd64_GET :: "amd64 instr list" where
  "amd64_GET =
     [Store RDI 8 RDI, Store RSI 16 RDI, Store RDX 24 RDI, Store RCX 32 RDI, Store R8 40 RDI,
      Store R9 48 RDI, Store_imm 1 56 RDI, Store RBX 64 RDI, Store RBP 72 RDI, Store R10 80 RDI,
      Store R11 88 RDI, Store R12 96 RDI, Store R13 104 RDI, Store R14 112 RDI, Store R15 120 RDI,
      Load RCX 0 RSP, Store RCX 160 RDI, Lea RCX 8 RSP, Store RCX 184 RDI,
      Load RCX 32 RDI, Move_imm RAX 0, Ret 8 RSP]"

definition amd64_call :: "64 word \<Rightarrow> (amd64, 64 word) machine \<Rightarrow> (amd64, 64 word) machine" where
  "amd64_call p m = (let sp = reg m RSP - 8 in set_ram sp (pc m) (set_reg RSP sp (set_reg RDI p m)))"

definition amd64_get :: "64 word \<Rightarrow> (amd64, 64 word) machine \<Rightarrow> (amd64, 64 word) machine" where
  "amd64_get p m = exec amd64_GET (amd64_call p m)"

definition amd64_set :: "64 word \<Rightarrow> (amd64, 64 word) machine \<Rightarrow> (amd64, 64 word) machine" where
  "amd64_set p m = exec amd64_SET (amd64_call p m)"

text \<open>
  A number of arguments other than 2 makes the function write to address 0. The arguments are read
  as \<open>int\<close> and stored as \<open>long\<close>.
\<close>

definition amd64_make ::
  "64 word \<Rightarrow> 64 word \<Rightarrow> 64 word \<Rightarrow> 64 word \<Rightarrow> 32 word list \<Rightarrow> (64 word \<Rightarrow> 64 word) \<Rightarrow>
     halt + (64 word \<Rightarrow> 64 word)" where
  "amd64_make p ss_sp ss_size func args mm =
     (let at = (\<lambda>f. p + of_nat (offset_of 8 amd64_mcontext f));
          mm = (\<lambda>a. if a \<in> words_at (map (\<lambda>i. 8 * i) [0..<length amd64_mcontext]) p then 0 else mm a)
      in
      if length args \<noteq> 2 then Inl Segv
      else
        (let mm = mm(at Rdi := scast (args ! 0));
             mm = mm(at Rsi := scast (args ! 1));
             sp = ss_sp + 8 * (ss_size div 8);
             sp = sp - 8 * of_nat (length args);
             sp = sp - sp mod 16;
             sp = sp - 8;
             mm = mm(sp := 0);
             mm = mm(at Rip := func);
             mm = mm(at Rsp := sp)
         in Inr mm))"

subsection \<open>32-bit Intel\<close>

datatype x86 = EAX | EBX | ECX | EDX | ESI | EDI | EBP | ESP | FS | ES | DS | SS

datatype x86_field =
    Gs | Fs | Es | Ds | Edi | Esi | Ebp | Isp | Ebx | Edx | Ecx | Eax | Eip | Eflags | Esp
  | Onstack32 | Trapno32 | Err32 | Cs32 | Ss32 | Fpregs nat | Spare32 nat

definition x86_mcontext :: "x86_field list" where
  "x86_mcontext =
     [Onstack32, Gs, Fs, Es, Ds, Edi, Esi, Ebp, Isp, Ebx, Edx, Ecx, Eax, Trapno32, Err32, Eip, Cs32,
      Eflags, Esp, Ss32] @ map Fpregs [0..<28] @ map Spare32 [0..<17]"

definition x86_SET :: "x86 instr list" where
  "x86_SET =
     [Load EAX 4 ESP, Load_seg FS 8 EAX, Load_seg ES 12 EAX, Load_seg DS 16 EAX, Load_seg SS 76 EAX,
      Load EDI 20 EAX, Load ESI 24 EAX, Load EBP 28 EAX, Load EBX 36 EAX, Load EDX 40 EAX,
      Load ECX 44 EAX, Load ESP 72 EAX, Push 4 60 EAX ESP, Load EAX 48 EAX, Ret 4 ESP]"

definition x86_GET :: "x86 instr list" where
  "x86_GET =
     [Load EAX 4 ESP, Store_seg FS 8 EAX, Store_seg ES 12 EAX, Store_seg DS 16 EAX,
      Store_seg SS 76 EAX, Store EDI 20 EAX, Store ESI 24 EAX, Store EBP 28 EAX, Store EBX 36 EAX,
      Store EDX 40 EAX, Store ECX 44 EAX, Store_imm 1 48 EAX, Load ECX 0 ESP, Store ECX 60 EAX,
      Lea ECX 4 ESP, Store ECX 72 EAX, Load ECX 44 EAX, Move_imm EAX 0, Ret 4 ESP]"

definition x86_call :: "32 word \<Rightarrow> (x86, 32 word) machine \<Rightarrow> (x86, 32 word) machine" where
  "x86_call p m =
     (let sp = reg m ESP - 4; m = set_ram sp p m; sp = sp - 4
      in set_ram sp (pc m) (set_reg ESP sp m))"

definition x86_get :: "32 word \<Rightarrow> (x86, 32 word) machine \<Rightarrow> (x86, 32 word) machine" where
  "x86_get p m = exec x86_GET (x86_call p m)"

definition x86_set :: "32 word \<Rightarrow> (x86, 32 word) machine \<Rightarrow> (x86, 32 word) machine" where
  "x86_set p m = exec x86_SET (x86_call p m)"

text \<open>Writing the words \<open>vs\<close> from the address \<open>a\<close> on.\<close>

fun put_words :: "32 word \<Rightarrow> 32 word list \<Rightarrow> (32 word \<Rightarrow> 32 word) \<Rightarrow> 32 word \<Rightarrow> 32 word" where
  "put_words a [] mm = mm"
| "put_words a (v # vs) mm = put_words (a + 4) vs (mm(a := v))"

definition x86_make ::
  "32 word \<Rightarrow> 32 word \<Rightarrow> 32 word \<Rightarrow> 32 word \<Rightarrow> 32 word list \<Rightarrow> (32 word \<Rightarrow> 32 word) \<Rightarrow> 32 word \<Rightarrow> 32 word" where
  "x86_make p ss_sp ss_size func args mm =
     (let at = (\<lambda>f. p + of_nat (offset_of 4 x86_mcontext f));
          sp = ss_sp + 4 * (ss_size div 4);
          sp = sp - 4 * of_nat (length args);
          sp = sp - sp mod 16;
          mm = put_words sp args mm;
          sp = sp - 4;
          mm = mm(sp := 0);
          mm = mm(at Eip := func);
          mm = mm(at Esp := sp)
      in mm)"

subsection \<open>ARM\<close>

text \<open>The registers are saved from the start of the context on, which is where \<open>gregs\<close> is.\<close>

datatype arm = R nat

definition arm_GET :: "arm instr list" where
  "arm_GET =
     [Store (R 1) 4 (R 0), Store (R 2) 8 (R 0), Store (R 3) 12 (R 0), Store (R 4) 16 (R 0),
      Store (R 5) 20 (R 0), Store (R 6) 24 (R 0), Store (R 7) 28 (R 0), Store (R 8) 32 (R 0),
      Store (R 9) 36 (R 0), Store (R 10) 40 (R 0), Store (R 11) 44 (R 0), Store (R 12) 48 (R 0),
      Store (R 13) 52 (R 0), Store (R 14) 56 (R 0), Move_imm (R 1) 1, Store (R 1) 0 (R 0),
      Move_imm (R 0) 0, Jump (R 14)]"

definition arm_SET :: "arm instr list" where
  "arm_SET =
     [Load (R 1) 4 (R 0), Load (R 2) 8 (R 0), Load (R 3) 12 (R 0), Load (R 4) 16 (R 0),
      Load (R 5) 20 (R 0), Load (R 6) 24 (R 0), Load (R 7) 28 (R 0), Load (R 8) 32 (R 0),
      Load (R 9) 36 (R 0), Load (R 10) 40 (R 0), Load (R 11) 44 (R 0), Load (R 12) 48 (R 0),
      Load (R 13) 52 (R 0), Load (R 14) 56 (R 0), Load (R 0) 0 (R 0), Jump (R 14)]"

definition arm_call :: "32 word \<Rightarrow> (arm, 32 word) machine \<Rightarrow> (arm, 32 word) machine" where
  "arm_call p m = set_reg (R 14) (pc m) (set_reg (R 0) p m)"

definition arm_get :: "32 word \<Rightarrow> (arm, 32 word) machine \<Rightarrow> (arm, 32 word) machine" where
  "arm_get p m = exec arm_GET (arm_call p m)"

definition arm_set :: "32 word \<Rightarrow> (arm, 32 word) machine \<Rightarrow> (arm, 32 word) machine" where
  "arm_set p m = exec arm_SET (arm_call p m)"

definition arm_make ::
  "32 word \<Rightarrow> 32 word \<Rightarrow> 32 word \<Rightarrow> 32 word \<Rightarrow> 32 word list \<Rightarrow> (32 word \<Rightarrow> 32 word) \<Rightarrow> 32 word \<Rightarrow> 32 word" where
  "arm_make p ss_sp ss_size func args mm =
     (let sp = ss_sp + 4 * (ss_size div 4);
          gregs = (\<lambda>i. p + 4 * i);
          mm = put_words (gregs 0) (take 4 args) mm;
          mm = mm(gregs 13 := sp);
          mm = mm(gregs 14 := func)
      in mm)"

subsection \<open>MIPS\<close>

datatype mips = S nat

text \<open>The registers of the context are the words from 8 on.\<close>

datatype mips_field =
    Onstack_m | Pc_m | Regs_m nat | Sr | Mullo | Mulhi | Fpused | Fpregs_m nat | Fpc_eir | Tls | Spare_m nat

definition mips_mcontext :: "mips_field list" where
  "mips_mcontext =
     [Onstack_m, Pc_m] @ map Regs_m [0..<32] @ [Sr, Mullo, Mulhi, Fpused] @ map Fpregs_m [0..<33] @
     [Fpc_eir, Tls] @ map Spare_m [0..<8]"

definition mips_GET :: "mips instr list" where
  "mips_GET =
     [Store (S 4) 24 (S 4), Store (S 5) 28 (S 4), Store (S 6) 32 (S 4), Store (S 7) 36 (S 4),
      Store (S 16) 72 (S 4), Store (S 17) 76 (S 4), Store (S 18) 80 (S 4), Store (S 19) 84 (S 4),
      Store (S 20) 88 (S 4), Store (S 21) 92 (S 4), Store (S 22) 96 (S 4), Store (S 23) 100 (S 4),
      Store (S 28) 120 (S 4), Store (S 29) 124 (S 4), Store (S 30) 128 (S 4), Store (S 31) 132 (S 4),
      Xor (S 2) (S 2) (S 2), Jump (S 31), Nop]"

definition mips_SET :: "mips instr list" where
  "mips_SET =
     [Load (S 16) 72 (S 4), Load (S 17) 76 (S 4), Load (S 18) 80 (S 4), Load (S 19) 84 (S 4),
      Load (S 20) 88 (S 4), Load (S 21) 92 (S 4), Load (S 22) 96 (S 4), Load (S 23) 100 (S 4),
      Load (S 28) 120 (S 4), Load (S 29) 124 (S 4), Load (S 30) 128 (S 4),
      Load (S 8) 132 (S 4), Load (S 25) 132 (S 4),
      Load (S 5) 28 (S 4), Load (S 6) 32 (S 4), Load (S 7) 36 (S 4), Load (S 4) 24 (S 4),
      Jump (S 8), Nop]"

definition mips_call :: "32 word \<Rightarrow> (mips, 32 word) machine \<Rightarrow> (mips, 32 word) machine" where
  "mips_call p m = set_reg (S 31) (pc m) (set_reg (S 4) p m)"

definition mips_get :: "32 word \<Rightarrow> (mips, 32 word) machine \<Rightarrow> (mips, 32 word) machine" where
  "mips_get p m = exec mips_GET (mips_call p m)"

definition mips_set :: "32 word \<Rightarrow> (mips, 32 word) machine \<Rightarrow> (mips, 32 word) machine" where
  "mips_set p m = exec mips_SET (mips_call p m)"

definition mips_make ::
  "32 word \<Rightarrow> 32 word \<Rightarrow> 32 word \<Rightarrow> 32 word \<Rightarrow> 32 word list \<Rightarrow> (32 word \<Rightarrow> 32 word) \<Rightarrow> 32 word \<Rightarrow> 32 word" where
  "mips_make p ss_sp ss_size func args mm =
     (let sp = ss_sp + 4 * (ss_size div 4);
          regs = (\<lambda>i. p + of_nat (offset_of 4 mips_mcontext (Regs_m i)));
          mm = put_words (regs 4) (take 4 args) mm;
          mm = mm(regs 29 := sp);
          mm = mm(regs 31 := func)
      in mm)"

subsection \<open>PowerPC\<close>

datatype power = G nat | LR | CR | CTR | XER

datatype power_field = Pc_p | Cr_p | Ctr_p | Xer_p | Sp_p | Toc_p | R3_p | Gpr nat

definition power_mcontext :: "power_field list" where
  "power_mcontext = [Pc_p, Cr_p, Ctr_p, Xer_p, Sp_p, Toc_p, R3_p] @ map Gpr [0..<19]"

definition power_GET :: "power instr list" where
  "power_GET =
     [Move (G 0) LR, Move (G 5) CR, Move (G 6) CTR, Move (G 7) XER,
      Store (G 0) 0 (G 3), Store (G 5) 4 (G 3), Store (G 6) 8 (G 3), Store (G 7) 12 (G 3),
      Store (G 1) 16 (G 3), Store (G 2) 20 (G 3), Move_imm (G 5) 1, Store (G 5) 24 (G 3)] @
     map (\<lambda>i. Store (G (13 + i)) ((i + 7) * 4) (G 3)) [0..<19] @
     [Move_imm (G 3) 0, Jump LR]"

definition power_SET :: "power instr list" where
  "power_SET =
     map (\<lambda>i. Load (G (13 + i)) ((i + 7) * 4) (G 3)) [0..<19] @
     [Load (G 1) 16 (G 3), Load (G 2) 20 (G 3),
      Load (G 0) 0 (G 3), Move LR (G 0), Load (G 0) 4 (G 3), Move CR (G 0),
      Load (G 0) 8 (G 3), Move CTR (G 0), Load (G 0) 12 (G 3), Move XER (G 0),
      Load (G 3) 24 (G 3), Jump LR]"

definition power_call :: "32 word \<Rightarrow> (power, 32 word) machine \<Rightarrow> (power, 32 word) machine" where
  "power_call p m = set_reg LR (pc m) (set_reg (G 3) p m)"

definition power_get :: "32 word \<Rightarrow> (power, 32 word) machine \<Rightarrow> (power, 32 word) machine" where
  "power_get p m = exec power_GET (power_call p m)"

definition power_set :: "32 word \<Rightarrow> (power, 32 word) machine \<Rightarrow> (power, 32 word) machine" where
  "power_set p m = exec power_SET (power_call p m)"

text \<open>Only the first argument is passed on; reading it when there is none is undefined.\<close>

definition power_make ::
  "32 word \<Rightarrow> 32 word \<Rightarrow> 32 word \<Rightarrow> 32 word \<Rightarrow> 32 word list \<Rightarrow> (32 word \<Rightarrow> 32 word) \<Rightarrow>
     halt + (32 word \<Rightarrow> 32 word)" where
  "power_make p ss_sp ss_size func args mm =
     (let at = (\<lambda>f. p + of_nat (offset_of 4 power_mcontext f));
          tos = ss_sp + 4 * (ss_size div 4);
          sp = tos - 4 * 16;
          mm = mm(at Pc_p := func);
          mm = mm(at Sp_p := sp)
      in case args of [] \<Rightarrow> Inl Segv | v # _ \<Rightarrow> Inr (mm(at R3_p := v)))"

subsection \<open>swapcontext\<close>

text \<open>
  \<open>swapcontext\<close> is the same C function on all machines: \<open>getc\<close> and \<open>setc\<close> are the two calls and
  \<open>res\<close> is the register of the result of a call. \<open>after_get\<close> is what it does when \<open>getcontext\<close>
  returns, the first time or when the context that was saved is resumed: it either jumps into the
  other context or returns a value to its caller.
\<close>

datatype 'm swap = Switched 'm | Returned int 'm

definition after_get ::
  "('v :: zero \<Rightarrow> ('r, 'v) machine \<Rightarrow> ('r, 'v) machine) \<Rightarrow> 'r \<Rightarrow> 'v \<Rightarrow> ('r, 'v) machine \<Rightarrow> ('r, 'v) machine swap"
where
  "after_get setc res ucp m = (if reg m res = 0 then Switched (setc ucp m) else Returned 0 m)"

definition swapcontext ::
  "('v \<Rightarrow> ('r, 'v) machine \<Rightarrow> ('r, 'v) machine) \<Rightarrow> ('v :: zero \<Rightarrow> ('r, 'v) machine \<Rightarrow> ('r, 'v) machine) \<Rightarrow> 'r \<Rightarrow>
     'v \<Rightarrow> 'v \<Rightarrow> ('r, 'v) machine \<Rightarrow> ('r, 'v) machine swap" where
  "swapcontext getc setc res oucp ucp m = after_get setc res ucp (getc oucp m)"

end
