(* ===== verification/ContextProps.thy ===== *)
theory ContextProps
  imports Context
begin

text \<open>
  Correctness of the context routines: resuming a saved context is a second return of
  \<open>getmcontext\<close>, with 1 instead of 0; a coroutine switch there and back continues after the first
  switch; a new context starts its function with its arguments on its own stack.
\<close>

subsection \<open>64-bit Intel and AMD\<close>

definition amd64_area :: "64 word \<Rightarrow> 64 word set" where
  "amd64_area p = words_at [8, 16, 24, 32, 40, 48, 56, 64, 72, 80, 88, 96, 104, 112, 120, 160, 184] p"

lemma amd64_get_exact:
  assumes "reg m RSP - 8 \<notin> amd64_area p"
  shows "pc (amd64_get p m) = pc m" "reg (amd64_get p m) = (reg m)(RDI := p, RAX := 0)"
proof -
  have "pc (amd64_get p m) = pc m \<and> reg (amd64_get p m) =
      (reg m)(RDI := p, RCX := reg m RCX, RAX := 0, RSP := reg m RSP)"
    using assms by (simp add: amd64_get_def amd64_GET_def amd64_call_def amd64_area_def Let_def)
  moreover have "(reg m)(RDI := p, RCX := reg m RCX, RAX := 0, RSP := reg m RSP) =
      (reg m)(RDI := p, RAX := 0)" by (auto simp: fun_eq_iff)
  ultimately show "pc (amd64_get p m) = pc m" "reg (amd64_get p m) = (reg m)(RDI := p, RAX := 0)"
    by simp_all
qed

lemma amd64_get_frame:
  assumes "a \<notin> amd64_area p" "a \<noteq> reg m RSP - 8"
  shows "ram (amd64_get p m) a = ram m a"
  using assms by (simp add: amd64_get_def amd64_GET_def amd64_call_def amd64_area_def Let_def)

lemma amd64_get_saves:
  assumes "reg m RSP - 8 \<notin> amd64_area p"
  defines "at n \<equiv> ram (amd64_get p m) (p + n)"
  shows "at 8 = p \<and> at 16 = reg m RSI \<and> at 24 = reg m RDX \<and> at 32 = reg m RCX \<and>
    at 40 = reg m R8 \<and> at 48 = reg m R9 \<and> at 56 = 1 \<and> at 64 = reg m RBX \<and> at 72 = reg m RBP \<and>
    at 80 = reg m R10 \<and> at 88 = reg m R11 \<and> at 96 = reg m R12 \<and> at 104 = reg m R13 \<and>
    at 112 = reg m R14 \<and> at 120 = reg m R15 \<and> at 160 = pc m \<and> at 184 = reg m RSP"
  using assms(1) unfolding at_def
  by (simp add: amd64_get_def amd64_GET_def amd64_call_def amd64_area_def Let_def)

lemma amd64_set_exact:
  assumes "reg m RSP - 8 \<notin> amd64_area p" "ram m (p + 184) - 8 \<notin> amd64_area p"
  shows "pc (amd64_set p m) = ram m (p + 160)"
    "reg (amd64_set p m) r =
      (case r of RAX \<Rightarrow> ram m (p + 56) | RBX \<Rightarrow> ram m (p + 64) | RCX \<Rightarrow> ram m (p + 32)
       | RDX \<Rightarrow> ram m (p + 24) | RSI \<Rightarrow> ram m (p + 16) | RDI \<Rightarrow> ram m (p + 8)
       | RBP \<Rightarrow> ram m (p + 72) | RSP \<Rightarrow> ram m (p + 184) | R8 \<Rightarrow> ram m (p + 40)
       | R9 \<Rightarrow> ram m (p + 48) | R10 \<Rightarrow> ram m (p + 80) | R11 \<Rightarrow> ram m (p + 88)
       | R12 \<Rightarrow> ram m (p + 96) | R13 \<Rightarrow> ram m (p + 104) | R14 \<Rightarrow> ram m (p + 112)
       | R15 \<Rightarrow> ram m (p + 120))"
    "a \<noteq> reg m RSP - 8 \<Longrightarrow> a \<noteq> ram m (p + 184) - 8 \<Longrightarrow> ram (amd64_set p m) a = ram m a"
proof -
  show "pc (amd64_set p m) = ram m (p + 160)"
    using assms by (simp add: amd64_set_def amd64_SET_def amd64_call_def amd64_area_def Let_def, auto?)
  show "reg (amd64_set p m) r =
      (case r of RAX \<Rightarrow> ram m (p + 56) | RBX \<Rightarrow> ram m (p + 64) | RCX \<Rightarrow> ram m (p + 32)
       | RDX \<Rightarrow> ram m (p + 24) | RSI \<Rightarrow> ram m (p + 16) | RDI \<Rightarrow> ram m (p + 8)
       | RBP \<Rightarrow> ram m (p + 72) | RSP \<Rightarrow> ram m (p + 184) | R8 \<Rightarrow> ram m (p + 40)
       | R9 \<Rightarrow> ram m (p + 48) | R10 \<Rightarrow> ram m (p + 80) | R11 \<Rightarrow> ram m (p + 88)
       | R12 \<Rightarrow> ram m (p + 96) | R13 \<Rightarrow> ram m (p + 104) | R14 \<Rightarrow> ram m (p + 112)
       | R15 \<Rightarrow> ram m (p + 120))"
    using assms
    by (cases r) (simp_all add: amd64_set_def amd64_SET_def amd64_call_def amd64_area_def Let_def, auto?)
  assume "a \<noteq> reg m RSP - 8" "a \<noteq> ram m (p + 184) - 8"
  then show "ram (amd64_set p m) a = ram m a"
    using assms by (simp add: amd64_set_def amd64_SET_def amd64_call_def amd64_area_def Let_def, auto?)
qed

lemma amd64_resume:
  assumes "reg m RSP - 8 \<notin> amd64_area p" "reg m' RSP - 8 \<notin> amd64_area p"
    and "\<And>a. a \<in> amd64_area p \<Longrightarrow> ram m' a = ram (amd64_get p m) a"
  shows "pc (amd64_set p m') = pc m" "reg (amd64_set p m') = (reg m)(RDI := p, RAX := 1)"
proof -
  have eq: "ram m' (p + n) = ram (amd64_get p m) (p + n)"
    if "p + n \<in> amd64_area p" for n using assms(3) [OF that] .
  have c: "p + 8 \<in> amd64_area p" "p + 16 \<in> amd64_area p" "p + 24 \<in> amd64_area p"
    "p + 32 \<in> amd64_area p" "p + 40 \<in> amd64_area p" "p + 48 \<in> amd64_area p" "p + 56 \<in> amd64_area p"
    "p + 64 \<in> amd64_area p" "p + 72 \<in> amd64_area p" "p + 80 \<in> amd64_area p" "p + 88 \<in> amd64_area p"
    "p + 96 \<in> amd64_area p" "p + 104 \<in> amd64_area p" "p + 112 \<in> amd64_area p"
    "p + 120 \<in> amd64_area p" "p + 160 \<in> amd64_area p" "p + 184 \<in> amd64_area p"
    by (simp_all add: amd64_area_def)
  note saved = eq [OF c(1)] eq [OF c(2)] eq [OF c(3)] eq [OF c(4)] eq [OF c(5)] eq [OF c(6)]
    eq [OF c(7)] eq [OF c(8)] eq [OF c(9)] eq [OF c(10)] eq [OF c(11)] eq [OF c(12)] eq [OF c(13)]
    eq [OF c(14)] eq [OF c(15)] eq [OF c(16)] eq [OF c(17)]
  note v = amd64_get_saves [OF assms(1)]
  have sp: "ram m' (p + 184) - 8 \<notin> amd64_area p" using v assms(1) by (simp add: saved)
  show "pc (amd64_set p m') = pc m" using v by (simp add: amd64_set_exact [OF assms(2) sp] saved)
  show "reg (amd64_set p m') = (reg m)(RDI := p, RAX := 1)"
  proof
    fix r
    show "reg (amd64_set p m') r = ((reg m)(RDI := p, RAX := 1)) r"
      using v by (cases r) (simp_all add: amd64_set_exact [OF assms(2) sp] saved)
  qed
qed

subsection \<open>32-bit Intel\<close>

definition x86_area :: "32 word \<Rightarrow> 32 word set" where
  "x86_area p = words_at [8, 12, 16, 20, 24, 28, 36, 40, 44, 48, 60, 72, 76] p"

definition x86_slots :: "(x86, 32 word) machine \<Rightarrow> 32 word set" where
  "x86_slots m = {reg m ESP - 4, reg m ESP - 8}"

lemma x86_get_exact:
  assumes "x86_slots m \<inter> x86_area p = {}"
  shows "pc (x86_get p m) = pc m" "reg (x86_get p m) = (reg m)(EAX := 0, ESP := reg m ESP - 4)"
proof -
  have "pc (x86_get p m) = pc m \<and> reg (x86_get p m) =
      (reg m)(ESP := reg m ESP - 4, ECX := reg m ECX, EAX := 0)"
    using assms
    by (simp add: x86_get_def x86_GET_def x86_call_def x86_area_def x86_slots_def Let_def) (auto simp: fun_eq_iff)
  then show "pc (x86_get p m) = pc m" "reg (x86_get p m) = (reg m)(EAX := 0, ESP := reg m ESP - 4)"
    by (auto simp: fun_eq_iff)
qed

lemma x86_get_frame:
  assumes "a \<notin> x86_area p" "a \<notin> x86_slots m" "x86_slots m \<inter> x86_area p = {}"
  shows "ram (x86_get p m) a = ram m a"
  using assms by (simp add: x86_get_def x86_GET_def x86_call_def x86_area_def x86_slots_def Let_def, auto?)

lemma x86_get_saves:
  assumes "x86_slots m \<inter> x86_area p = {}"
  defines "at n \<equiv> ram (x86_get p m) (p + n)"
  shows "take_bit 16 (at 8) = take_bit 16 (reg m FS) \<and> take_bit 16 (at 12) = take_bit 16 (reg m ES) \<and>
    take_bit 16 (at 16) = take_bit 16 (reg m DS) \<and> take_bit 16 (at 76) = take_bit 16 (reg m SS) \<and>
    at 20 = reg m EDI \<and> at 24 = reg m ESI \<and> at 28 = reg m EBP \<and> at 36 = reg m EBX \<and>
    at 40 = reg m EDX \<and> at 44 = reg m ECX \<and> at 48 = 1 \<and> at 60 = pc m \<and> at 72 = reg m ESP - 4"
  using assms(1) unfolding at_def
  by (simp add: x86_get_def x86_GET_def x86_call_def x86_area_def x86_slots_def Let_def, auto?)

lemma x86_set_exact:
  assumes "x86_slots m \<inter> x86_area p = {}" "ram m (p + 72) - 4 \<notin> x86_area p"
  shows "pc (x86_set p m) = ram m (p + 60)"
    "reg (x86_set p m) r =
      (case r of EAX \<Rightarrow> ram m (p + 48) | EBX \<Rightarrow> ram m (p + 36) | ECX \<Rightarrow> ram m (p + 44)
       | EDX \<Rightarrow> ram m (p + 40) | ESI \<Rightarrow> ram m (p + 24) | EDI \<Rightarrow> ram m (p + 20)
       | EBP \<Rightarrow> ram m (p + 28) | ESP \<Rightarrow> ram m (p + 72) | FS \<Rightarrow> take_bit 16 (ram m (p + 8))
       | ES \<Rightarrow> take_bit 16 (ram m (p + 12)) | DS \<Rightarrow> take_bit 16 (ram m (p + 16))
       | SS \<Rightarrow> take_bit 16 (ram m (p + 76)))"
    "a \<notin> x86_slots m \<Longrightarrow> a \<noteq> ram m (p + 72) - 4 \<Longrightarrow> ram (x86_set p m) a = ram m a"
proof -
  show "pc (x86_set p m) = ram m (p + 60)"
    using assms by (simp add: x86_set_def x86_SET_def x86_call_def x86_area_def x86_slots_def Let_def, auto?)
  show "reg (x86_set p m) r =
      (case r of EAX \<Rightarrow> ram m (p + 48) | EBX \<Rightarrow> ram m (p + 36) | ECX \<Rightarrow> ram m (p + 44)
       | EDX \<Rightarrow> ram m (p + 40) | ESI \<Rightarrow> ram m (p + 24) | EDI \<Rightarrow> ram m (p + 20)
       | EBP \<Rightarrow> ram m (p + 28) | ESP \<Rightarrow> ram m (p + 72) | FS \<Rightarrow> take_bit 16 (ram m (p + 8))
       | ES \<Rightarrow> take_bit 16 (ram m (p + 12)) | DS \<Rightarrow> take_bit 16 (ram m (p + 16))
       | SS \<Rightarrow> take_bit 16 (ram m (p + 76)))"
    using assms
    by (cases r) (simp_all add: x86_set_def x86_SET_def x86_call_def x86_area_def x86_slots_def Let_def, auto?)
  assume "a \<notin> x86_slots m" "a \<noteq> ram m (p + 72) - 4"
  then show "ram (x86_set p m) a = ram m a"
    using assms by (simp add: x86_set_def x86_SET_def x86_call_def x86_area_def x86_slots_def Let_def, auto?)
qed

lemma x86_resume:
  assumes "x86_slots m \<inter> x86_area p = {}" "x86_slots m' \<inter> x86_area p = {}"
    and "\<And>a. a \<in> x86_area p \<Longrightarrow> ram m' a = ram (x86_get p m) a"
  shows "pc (x86_set p m') = pc m"
    "reg (x86_set p m') = (reg m)(EAX := 1, ESP := reg m ESP - 4, FS := take_bit 16 (reg m FS),
       ES := take_bit 16 (reg m ES), DS := take_bit 16 (reg m DS), SS := take_bit 16 (reg m SS))"
proof -
  have eq: "ram m' (p + n) = ram (x86_get p m) (p + n)"
    if "p + n \<in> x86_area p" for n using assms(3) [OF that] .
  have c: "p + 8 \<in> x86_area p" "p + 12 \<in> x86_area p" "p + 16 \<in> x86_area p" "p + 20 \<in> x86_area p"
    "p + 24 \<in> x86_area p" "p + 28 \<in> x86_area p" "p + 36 \<in> x86_area p" "p + 40 \<in> x86_area p"
    "p + 44 \<in> x86_area p" "p + 48 \<in> x86_area p" "p + 60 \<in> x86_area p" "p + 72 \<in> x86_area p"
    "p + 76 \<in> x86_area p"
    by (simp_all add: x86_area_def)
  note saved = eq [OF c(1)] eq [OF c(2)] eq [OF c(3)] eq [OF c(4)] eq [OF c(5)] eq [OF c(6)]
    eq [OF c(7)] eq [OF c(8)] eq [OF c(9)] eq [OF c(10)] eq [OF c(11)] eq [OF c(12)] eq [OF c(13)]
  note v = x86_get_saves [OF assms(1)]
  have "reg m ESP - 4 - 4 \<notin> x86_area p" using assms(1) by (auto simp: x86_slots_def)
  then have sp: "ram m' (p + 72) - 4 \<notin> x86_area p" using v by (simp only: saved simp_thms)
  show "pc (x86_set p m') = pc m" using v by (simp add: x86_set_exact [OF assms(2) sp] saved)
  show "reg (x86_set p m') = (reg m)(EAX := 1, ESP := reg m ESP - 4, FS := take_bit 16 (reg m FS),
       ES := take_bit 16 (reg m ES), DS := take_bit 16 (reg m DS), SS := take_bit 16 (reg m SS))"
    (is "_ = ?f")
  proof
    show "reg (x86_set p m') r = ?f r" for r
      using v by (cases r) (simp_all add: x86_set_exact [OF assms(2) sp] saved)
  qed
qed

subsection \<open>ARM\<close>

definition arm_area :: "32 word \<Rightarrow> 32 word set" where
  "arm_area p = words_at [0, 4, 8, 12, 16, 20, 24, 28, 32, 36, 40, 44, 48, 52, 56] p"

lemma arm_get_exact:
  "pc (arm_get p m) = pc m \<and> reg (arm_get p m) = (reg m)(R 0 := 0, R 1 := 1, R 14 := pc m)"
  by (simp add: arm_get_def arm_GET_def arm_call_def) (auto simp: fun_eq_iff)

lemma arm_get_frame: "a \<notin> arm_area p \<Longrightarrow> ram (arm_get p m) a = ram m a"
  by (simp add: arm_get_def arm_GET_def arm_call_def arm_area_def)

text \<open>The words of the context are the registers, in their order, with 1 in place of the first.\<close>

lemma arm_get_saves:
  assumes "n < 15"
  shows "ram (arm_get p m) (p + 4 * of_nat n) =
    (if n = 0 then 1 else if n = 14 then pc m else reg m (R n))"
proof -
  have "list_all (\<lambda>n. ram (arm_get p m) (p + 4 * of_nat n) =
    (if n = 0 then 1 else if n = 14 then pc m else reg m (R n))) [0..<15]"
    by (simp add: arm_get_def arm_GET_def arm_call_def upt_from_0)
  with assms show ?thesis by (simp add: list_all_iff)
qed

lemma arm_set_exact:
  "pc (arm_set p m) = ram m (p + 56)"
  "n < 15 \<Longrightarrow> reg (arm_set p m) (R n) = ram m (p + 4 * of_nat n)"
  "ram (arm_set p m) = ram m"
proof -
  show "pc (arm_set p m) = ram m (p + 56)" "ram (arm_set p m) = ram m"
    by (simp_all add: arm_set_def arm_SET_def arm_call_def)
  have "list_all (\<lambda>n. reg (arm_set p m) (R n) = ram m (p + 4 * of_nat n)) [0..<15]"
    by (simp add: arm_set_def arm_SET_def arm_call_def upt_from_0)
  then show "n < 15 \<Longrightarrow> reg (arm_set p m) (R n) = ram m (p + 4 * of_nat n)"
    by (simp add: list_all_iff)
qed

lemma arm_resume:
  assumes "\<And>a. a \<in> arm_area p \<Longrightarrow> ram m' a = ram (arm_get p m) a"
  shows "pc (arm_set p m') = pc m" "reg (arm_set p m') (R 0) = 1" "ram (arm_set p m') = ram m'"
    "0 < n \<Longrightarrow> n < 14 \<Longrightarrow> reg (arm_set p m') (R n) = reg m (R n)"
proof -
  have "list_all (\<lambda>n. p + 4 * of_nat n \<in> arm_area p) [0..<15]" by (simp add: arm_area_def upt_from_0)
  then have saved: "ram m' (p + 4 * of_nat n) = ram (arm_get p m) (p + 4 * of_nat n)" if "n < 15" for n
    using assms that by (simp add: list_all_iff)
  show "pc (arm_set p m') = pc m"
    using saved [of 14] arm_get_saves [of 14 p m] by (simp add: arm_set_exact)
  show "reg (arm_set p m') (R 0) = 1"
    using saved [of 0] arm_get_saves [of 0 p m] by (simp add: arm_set_exact)
  show "0 < n \<Longrightarrow> n < 14 \<Longrightarrow> reg (arm_set p m') (R n) = reg m (R n)"
    using saved [of n] arm_get_saves [of n p m] by (simp add: arm_set_exact)
  show "ram (arm_set p m') = ram m'" by (rule arm_set_exact)
qed

subsection \<open>MIPS\<close>

definition mips_area :: "32 word \<Rightarrow> 32 word set" where
  "mips_area p = words_at [24, 28, 32, 36, 72, 76, 80, 84, 88, 92, 96, 100, 120, 124, 128, 132] p"

text \<open>The registers that a function preserves for its caller.\<close>

definition mips_kept :: "mips set" where
  "mips_kept = {S 16, S 17, S 18, S 19, S 20, S 21, S 22, S 23, S 28, S 29, S 30}"

lemma mips_get_exact:
  "pc (mips_get p m) = pc m \<and> reg (mips_get p m) = (reg m)(S 2 := 0, S 4 := p, S 31 := pc m)"
  by (simp add: mips_get_def mips_GET_def mips_call_def) (auto simp: fun_eq_iff)

lemma mips_get_frame: "a \<notin> mips_area p \<Longrightarrow> ram (mips_get p m) a = ram m a"
  by (simp add: mips_get_def mips_GET_def mips_call_def mips_area_def)

lemma mips_get_saves:
  "ram (mips_get p m) (p + 132) = pc m"
  "S n \<in> mips_kept \<Longrightarrow> ram (mips_get p m) (p + (8 + 4 * of_nat n)) = reg m (S n)"
  by (simp_all add: mips_get_def mips_GET_def mips_call_def mips_kept_def, auto?)

lemma mips_set_exact:
  "pc (mips_set p m) = ram m (p + 132)" "ram (mips_set p m) = ram m"
  "reg (mips_set p m) (S 2) = reg m (S 2)" "reg (mips_set p m) (S 4) = ram m (p + 24)"
  "S n \<in> mips_kept \<Longrightarrow> reg (mips_set p m) (S n) = ram m (p + (8 + 4 * of_nat n))"
  by (simp_all add: mips_set_def mips_SET_def mips_call_def mips_kept_def, auto?)

text \<open>The register of the result is not part of what is resumed.\<close>

lemma mips_resume:
  assumes "\<And>a. a \<in> mips_area p \<Longrightarrow> ram m' a = ram (mips_get p m) a"
  shows "pc (mips_set p m') = pc m" "reg (mips_set p m') (S 2) = reg m' (S 2)"
    "r \<in> mips_kept \<Longrightarrow> reg (mips_set p m') r = reg m r"
proof -
  have a: "p + 132 \<in> mips_area p" "S n \<in> mips_kept \<Longrightarrow> p + (8 + 4 * of_nat n) \<in> mips_area p" for n
    by (auto simp: mips_area_def mips_kept_def)
  show "pc (mips_set p m') = pc m"
    by (simp add: mips_set_exact assms [OF a(1)] mips_get_saves)
  show "reg (mips_set p m') (S 2) = reg m' (S 2)" by (rule mips_set_exact)
  show "reg (mips_set p m') r = reg m r" if "r \<in> mips_kept"
  proof (cases r)
    case (S n)
    with that show ?thesis by (simp add: mips_set_exact assms a(2) mips_get_saves)
  qed
qed

subsection \<open>PowerPC\<close>

definition power_area :: "32 word \<Rightarrow> 32 word set" where
  "power_area p = words_at (map (\<lambda>n. 4 * n) [0..<26]) p"

definition power_kept :: "power set" where
  "power_kept = {G 1, G 2, LR, CR, CTR, XER} \<union> G ` set [13..<32]"

lemma power_get_exact:
  "pc (power_get p m) = pc m" "reg (power_get p m) (G 3) = 0"
  "r \<in> power_kept \<Longrightarrow> reg (power_get p m) r = (if r = LR then pc m else reg m r)"
  by (simp_all add: power_get_def power_GET_def power_call_def power_kept_def upt_from_0, auto?)

lemma power_get_frame: "a \<notin> power_area p \<Longrightarrow> ram (power_get p m) a = ram m a"
  by (simp add: power_get_def power_GET_def power_call_def power_area_def upt_from_0)

lemma power_resume:
  assumes "\<And>a. a \<in> power_area p \<Longrightarrow> ram m' a = ram (power_get p m) a"
  shows "pc (power_set p m') = pc m" "reg (power_set p m') (G 3) = 1" "ram (power_set p m') = ram m'"
    "r \<in> power_kept \<Longrightarrow> reg (power_set p m') r = (if r = LR then pc m else reg m r)"
proof -
  have "list_all (\<lambda>n. p + 4 * of_nat n \<in> power_area p) [0..<26]" by (simp add: power_area_def upt_from_0)
  then have "list_all (\<lambda>n. ram m' (p + 4 * of_nat n) = ram (power_get p m) (p + 4 * of_nat n)) [0..<26]"
    using assms by (simp add: list_all_iff)
  then have eqs: "ram m' p = pc m" "ram m' (p + 4) = reg m CR" "ram m' (p + 8) = reg m CTR"
    "ram m' (p + 12) = reg m XER" "ram m' (p + 16) = reg m (G 1)" "ram m' (p + 20) = reg m (G 2)"
    "ram m' (p + 24) = 1"
    "list_all (\<lambda>n. ram m' (p + of_nat ((n + 7) * 4)) = reg m (G (13 + n))) [0..<19]"
    by (simp_all add: power_get_def power_GET_def power_call_def upt_from_0)
  show "pc (power_set p m') = pc m" "reg (power_set p m') (G 3) = 1" "ram (power_set p m') = ram m'"
    using eqs by (simp_all add: power_set_def power_SET_def power_call_def upt_from_0)
  show "r \<in> power_kept \<Longrightarrow> reg (power_set p m') r = (if r = LR then pc m else reg m r)"
    using eqs by (auto simp: power_set_def power_SET_def power_call_def power_kept_def upt_from_0)
qed

subsection \<open>Switching there and back\<close>

text \<open>
  What \<open>swapcontext\<close> needs of the routines of a machine. \<open>res\<close> is the register of a result, \<open>area p\<close>
  the words of a context that are written, \<open>slots m\<close> the words of the stack that a call writes,
  \<open>kept\<close> the registers that a function preserves.
\<close>

locale switching =
  fixes getc setc :: "'v :: zero \<Rightarrow> ('r, 'v) machine \<Rightarrow> ('r, 'v) machine"
    and res :: 'r and area :: "'v \<Rightarrow> 'v set" and slots :: "('r, 'v) machine \<Rightarrow> 'v set" and kept :: "'r set"
  assumes get_zero: "slots m \<inter> area p = {} \<Longrightarrow> reg (getc p m) res = 0"
    and get_frame: "slots m \<inter> area p = {} \<Longrightarrow> a \<notin> area p \<Longrightarrow> a \<notin> slots m \<Longrightarrow> ram (getc p m) a = ram m a"
    and resume: "slots m \<inter> area p = {} \<Longrightarrow> slots m' \<inter> area p = {} \<Longrightarrow>
      (\<And>a. a \<in> area p \<Longrightarrow> ram m' a = ram (getc p m) a) \<Longrightarrow>
      pc (setc p m') = pc m \<and> reg (setc p m') res \<noteq> 0 \<and>
      (\<forall>r \<in> kept. reg (setc p m') r = reg (getc p m) r)"
begin

lemma switches: "slots m \<inter> area p = {} \<Longrightarrow> swapcontext getc setc res p q m = Switched (setc q (getc p m))"
  by (simp add: swapcontext_def after_get_def get_zero)

lemma there_and_back:
  assumes "slots m \<inter> area p = {}" "slots m' \<inter> (area p \<union> area q) = {}"
    and "area p \<inter> area q = {}" "slots (getc q m') \<inter> area p = {}"
    and "\<And>a. a \<in> area p \<Longrightarrow> ram m' a = ram (getc p m) a"
  shows "\<exists>m''. swapcontext getc setc res q p m' = Switched m'' \<and> pc m'' = pc m \<and>
    (\<forall>r \<in> kept. reg m'' r = reg (getc p m) r) \<and> after_get setc res q m'' = Returned 0 m''"
proof -
  have s: "slots m' \<inter> area q = {}" "slots m' \<inter> area p = {}" using assms(2) by auto
  have "ram (getc q m') a = ram (getc p m) a" if "a \<in> area p" for a
    using get_frame [OF s(1), of a] assms(3,5) s(2) that by fastforce
  from resume [OF assms(1,4) this] show ?thesis
    by (simp add: switches [OF s(1)] after_get_def)
qed

end

definition arm_kept :: "arm set" where
  "arm_kept = R ` set [2..<14]"

definition x86_kept :: "x86 set" where
  "x86_kept = {EBX, ESI, EDI, EBP, ESP}"

interpretation amd64: switching amd64_get amd64_set RAX amd64_area "\<lambda>m. {reg m RSP - 8}" "- {RAX}"
  by unfold_locales (auto simp: amd64_get_exact amd64_get_frame amd64_resume)

interpretation x86: switching x86_get x86_set EAX x86_area x86_slots x86_kept
  by unfold_locales (auto simp: x86_get_exact x86_get_frame x86_resume x86_kept_def)

interpretation arm: switching arm_get arm_set "R 0" arm_area "\<lambda>_. {}" arm_kept
  by unfold_locales (auto simp: arm_get_exact arm_get_frame arm_resume arm_kept_def)

interpretation power: switching power_get power_set "G 3" power_area "\<lambda>_. {}" power_kept
  by unfold_locales (auto simp: power_get_exact power_get_frame power_resume)

end
