(* ===== verification/ContextSpec.thy ===== *)
theory ContextSpec
  imports ContextProps TaskSpec
begin

text \<open>
  The properties of machine contexts (\<open>context.c\<close>, \<open>asm.S\<close>).
\<close>

subsection \<open>The stack of a new context\<close>

text \<open>The top of the stack that \<open>makecontext\<close> computes for a function with \<open>n\<close> arguments.\<close>

definition amd64_top :: "64 word \<Rightarrow> 64 word \<Rightarrow> nat \<Rightarrow> 64 word" where
  "amd64_top lo sz n =
     (let t = lo + 8 * (sz div 8) - 8 * of_nat n in t - t mod 16 - 8)"

lemma mod_16_of_top: "((t :: 64 word) - t mod 16 - 8) mod 16 = 8"
proof -
  have "uint ((t - t mod 16 - 8) mod 16) = (uint t - uint t mod 16 - 8) mod 2 ^ 64 mod 16"
    by (simp add: uint_mod_distrib uint_word_ariths mod_simps)
  also have "\<dots> = (uint t - uint t mod 16 - 8) mod 16"
    by (rule mod_mod_cancel) simp
  also have "\<dots> = 8" by presburger
  finally show ?thesis by (simp add: word_uint_eq_iff)
qed

lemma uint_align:
  assumes "0 \<le> uint (t :: 64 word) - uint t mod 16 - 8"
  shows "uint (t - t mod 16 - 8) = uint t - uint t mod 16 - 8"
proof -
  have "0 \<le> uint t" "uint t < 2 ^ 64" using uint_bounded [of t] by simp_all
  then have "uint t - uint t mod 16 - 8 < 2 ^ 64" by presburger
  with assms have "(uint t - uint t mod 16 - 8) mod 2 ^ 64 = uint t - uint t mod 16 - 8"
    by (intro mod_pos_pos_trivial)
  then show ?thesis by (simp add: uint_word_ariths uint_mod_distrib mod_simps)
qed

lemma amd64_top_bounds:
  assumes "uint lo + uint sz < 2 ^ 64" "64 \<le> uint sz"
  shows "uint lo + 8 \<le> uint (amd64_top lo sz 2)"
    "uint (amd64_top lo sz 2) + 8 \<le> uint lo + uint sz"
    "amd64_top lo sz 2 mod 16 = 8"
proof -
  let ?B = "uint lo" and ?S = "uint sz"
  have nn: "0 \<le> ?B" "0 \<le> ?S" by simp_all
  have a: "uint (8 * (sz div 8)) = 8 * (?S div 8)"
  proof -
    have "8 * (?S div 8) \<le> ?S" by simp
    then have "8 * (?S div 8) < 2 ^ 64" using assms nn by linarith
    then have "8 * (?S div 8) mod 2 ^ 64 = 8 * (?S div 8)" using nn by (intro mod_pos_pos_trivial) presburger+
    then show ?thesis by (simp add: uint_word_ariths uint_div_distrib)
  qed
  let ?s = "lo + 8 * (sz div 8) - 8 * of_nat 2"
  have b: "uint ?s = ?B + 8 * (?S div 8) - 16"
  proof -
    have "0 \<le> ?B + 8 * (?S div 8) - 16" "?B + 8 * (?S div 8) - 16 < 2 ^ 64"
      using assms nn by presburger+
    then have "(?B + 8 * (?S div 8) - 16) mod 2 ^ 64 = ?B + 8 * (?S div 8) - 16"
      by (rule mod_pos_pos_trivial)
    then show ?thesis by (simp add: uint_word_ariths uint_div_distrib mod_simps)
  qed
  have "0 \<le> uint ?s - uint ?s mod 16 - 8" using assms nn unfolding b by presburger
  note c = uint_align [OF this]
  show "?B + 8 \<le> uint (amd64_top lo sz 2)" "uint (amd64_top lo sz 2) + 8 \<le> ?B + ?S"
    unfolding amd64_top_def Let_def c b using assms nn by presburger+
  show "amd64_top lo sz 2 mod 16 = 8"
    unfolding amd64_top_def Let_def by (rule mod_16_of_top)
qed

lemma amd64_offsets:
  "offset_of 8 amd64_mcontext Rdi = 8" "offset_of 8 amd64_mcontext Rsi = 16"
  "offset_of 8 amd64_mcontext Rip = 160" "offset_of 8 amd64_mcontext Rsp = 184"
  by (simp_all add: amd64_mcontext_def)

lemma amd64_made:
  assumes "amd64_make p lo sz func [y, x] mm = Inr mm'" "amd64_top lo sz 2 \<notin> amd64_area p"
  shows "mm' (p + 8) = scast y" "mm' (p + 16) = scast x" "mm' (p + 160) = func"
    "mm' (p + 184) = amd64_top lo sz 2" "mm' (amd64_top lo sz 2) = 0"
proof -
  define t where "t = amd64_top lo sz 2"
  define mm0 where "mm0 = (\<lambda>a. if a \<in> words_at (map (\<lambda>i. 8 * i) [0..<length amd64_mcontext]) p then 0 else mm a)"
  have "mm' = mm0(p + 8 := scast y, p + 16 := scast x, t := 0, p + 160 := func, p + 184 := t)"
    using assms(1)
    by (simp add: amd64_make_def Let_def amd64_offsets t_def mm0_def amd64_top_def algebra_simps)
  then show "mm' (p + 8) = scast y" "mm' (p + 16) = scast x" "mm' (p + 160) = func"
    "mm' (p + 184) = amd64_top lo sz 2" "mm' (amd64_top lo sz 2) = 0"
    using assms(2) by (auto simp: amd64_area_def simp flip: t_def)
qed

text \<open>
  C36: a new context on amd64 runs its function as the calling convention demands. After
  \<open>makecontext\<close> with the two halves of a task pointer, jumping into the context enters the function
  with a stack pointer that is 8 above a multiple of 16 and lies inside the stack it was given, with
  a zero as the return address, and with arguments that \<open>taskstart\<close> joins to the pointer's lower
  48 bits. The registers are found where the assembly code looks for them, whatever the layout of
  the rest of the structure.
\<close>

theorem new_context_starts:
  assumes "amd64_make p lo sz func [y, x] mm = Inr (ram m)" "split_ptr task = (y, x)"
    and "uint lo + uint sz < 2 ^ 64" "64 \<le> uint sz"
    and "\<And>a. a \<in> insert (reg m RSP - 8) (amd64_area p) \<Longrightarrow> uint a < uint lo \<or> uint lo + uint sz \<le> uint a"
    and "reg m RSP - 8 \<notin> amd64_area p"
  shows "pc (amd64_set p m) = func \<and>
    join_ptr (ucast (reg (amd64_set p m) RDI)) (ucast (reg (amd64_set p m) RSI)) = take_bit 48 task \<and>
    (let t = reg (amd64_set p m) RSP in t mod 16 = 8 \<and> uint lo \<le> uint t \<and> uint t + 8 \<le> uint lo + uint sz \<and>
       ram (amd64_set p m) t = 0)"
proof -
  let ?t = "amd64_top lo sz 2"
  note b = amd64_top_bounds [OF assms(3,4)]
  have "uint (8 :: 64 word) \<le> uint ?t" using order_trans [OF _ b(1), of 8] by simp
  then have u: "uint (?t - 8) = uint ?t - 8" unfolding uint_sub_lem by simp
  have out: "?t \<notin> insert (reg m RSP - 8) (amd64_area p)" "?t - 8 \<notin> insert (reg m RSP - 8) (amd64_area p)"
    using assms(5) [of ?t] assms(5) [of "?t - 8"] b(1,2) unfolding u by fastforce+
  note made = amd64_made [OF assms(1)]
  have top: "?t \<notin> amd64_area p" using out by simp
  note mm = made [OF top]
  have sp: "ram m (p + 184) - 8 \<notin> amd64_area p" using out(2) by (simp add: mm)
  note r = amd64_set_exact [OF assms(6) sp]
  have "ram (amd64_set p m) ?t = 0"
    using r(3) [of ?t] out(1) by (simp add: mm)
  moreover have "ucast (scast y :: 64 word) = y" "ucast (scast x :: 64 word) = x"
    by (rule bit_word_eqI; simp add: bit_simps)+
  ultimately show ?thesis
    using pointer_48_bits [of task] assms(2) b by (simp add: r mm Let_def)
qed

definition x86_top :: "32 word \<Rightarrow> 32 word \<Rightarrow> nat \<Rightarrow> 32 word" where
  "x86_top lo sz n = (let t = lo + 4 * (sz div 4) - 4 * of_nat n in t - t mod 16 - 4)"

lemma x86_offsets: "offset_of 4 x86_mcontext Eip = 60" "offset_of 4 x86_mcontext Esp = 72"
  by (simp_all add: x86_mcontext_def)

lemma x86_starts:
  assumes "ram m = x86_make p lo sz func [y, x] mm" "t = x86_top lo sz 2"
    and "{t - 4, t, t + 4, t + 8} \<inter> (x86_area p \<union> x86_slots m) = {}" "x86_slots m \<inter> x86_area p = {}"
  shows "pc (x86_set p m) = func \<and> reg (x86_set p m) ESP = t \<and> ram (x86_set p m) t = 0 \<and>
    ram (x86_set p m) (t + 4) = y \<and> ram (x86_set p m) (t + 8) = x"
proof -
  have "ram m = mm(t + 4 := y, t + 8 := x, t := 0, p + 60 := func, p + 72 := t)"
    unfolding assms(1,2) x86_make_def x86_top_def Let_def x86_offsets by (simp add: algebra_simps)
  moreover have "{p + 60, p + 72} \<inter> {t - 4, t, t + 4, t + 8} = {}"
    using assms(3) by (auto simp: x86_area_def)
  ultimately have mm: "ram m (p + 60) = func" "ram m (p + 72) = t" "ram m t = 0" "ram m (t + 4) = y"
    "ram m (t + 8) = x"
    by auto
  have sp: "ram m (p + 72) - 4 \<notin> x86_area p" using assms(3) by (auto simp: mm)
  note r = x86_set_exact [OF assms(4) sp]
  show ?thesis
    using assms(3) r(3) [of t] r(3) [of "t + 4"] r(3) [of "t + 8"] by (auto simp: r mm)
qed

lemma arm_starts:
  assumes "ram m = arm_make p lo sz func [y, x] mm"
  shows "pc (arm_set p m) = func \<and> reg (arm_set p m) (R 13) = lo + 4 * (sz div 4) \<and>
    reg (arm_set p m) (R 0) = y \<and> reg (arm_set p m) (R 1) = x"
  using assms by (simp add: arm_make_def arm_set_exact)

lemma mips_starts:
  assumes "ram m = mips_make p lo sz func [y, x] mm"
  shows "pc (mips_set p m) = func \<and> reg (mips_set p m) (S 29) = lo + 4 * (sz div 4) \<and>
    reg (mips_set p m) (S 4) = y \<and> reg (mips_set p m) (S 5) = x \<and> reg (mips_set p m) (S 25) = func"
  using assms
  by (simp add: mips_make_def mips_mcontext_def mips_set_def mips_SET_def mips_call_def upt_from_0)

lemma power_starts:
  assumes "power_make p lo sz func (y # ys) mm = Inr (ram m)"
  shows "pc (power_set p m) = func \<and> reg (power_set p m) (G 1) = lo + 4 * (sz div 4) - 64 \<and>
    reg (power_set p m) (G 3) = y"
proof -
  have "ram m = mm(p := func, p + 16 := lo + 4 * (sz div 4) - 64, p + 24 := y)"
    using assms by (simp add: power_make_def power_mcontext_def Let_def)
  then show ?thesis by (simp add: power_set_def power_SET_def power_call_def upt_from_0)
qed

text \<open>A machine in the middle of a program, with a stack at 1000000 and contexts at 5000 and 7000.\<close>

definition demo_machine :: "64 word \<Rightarrow> (64 word \<Rightarrow> 64 word) \<Rightarrow> (amd64, 64 word) machine" where
  "demo_machine t mm = \<lparr>reg = (\<lambda>r. if r = RSP then t else 77), ram = mm, pc = 300\<rparr>"

theorem new_context_starts_witness:
  "\<exists>mm. amd64_make 5000 20000 4096 400 [123456, 0] (\<lambda>_. 0) = Inr mm \<and>
     pc (amd64_set 5000 (demo_machine 1000000 mm)) = 400 \<and>
     join_ptr (ucast (reg (amd64_set 5000 (demo_machine 1000000 mm)) RDI))
       (ucast (reg (amd64_set 5000 (demo_machine 1000000 mm)) RSI)) = 123456"
proof -
  obtain mm where mm: "amd64_make 5000 20000 4096 400 [123456, 0] (\<lambda>_. 0) = Inr mm"
    by (simp add: amd64_make_def Let_def)
  let ?m = "demo_machine 1000000 mm"
  have r: "ram ?m = mm" "reg ?m RSP - 8 = 999992" by (simp_all add: demo_machine_def)
  have out: "uint a < uint (20000 :: 64 word) \<or> uint (20000 :: 64 word) + uint (4096 :: 64 word) \<le> uint a"
    if "a \<in> insert (reg ?m RSP - 8) (amd64_area 5000)" for a
    using that unfolding r by (auto simp: amd64_area_def)
  have split: "split_ptr 123456 = (123456, 0)" by (simp add: split_ptr_def Let_def)
  have sp: "reg ?m RSP - 8 \<notin> amd64_area 5000" unfolding r by (simp add: amd64_area_def)
  have "take_bit 48 (123456 :: addr) = 123456" by simp
  with new_context_starts [where m = ?m, unfolded r(1), OF mm split _ _ out sp] mm show ?thesis
    by auto
qed

subsection \<open>Switching\<close>

text \<open>
  C35: a switch to another context and back is invisible. Suppose \<open>swapcontext(p, q)\<close> was called in
  the state \<open>m\<close>, and later, in any state \<open>m'\<close> in which the saved context is still intact,
  \<open>swapcontext(q, p)\<close>. Then the first call returns 0 to its caller, with the program counter and
  every register but the two of the call itself as they were, stack pointer included.
\<close>

theorem switch_there_and_back:
  assumes "reg m RSP - 8 \<notin> amd64_area p" "reg m' RSP - 8 \<notin> amd64_area p \<union> amd64_area q"
    and "amd64_area p \<inter> amd64_area q = {}"
    and "\<And>a. a \<in> amd64_area p \<Longrightarrow> ram m' a = ram (amd64_get p m) a"
  shows "swapcontext amd64_get amd64_set RAX p q m = Switched (amd64_set q (amd64_get p m)) \<and>
    (\<exists>m''. swapcontext amd64_get amd64_set RAX q p m' = Switched m'' \<and>
       after_get amd64_set RAX q m'' = Returned 0 m'' \<and> pc m'' = pc m \<and>
       (\<forall>r \<in> - {RAX, RDI}. reg m'' r = reg m r))"
proof -
  have s: "{reg m RSP - 8} \<inter> amd64_area p = {}" "{reg m' RSP - 8} \<inter> (amd64_area p \<union> amd64_area q) = {}"
    using assms(1,2) by auto
  have "reg (amd64_get q m') RSP = reg m' RSP" using assms(2) by (simp add: amd64_get_exact)
  then have "{reg (amd64_get q m') RSP - 8} \<inter> amd64_area p = {}" using s(2) by auto
  from amd64.there_and_back [OF s assms(3) this assms(4)] show ?thesis
    by (auto simp: amd64.switches [OF s(1)] amd64_get_exact [OF assms(1)])
qed

theorem switch_there_and_back_witness:
  "\<exists>m''. swapcontext amd64_get amd64_set RAX 7000 5000
       (demo_machine 2000000 (ram (amd64_get 5000 (demo_machine 1000000 (\<lambda>_. 0))))) = Switched m'' \<and>
     after_get amd64_set RAX 7000 m'' = Returned 0 m'' \<and> pc m'' = 300 \<and> reg m'' RSP = 1000000"
proof -
  let ?m = "demo_machine 1000000 (\<lambda>_. 0)"
  let ?m' = "demo_machine 2000000 (ram (amd64_get 5000 ?m))"
  have a: "reg ?m RSP - 8 \<notin> amd64_area 5000" "reg ?m' RSP - 8 \<notin> amd64_area 5000 \<union> amd64_area 7000"
    "amd64_area 5000 \<inter> amd64_area 7000 = {}" "pc ?m = 300" "reg ?m RSP = 1000000"
    by (simp_all add: demo_machine_def amd64_area_def)
  have "ram ?m' a = ram (amd64_get 5000 ?m) a" for a by (simp add: demo_machine_def)
  from switch_there_and_back [OF a(1-3) this] a(4,5) show ?thesis by auto
qed

text \<open>
  The same holds on ARM, PowerPC and 32-bit Intel, for the registers that a function preserves there.
\<close>

lemma switch_there_and_back_arm:
  assumes "arm_area p \<inter> arm_area q = {}" "\<And>a. a \<in> arm_area p \<Longrightarrow> ram m' a = ram (arm_get p m) a"
  shows "\<exists>m''. swapcontext arm_get arm_set (R 0) q p m' = Switched m'' \<and> pc m'' = pc m \<and>
    (\<forall>r \<in> arm_kept. reg m'' r = reg m r) \<and> after_get arm_set (R 0) q m'' = Returned 0 m''"
proof -
  have "reg (arm_get p m) r = reg m r" if "r \<in> arm_kept" for r
    using that by (auto simp: arm_get_exact arm_kept_def)
  with arm.there_and_back [OF _ _ assms(1) _ assms(2)] show ?thesis by auto
qed

lemma switch_there_and_back_power:
  assumes "power_area p \<inter> power_area q = {}" "\<And>a. a \<in> power_area p \<Longrightarrow> ram m' a = ram (power_get p m) a"
  shows "\<exists>m''. swapcontext power_get power_set (G 3) q p m' = Switched m'' \<and> pc m'' = pc m \<and>
    (\<forall>r \<in> power_kept - {LR}. reg m'' r = reg m r) \<and> after_get power_set (G 3) q m'' = Returned 0 m''"
  using power.there_and_back [OF _ _ assms(1) _ assms(2)] by (auto simp: power_get_exact)

lemma switch_there_and_back_x86:
  assumes "x86_slots m \<inter> x86_area p = {}" "x86_slots m' \<inter> (x86_area p \<union> x86_area q) = {}"
    and "x86_area p \<inter> x86_area q = {}" "reg m' ESP - 12 \<notin> x86_area p"
    and "\<And>a. a \<in> x86_area p \<Longrightarrow> ram m' a = ram (x86_get p m) a"
  shows "\<exists>m''. swapcontext x86_get x86_set EAX q p m' = Switched m'' \<and> pc m'' = pc m \<and>
    (\<forall>r \<in> x86_kept. reg m'' r = reg (x86_get p m) r) \<and> after_get x86_set EAX q m'' = Returned 0 m''"
proof -
  have "reg (x86_get q m') ESP = reg m' ESP - 4" using assms(2) by (subst x86_get_exact) auto
  then have "x86_slots (x86_get q m') \<inter> x86_area p = {}"
    using assms(2,4) by (auto simp: x86_slots_def)
  from x86.there_and_back [OF assms(1-3) this assms(5)] show ?thesis .
qed



end
