(* ===== verification/System.thy ===== *)
theory System
  imports FdWait
begin

text \<open>
  The invariant of the counters that decide when the program ends, which every operation on tasks
  keeps, and what the scheduler chooses.
\<close>

subsection \<open>The invariant\<close>

text \<open>
  \<open>sleepingcounted\<close> counts the sleeping tasks that are not system tasks, and \<open>taskcount\<close> the tasks that
  are not system tasks, plus one while any of them sleeps. No task between two steps is exiting, and
  the running task is in no list.
\<close>

definition counts_ok :: "'a fdst_scheme \<Rightarrow> (lref \<Rightarrow> addr list) \<Rightarrow> bool" where
  "counts_ok s L \<longleftrightarrow> sleepingcounted s = counted s (L Sleeping) \<and>
     taskcount s = int (card (users s)) + (if 0 < sleepingcounted s then 1 else 0)"

definition sys_inv :: "'a fdst_scheme \<Rightarrow> (lref \<Rightarrow> addr list) \<Rightarrow> bool" where
  "sys_inv s L \<longleftrightarrow> kinv s L \<and> sleep_sorted s L \<and> counts_ok s L \<and> 0 \<le> swapcontext_r s \<and>
     (\<forall>t. taskrunning s = Some t \<longrightarrow> off s L t) \<and> (\<forall>t. fld exiting (heap s) t \<noteq> Some True)"

lemma finite_users_kinv: "kinv s L \<Longrightarrow> finite (users s)"
  by (simp add: kinv_def finite_users)

lemma counted_nonneg: "0 \<le> counted s ts"
  by (simp add: counted_def)

text \<open>A step that leaves the counters, the marks and the alarm times alone.\<close>

lemma counts_same:
  assumes "counts_ok s L" "fld system (heap s') = fld system (heap s)" "L' Sleeping = L Sleeping"
    and "taskcount s' = taskcount s" "sleepingcounted s' = sleepingcounted s"
  shows "counts_ok s' L'"
  using assms by (simp add: counts_ok_def counted_def users_def)

lemma sorted_same:
  assumes "sleep_sorted s L" "fld alarmtime (heap s') = fld alarmtime (heap s)" "L' Sleeping = L Sleeping"
  shows "sleep_sorted s' L'"
proof -
  have "alarm (heap s') = alarm (heap s)"
    using assms(2) by (auto simp: fun_eq_iff intro!: alarm_fld_eq)
  with assms(1,3) show ?thesis by (simp add: sleep_sorted_def)
qed

lemma sys_inv_kframe:
  assumes "sys_inv s L" "kframe s s'" "kinv s' L'" "L' Sleeping = L Sleeping"
    and "\<forall>t. taskrunning s = Some t \<longrightarrow> off s' L' t"
  shows "sys_inv s' L'"
proof -
  have "fld system (heap s') = fld system (heap s)" "fld alarmtime (heap s') = fld alarmtime (heap s)"
    "fld exiting (heap s') = fld exiting (heap s)"
    using kframe_heap [OF assms(2)] by (auto simp: agree_fld)
  with assms show ?thesis
    using kframe_fields [OF assms(2)] kframe_fdst [OF assms(2)]
    by (auto simp: sys_inv_def intro: counts_same sorted_same)
qed

text \<open>A task that has left the processor without exiting: the rest of the turn changes nothing else.\<close>

lemma sys_inv_back:
  assumes "sys_inv s L" and k: "kinv s1 L'" and bk: "sched_back t s1 = Inr s'" and t: "t \<in> dom (heap s)"
    and h: "fld exiting (heap s1) = fld exiting (heap s)"
    and c: "counts_ok s1 L'" "sleep_sorted s1 L'" "swapcontext_r s1 = swapcontext_r s"
  shows "sys_inv s' L'"
proof -
  from t assms(1) have "fld exiting (heap s) t = Some False"
    by (auto simp: sys_inv_def fld_def)
  then have "fld exiting (heap s1) t = Some False" by (simp add: h)
  from sched_back_stay [OF k this] bk have "s' = s1\<lparr>taskrunning := None\<rparr>" "kinv s' L'" by auto
  with assms(1) h c show ?thesis
    by (auto simp: sys_inv_def counts_ok_def counted_def users_def sleep_sorted_def)
qed

lemma sys_inv_kblock:
  assumes "sys_inv s L" "kblock t f s s1" "kinv s1 L'" "L' Sleeping = L Sleeping"
    and "sched_back t s1 = Inr s'" "stack_room 0 t s"
  shows "sys_inv s' L'"
proof (rule sys_inv_back [OF assms(1,3,5)])
  note b = kblock_heap [OF assms(2)]
  have eq: "fld system (heap s1) = fld system (heap s)" "fld alarmtime (heap s1) = fld alarmtime (heap s)"
    "fld exiting (heap s1) = fld exiting (heap s)"
    using b by (auto simp: agree_fld)
  show "fld exiting (heap s1) = fld exiting (heap s)" by (rule eq)
  have "sleepingcounted s1 = sleepingcounted s" by (rule kblock_elim [OF assms(2)]) simp
  with assms(1,4) eq kblock_fields [OF assms(2)] show "counts_ok s1 L'" "sleep_sorted s1 L'"
    by (auto simp: sys_inv_def intro: counts_same sorted_same)
  show "swapcontext_r s1 = swapcontext_r s" by (rule kblock_fields [OF assms(2)])
  show "t \<in> dom (heap s)" using assms(6) by (auto simp: stack_room_def fld_def)
qed

subsection \<open>Every step keeps the invariant\<close>

lemma off_running: "sys_inv s L \<Longrightarrow> taskrunning s = Some t \<Longrightarrow> off s L t"
  by (simp add: sys_inv_def)

lemma pick_inv:
  assumes inv: "sys_inv s L" and "taskrunning s = None" and p: "sched_pick s = Done (t, f) s'"
  shows "sys_inv s' (L(RunQueue := tl (L RunQueue))) \<and> taskrunning s' = Some t \<and> L RunQueue = t # tl (L RunQueue)"
proof -
  have k: "kinv s L" and sw: "0 \<le> swapcontext_r s" using inv by (simp_all add: sys_inv_def)
  have c: "taskcount s \<noteq> 0" using sched_pick_stop(1) [OF k] p by auto
  with sched_pick_stop(2) [OF k] p obtain u us where L: "L RunQueue = u # us"
    by (cases "L RunQueue") auto
  from sched_pick_first [OF k L c sw] p have r: "u = t" "kinv s' (L(RunQueue := us))"
    "off s' (L(RunQueue := us)) t" "picked t s s'" by auto
  from r(4) have eq: "fld system (heap s') = fld system (heap s)"
    "fld alarmtime (heap s') = fld alarmtime (heap s)" "fld exiting (heap s') = fld exiting (heap s)"
    by (auto simp: picked_def agree_fld)
  have sc: "sleepingcounted s' = sleepingcounted s" by (rule picked_elim [OF r(4)]) simp
  have "counts_ok s' (L(RunQueue := us))" "sleep_sorted s' (L(RunQueue := us))"
    using inv eq sc picked_fields [OF r(4)]
    by (auto simp: sys_inv_def intro: counts_same sorted_same)
  with inv r L eq picked_fields [OF r(4)] show ?thesis by (simp add: sys_inv_def)
qed

lemma create_inv:
  assumes inv: "sys_inv s L" and a: "alloc_ok lib p s"
    and run: "taskcreate fn arg stack lib s = Inr (i, s')"
  shows "sys_inv s' (L(RunQueue := L RunQueue @ [p]))"
proof -
  have k: "kinv s L" using inv by (simp add: sys_inv_def)
  have new: "heap s p = None" using a by (simp add: alloc_ok_def)
  from taskcreate_runs [OF k a, of fn arg stack] run have s': "kinv s' (L(RunQueue := L RunQueue @ [p]))"
    "taskcount s' = taskcount s + 1" "taskrunning s' = taskrunning s"
    "agree undisp ((heap s)(p \<mapsto> fresh_task fn arg stack p s)) (heap s')"
    "swapcontext_r s' = swapcontext_r s" "kern.more s' = kern.more s" by auto
  have sc: "sleepingcounted s' = sleepingcounted s" using s'(6) by (cases s; cases s'; simp)
  have f: "fld g (heap s') = (fld g (heap s))(p \<mapsto> g (fresh_task fn arg stack p s))"
    if "\<And>x. g (undisp x) = g x" for g :: "task \<Rightarrow> 'b"
    by (rule ext, subst agree_fld [OF s'(4)]) (simp_all add: that fld_def)
  have us: "users s' = insert p (users s)" "p \<notin> users s"
    using f [of system] new by (auto simp: users_def fresh_task_def) (simp add: fld_def)
  have notin: "p \<notin> set (L l)" for l
    using dll_in_dom [OF queues_dll, of "heap s" "tlists s" L l] k new by (auto simp: kinv_def)
  have "filter (\<lambda>t. fld system (heap s') t = Some False) (L Sleeping) =
      filter (\<lambda>t. fld system (heap s) t = Some False) (L Sleeping)"
    using f [of system] notin by (intro filter_cong) auto
  then have "counts_ok s' (L(RunQueue := L RunQueue @ [p]))"
    using inv us finite_users_kinv [OF k] s'(2) sc by (simp add: sys_inv_def counts_ok_def counted_def)
  moreover have "map (alarm (heap s')) (L Sleeping) = map (alarm (heap s)) (L Sleeping)"
    using f [of alarmtime] notin by (auto intro!: alarm_fld_eq)
  then have "sleep_sorted s' (L(RunQueue := L RunQueue @ [p]))"
    using inv by (simp add: sys_inv_def sleep_sorted_def cong: map_cong)
  moreover have "off s' (L(RunQueue := L RunQueue @ [p])) t" if "taskrunning s' = Some t" for t
    using that inv s'(3) new agree_dom [OF s'(4)] by (auto simp: sys_inv_def off_def)
  moreover have "fld exiting (heap s') t \<noteq> Some True" for t
    using inv f [of exiting] by (auto simp: sys_inv_def fresh_task_def)
  ultimately show ?thesis using inv s' by (simp add: sys_inv_def)
qed

lemma exit_inv:
  assumes inv: "sys_inv s L" and c: "stack_room 0 t s" and run: "taskexit v s = Blocked s1"
    and bk: "sched_back t s1 = Inr s'"
  shows "sys_inv s' L \<and> taskexitval s' = v \<and> users s' = users s - {t}"
proof -
  have k: "kinv s L" using inv by (simp add: sys_inv_def)
  from c have r: "taskrunning s = Some t" by (simp add: stack_room_def)
  from off_running [OF inv r] have o: "off s L t" .
  from taskexit_runs [OF k c, of v] run obtain tk where tk: "heap s t = Some tk" and k1: "kinv s1 L"
    and s1: "s1 = s\<lparr>heap := (heap s)(t \<mapsto> tk\<lparr>exiting := True, ctxt := FExit\<rparr>), taskexitval := v\<rparr>"
    by (auto simp: exited_def)
  have o1: "off s1 L t" using o by (auto simp: off_def s1)
  have "fld exiting (heap s1) t = Some True" by (simp add: s1 fld_def)
  from sched_back_exit [OF k1 o1 this] bk have k': "kinv s' L" and rp: "reaped t s1 s'" by auto
  have e: "s' = s1\<lparr>heap := heap s', alltask := alltask s', nalltask := nalltask s1 - 1,
      taskrunning := None, taskcount := taskcount s'\<rparr>" and none: "heap s' t = None"
    and same: "\<And>u. u \<noteq> t \<Longrightarrow> fld unslot (heap s') u = fld unslot (heap s1) u"
    and tc: "taskcount s' = (if fld system (heap s1) t = Some True then taskcount s1 else taskcount s1 - 1)"
    using rp unfolding reaped_def by blast+
  have others: "taskrunning s' = None" "taskexitval s' = v" "sleepingcounted s' = sleepingcounted s"
    "swapcontext_r s' = swapcontext_r s"
    by (subst e, simp add: s1)+
  have f: "fld g (heap s') u = fld g (heap s) u"
    if "u \<noteq> t" "\<And>x. g (unslot x) = g x" for g :: "task \<Rightarrow> 'b" and u
  proof -
    have "fld g (heap s') u = map_option g (fld unslot (heap s') u)"
      "fld g (heap s1) u = map_option g (fld unslot (heap s1) u)"
      by (simp_all add: fld_def option.map_comp o_def that(2))
    with same [OF that(1)] have "fld g (heap s') u = fld g (heap s1) u" by simp
    with that(1) show ?thesis by (simp add: s1 fld_def)
  qed
  then have F: "fld g (heap s') = (fld g (heap s))(t := None)" if "\<And>x. g (unslot x) = g x"
    for g :: "task \<Rightarrow> 'b"
    using that none by (auto simp: fun_eq_iff fld_def)
  have us: "users s' = users s - {t}"
    using F [of system] by (auto simp: users_def unslot_def)
  have notin: "t \<notin> set (L Sleeping)" using o by (simp add: off_def)
  have "filter (\<lambda>u. fld system (heap s') u = Some False) (L Sleeping) =
      filter (\<lambda>u. fld system (heap s) u = Some False) (L Sleeping)"
    using F [of system] notin by (intro filter_cong) (auto simp: unslot_def)
  moreover have "t \<in> users s \<longleftrightarrow> \<not> system tk" "fld system (heap s1) t = Some (system tk)"
    using tk by (simp_all add: users_def fld_def s1)
  moreover have "card (users s - {t}) = (if t \<in> users s then card (users s) - 1 else card (users s))"
    by simp
  moreover have "t \<in> users s \<Longrightarrow> 0 < card (users s)"
    using finite_users_kinv [OF k] by (auto simp: card_gt_0_iff)
  ultimately have "counts_ok s' L"
    using inv tc others us by (auto simp: sys_inv_def counts_ok_def counted_def s1)
  moreover have "\<forall>u \<in> set (L Sleeping). alarm (heap s') u = alarm (heap s) u"
    using F [of alarmtime] notin by (auto simp: unslot_def intro!: alarm_fld_eq)
  then have "sleep_sorted s' L"
    using inv by (simp add: sys_inv_def sleep_sorted_def cong: map_cong)
  moreover have "fld exiting (heap s') u \<noteq> Some True" for u
    using inv F [of exiting] by (auto simp: sys_inv_def unslot_def)
  ultimately show ?thesis using inv k' others us by (simp add: sys_inv_def)
qed

lemma system_inv:
  assumes inv: "sys_inv s L" and r: "taskrunning s = Some t" and run: "tasksystem s = Inr s'"
  shows "sys_inv s' L"
proof -
  have k: "kinv s L" and o: "off s L t" using inv r by (simp_all add: sys_inv_def)
  from o obtain tk where tk: "heap s t = Some tk" by (auto simp: off_def)
  show ?thesis
  proof (cases "system tk")
    case True
    then show ?thesis using inv r tk run by (simp add: tasksystem_def running_def kget_def tget_def)
  next
    case False
    let ?s = "s\<lparr>heap := (heap s)(t \<mapsto> tk\<lparr>system := True\<rparr>)\<rparr>"
    have s': "s' = ?s\<lparr>taskcount := taskcount s - 1\<rparr>"
      using False r tk run by (simp add: tasksystem_def running_def kget_def tget_def kset_def tset_def)
    have k': "kinv ?s L" by (rule kinv_data [OF k tk]) simp_all
    have us: "users ?s = users s - {t}" "t \<in> users s"
      using tk False by (auto simp: users_def fld_def)
    have "0 < card (users s)" using us(2) finite_users_kinv [OF k] by (auto simp: card_gt_0_iff)
    moreover have "filter (\<lambda>u. fld system (heap ?s) u = Some False) (L Sleeping) =
        filter (\<lambda>u. fld system (heap s) u = Some False) (L Sleeping)"
      using o by (intro filter_cong) (auto simp: off_def fld_def)
    ultimately have "counts_ok s' L"
      using inv us by (simp add: sys_inv_def counts_ok_def counted_def s') (simp add: users_def)
    moreover have "fld alarmtime (heap ?s) = fld alarmtime (heap s)" "fld exiting (heap ?s) = fld exiting (heap s)"
      using tk by (auto simp: fld_def)
    ultimately show ?thesis
      using inv k' o r sorted_same [of s L s' L]
      by (auto simp: sys_inv_def s' off_def)
  qed
qed

lemma own_inv:
  assumes inv: "sys_inv s L" and "kern.truncate s' = kern.truncate s" "sleepingcounted s' = sleepingcounted s"
  shows "sys_inv s' L"
proof -
  have "heap s' = heap s" "tlists s' = tlists s" "taskcount s' = taskcount s" "alltask s' = alltask s"
    "nalltask s' = nalltask s" "swapcontext_r s' = swapcontext_r s" "taskrunning s' = taskrunning s"
    using assms(2) by (simp_all add: kern.truncate_def)
  with assms show ?thesis
    by (simp add: sys_inv_def kinv_def ready_ok_def slots_ok_def sleep_sorted_def counts_ok_def
        counted_def users_def off_def)
qed

lemma counted_insort:
  "counted s (insort_key f t xs) = counted s xs + (if t \<in> users s then 1 else 0)"
  by (induction xs) (auto simp: counted_def users_def)

lemma sorted_map_dropWhile: "sorted (map f xs) \<Longrightarrow> sorted (map f (dropWhile P xs))"
  by (induction xs) auto

lemma delay_inv:
  assumes inv: "sys_inv s L" and c: "stack_room 0 t s" and st: "startedfdtask s"
    and run: "taskdelay ms now lib s = Blocked s1" and bk: "sched_back t s1 = Inr s'"
  shows "sys_inv s' (L(Sleeping := insort_key (alarm (heap s1)) t (L Sleeping)))"
proof -
  have k: "kinv s L" and o: "off s L t" using inv c by (simp_all add: sys_inv_def stack_room_def)
  let ?L = "L(Sleeping := insort_key (alarm (heap s1)) t (L Sleeping))"
  from taskdelay_runs [OF k o c st, of ms now lib] run obtain w where
    a: "asleep t w now s s1" and k1: "kinv s1 ?L" by auto
  have e: "s1 = s\<lparr>heap := heap s1, tlists := tlists s1, taskcount := taskcount s1,
       sleepingcounted := sleepingcounted s1\<rparr>" and ag: "agree unsleep (heap s) (heap s1)"
    and sc: "sleepingcounted s1 = sleepingcounted s + (if t \<in> users s then 1 else 0)"
    and tc: "taskcount s1 = taskcount s + (if t \<in> users s \<and> sleepingcounted s = 0 then 1 else 0)"
    using a unfolding asleep_def by blast+
  have f: "fld system (heap s1) = fld system (heap s)" "fld exiting (heap s1) = fld exiting (heap s)"
    using ag by (auto simp: agree_fld)
  show ?thesis
  proof (rule sys_inv_back [OF inv k1 bk])
    show "t \<in> dom (heap s)" using o by (simp add: off_def)
    show "fld exiting (heap s1) = fld exiting (heap s)" by (rule f)
    show "swapcontext_r s1 = swapcontext_r s" by (subst e) simp
    show "sleep_sorted s1 ?L" using asleep_sorted [OF a o] inv by (simp add: sys_inv_def)
    have "users s1 = users s" "\<And>ts. counted s1 ts = counted s ts" by (simp_all add: users_def counted_def f)
    with inv sc tc show "counts_ok s1 ?L"
      using counted_nonneg [of s "L Sleeping"]
      by (auto simp: sys_inv_def counts_ok_def counted_insort)
  qed
qed

lemma expire_inv:
  assumes inv: "sys_inv s L" and r: "taskrunning s = Some t" and run: "expire now s = Inr s'"
  shows "sys_inv s' (L(Sleeping := dropWhile (\<lambda>u. alarm (heap s) u \<le> now) (L Sleeping),
      RunQueue := L RunQueue @ takeWhile (\<lambda>u. alarm (heap s) u \<le> now) (L Sleeping)))"
    (is "sys_inv s' ?L")
proof -
  let ?due = "takeWhile (\<lambda>u. alarm (heap s) u \<le> now) (L Sleeping)"
  let ?rest = "dropWhile (\<lambda>u. alarm (heap s) u \<le> now) (L Sleeping)"
  have k: "kinv s L" and o: "off s L t" and sc0: "sleepingcounted s = counted s (L Sleeping)"
    using inv r by (simp_all add: sys_inv_def counts_ok_def)
  from expire_runs [OF k refl, of now] run sc0 have k': "kinv s' ?L" and fr: "fframe s s'"
    and sc: "sleepingcounted s' = sleepingcounted s - counted s ?due"
    and tc: "taskcount s' = taskcount s - (if 0 < sleepingcounted s \<and> sleepingcounted s' = 0 then 1 else 0)"
    by auto
  have ag: "agree undisp (heap s) (heap s')" using fr by (rule fframe_elim) simp
  have same: "taskrunning s' = taskrunning s" "swapcontext_r s' = swapcontext_r s"
    using fr by (rule fframe_elim, simp)+
  have f: "fld system (heap s') = fld system (heap s)" "fld exiting (heap s') = fld exiting (heap s)"
    using ag by (auto simp: agree_fld)
  have split: "counted s (L Sleeping) = counted s ?due + counted s ?rest"
    by (simp flip: counted_append)
  have "users s' = users s" "\<And>ts. counted s' ts = counted s ts" by (simp_all add: users_def counted_def f)
  with inv sc tc sc0 split have "counts_ok s' ?L"
    using counted_nonneg [of s ?rest] counted_nonneg [of s ?due]
    by (auto simp: sys_inv_def counts_ok_def split: if_splits)
  moreover have "sleep_sorted s' ?L"
    using inv alarm_agree [OF ag]
    by (simp add: sys_inv_def sleep_sorted_def sorted_map_dropWhile cong: map_cong)
  moreover have "off s' ?L t"
    using o agree_dom [OF ag] by (auto simp: off_def dest: set_takeWhileD set_dropWhileD)
  ultimately show ?thesis using inv k' same f r by (simp add: sys_inv_def)
qed

text \<open>The counter says whether a task is left that keeps the program alive.\<close>

lemma count_zero:
  assumes "sys_inv s L"
  shows "taskcount s = 0 \<longleftrightarrow> users s = {}"
proof -
  have fin: "finite (users s)" using assms by (simp add: sys_inv_def finite_users_kinv)
  show ?thesis
  proof (cases "users s = {}")
    case True
    then have "counted s (L Sleeping) = 0" by (auto simp: counted_def users_def filter_empty_conv)
    with True assms show ?thesis by (simp add: sys_inv_def counts_ok_def)
  next
    case False
    with fin have "0 < card (users s)" by (simp add: card_gt_0_iff)
    with False assms show ?thesis by (simp add: sys_inv_def counts_ok_def)
  qed
qed

text \<open>What the scheduler chooses.\<close>

lemma next_task:
  assumes inv: "sys_inv s L"
  shows "users s = {} \<Longrightarrow> sched_pick s = Halted (Exit (taskexitval s))"
    "users s \<noteq> {} \<Longrightarrow> L RunQueue = [] \<Longrightarrow> sched_pick s = Halted (Exit 1)"
    "users s \<noteq> {} \<Longrightarrow> L RunQueue = t # ts \<Longrightarrow>
       \<exists>f s'. sched_pick s = Done (t, f) s' \<and> taskrunning s' = Some t"
proof -
  have k: "kinv s L" and sw: "0 \<le> swapcontext_r s" using inv by (simp_all add: sys_inv_def)
  note z = count_zero [OF inv]
  show "users s = {} \<Longrightarrow> sched_pick s = Halted (Exit (taskexitval s))"
    "users s \<noteq> {} \<Longrightarrow> L RunQueue = [] \<Longrightarrow> sched_pick s = Halted (Exit 1)"
    using sched_pick_stop [OF k] z by simp_all
  assume "users s \<noteq> {}" "L RunQueue = t # ts"
  with sched_pick_first [OF k _ _ sw] z obtain f s' where "sched_pick s = Done (t, f) s'" "picked t s s'"
    by blast
  then show "\<exists>f s'. sched_pick s = Done (t, f) s' \<and> taskrunning s' = Some t"
    by (auto simp: picked_fields)
qed

end
