(* ===== verification/Library.thy ===== *)
theory Library
  imports System ChanProps RwHistory
begin

text \<open>
  The whole library under an arbitrary program: the calls that a task can make, the place in the
  library at which a suspended task goes on, and the steps of a program, in which the task that has
  the processor calls the library or changes its own memory and the scheduler chooses the next task.
  A task may not call a function in a way its comment or its code excludes (\<open>proper\<close>).
\<close>

subsection \<open>The calls\<close>

text \<open>
  One constructor per function of \<open>task.h\<close> that changes the state. A call has the arguments of the
  function, then what the C library answers. \<open>Chan_op w k\<close> is \<open>chansend\<close>, \<open>chanrecv\<close> (\<open>k\<close>) and their
  non-blocking forms; its array lies at the address \<open>b\<close> on the stack of the task. \<open>Fd_turn\<close> is what
  \<open>fdtask\<close> does between two calls of \<open>taskyield\<close>.
\<close>

datatype call =
    Create code addr "32 word" libc
  | System_task
  | Name string
  | State string
  | Yield
  | Exit_task int
  | Exit_all int
  | Lock addr bool
  | Unlock addr
  | Read_lock addr bool
  | Write_lock addr bool
  | Read_unlock addr
  | Write_unlock addr
  | Sleep addr
  | Wakeup addr bool
  | Alt addr nat nat
  | Chan_create int int "addr option" "nat \<Rightarrow> byte"
  | Chan_free "addr option"
  | Chan_op side bool addr nat nat "addr option" "addr option"
  | Delay "32 word" "64 word" libc
  | Fd_wait int int libc
  | Fd_read int io libc
  | Fd_write int int "nat \<Rightarrow> int \<Rightarrow> io" nat int libc
  | Fd_turn "64 word" "pollent list \<Rightarrow> nat \<Rightarrow> int \<Rightarrow> pollres" "64 word"

text \<open>A call of a function that cannot give up the processor, and one whose result does not matter.\<close>

fun at_once :: "halt + 's \<Rightarrow> (unit, 's) co" where
  "at_once (Inl h) = Halted h"
| "at_once (Inr s) = Done () s"

abbreviation no_result :: "('b, 's) co \<Rightarrow> (unit, 's) co" where
  "no_result \<equiv> map_done (\<lambda>_ _. ())"

fun perform :: "call \<Rightarrow> 'a fdst_scheme \<Rightarrow> (unit, 'a fdst_scheme) co" where
  "perform (Create f x n lib) s = at_once (bindR (taskcreate f x n lib s) (\<lambda>(_, s). Inr s))"
| "perform System_task s = at_once (tasksystem s)"
| "perform (Name m) s = at_once (taskname m [] s)"
| "perform (State m) s = at_once (taskstate m [] s)"
| "perform Yield s = no_result (taskyield s)"
| "perform (Exit_task v) s = taskexit v s"
| "perform (Exit_all v) s = taskexitall v s"
| "perform (Lock l k) s = no_result (if k then qlock l s else canqlock l s)"
| "perform (Unlock l) s = at_once (qunlock l s)"
| "perform (Read_lock l k) s = no_result (if k then rlock l s else canrlock l s)"
| "perform (Write_lock l k) s = no_result (if k then wlock l s else canwlock l s)"
| "perform (Read_unlock l) s = at_once (runlock l s)"
| "perform (Write_unlock l) s = at_once (wunlock l s)"
| "perform (Sleep r) s = no_result (tasksleep r s)"
| "perform (Wakeup r all) s =
     at_once (bindR (if all then taskwakeupall r s else taskwakeup r s) (\<lambda>(_, s). Inr s))"
| "perform (Alt b r1 r2) s = no_result (chanalt b r1 r2 s)"
| "perform (Chan_create esz n m junk) s = at_once (bindR (chancreate esz n m junk s) (\<lambda>(_, s). Inr s))"
| "perform (Chan_free c) s = at_once (chanfree c s)"
| "perform (Chan_op w k b r1 r2 c v) s =
     no_result
       (case w of
          Asend \<Rightarrow> if k then chansend b r1 r2 c v s else channbsend b r1 r2 c v s
        | Arecv \<Rightarrow> if k then chanrecv b r1 r2 c v s else channbrecv b r1 r2 c v s)"
| "perform (Delay ms now lib) s = no_result (taskdelay ms now lib s)"
| "perform (Fd_wait fd rw lib) s = blocks (fdwait fd rw lib s)"
| "perform (Fd_read fd r lib) s = no_result (fdread fd r lib s)"
| "perform (Fd_write fd n w k tot lib) s =
     (case fdwrite fd n w k tot lib s of
        Inl h \<Rightarrow> Halted h
      | Inr (Wrote _, s) \<Rightarrow> Done () s
      | Inr (Wait_write _ _, s) \<Rightarrow> Blocked s)"
| "perform (Fd_turn now1 pl now2) s = fdtask_turn now1 pl now2 s"

text \<open>
  Where a task goes on when it gets the processor. A task in \<open>chanalt\<close> was called by the program or
  by \<open>_chanop\<close> (\<open>op\<close>); \<open>later\<close> is the time when a sleeping task goes on. A new task enters its function.
\<close>

fun resume :: "bool \<Rightarrow> 64 word \<Rightarrow> frame \<Rightarrow> 'a fdst_scheme \<Rightarrow> (unit, 'a fdst_scheme) co" where
  "resume op later (FStart y x) s =
     bindC (taskstart y x s) (\<lambda>(f, _).
     case f of
       Taskmainstart \<Rightarrow> at_once (taskmainstart s)
     | Fdtask \<Rightarrow> no_result (fdtask s)
     | User _ \<Rightarrow> Done () s)"
| "resume op later (FYield n) s = no_result (taskyield_resume n s)"
| "resume op later FExit s = Halted Segv"
| "resume op later (FQlock l) s = no_result (do_qlock_resume l s)"
| "resume op later (FRlock l) s = no_result (do_rlock_resume l s)"
| "resume op later (FWlock l) s = no_result (do_wlock_resume l s)"
| "resume op later (FSleep r) s = no_result (tasksleep_resume r s)"
| "resume op later (FAlt b) s = no_result (if op then do_chanop_resume b s else chanalt_resume b s)"
| "resume op later (FDelay now) s = no_result (taskdelay_resume now later s)"
| "resume op later (FFdwait fd rw) s = Done () s"

subsection \<open>Proper use\<close>

text \<open>
  \<open>place s p t\<close>: where task \<open>t\<close> is in the library; \<open>None\<close> when it runs code of the program. The
  running task has a place (\<open>p\<close>) only between the switch to it and its return from the library.
\<close>

definition place :: "'a kern_scheme \<Rightarrow> frame option \<Rightarrow> addr \<Rightarrow> frame option" where
  "place s p t = (if taskrunning s = Some t then p else fld ctxt (heap s) t)"

definition in_use :: "'a kern_scheme \<Rightarrow> frame option \<Rightarrow> addr \<Rightarrow> bool" where
  "in_use s p b \<longleftrightarrow> (\<exists>t. place s p t = Some (FAlt b))"

text \<open>Memory for a task is at a user address, of 48 bits.\<close>

definition task_memory :: "libc \<Rightarrow> 'a kern_scheme \<Rightarrow> bool" where
  "task_memory lib s \<longleftrightarrow> (\<exists>p. alloc_ok lib p s \<and> uint p < 2 ^ 48)"

definition fd_ready :: "libc \<Rightarrow> 'a fdst_scheme \<Rightarrow> bool" where
  "fd_ready lib s \<longleftrightarrow> (startedfdtask s \<or> task_memory lib s) \<and> npollfd s < MAXFD"

definition alt_args :: "addr \<Rightarrow> 'a fdst_scheme \<Rightarrow> bool" where
  "alt_args b s \<longleftrightarrow>
     (\<exists>as n. alts s b = Some as \<and> alt_end as = Some n \<and> (\<forall>i < n. op_valid s (as ! i)) \<and> roomy s n) \<and>
     \<not> in_use s None b"

text \<open>
  What a task owes the library: a stack deep enough, locks released only by their owners, arrays of
  operations that are not in use and whose channels exist, sizes of channels that are sizes, and a
  table of descriptors that is not full; and that \<open>malloc\<close> finds memory.
\<close>

fun args_ok :: "addr \<Rightarrow> call \<Rightarrow> 'a fdst_scheme \<Rightarrow> bool" where
  "args_ok t (Create f x n lib) s = task_memory lib s"
| "args_ok t (Name m) s = plain m"
| "args_ok t (State m) s = plain m"
| "args_ok t (Unlock l) s = (qowner s l = Some t)"
| "args_ok t (Read_unlock l) s = (0 < readers s l)"
| "args_ok t (Write_unlock l) s = (writer s l = Some t)"
| "args_ok t (Sleep r) s = (\<forall>l. rzl s r = Some l \<longrightarrow> qowner s l = Some t)"
| "args_ok t (Alt b r1 r2) s = alt_args b s"
| "args_ok t (Chan_create esz n m junk) s =
     (0 \<le> esz \<and> 0 \<le> n \<and> esz < 2 ^ 31 \<and> n < 2 ^ 31 \<and> n * esz < 2 ^ 31 \<and> (\<forall>c. m = Some c \<longrightarrow> chans s c = None))"
| "args_ok t (Chan_free c) s = (\<forall>ch. c = Some ch \<longrightarrow> chans s ch \<noteq> None \<and> (\<forall>w. waitq s ch w = []))"
| "args_ok t (Chan_op w k b r1 r2 c v) s =
     ((\<exists>ch. c = Some ch \<and> chans s ch \<noteq> None) \<and> alts s b = None \<and> roomy s 1 \<and> \<not> in_use s None b)"
| "args_ok t (Delay ms now lib) s = (startedfdtask s \<or> task_memory lib s)"
| "args_ok t (Fd_wait fd rw lib) s = fd_ready lib s"
| "args_ok t (Fd_read fd r lib) s = (again r \<longrightarrow> fd_ready lib s)"
| "args_ok t (Fd_write fd n w k tot lib) s = fd_ready lib s"
| "args_ok t _ s = True"

definition proper :: "addr \<Rightarrow> call \<Rightarrow> 'a fdst_scheme \<Rightarrow> bool" where
  "proper t c s \<longleftrightarrow> stack_room 512 t s \<and> args_ok t c s"

text \<open>
  What the program does between two calls: it writes its own memory, arrays of operations that are
  not in use, and the lock field of rendezvous points, and its stack pointer moves.
\<close>

definition own_work :: "'a fdst_scheme \<Rightarrow> 'a fdst_scheme \<Rightarrow> bool" where
  "own_work s s' \<longleftrightarrow>
     s' = s\<lparr>mem := mem s', alts := alts s', rzl := rzl s', sp := sp s'\<rparr> \<and>
     (\<forall>b. in_use s None b \<longrightarrow> alts s' b = alts s b)"

subsection \<open>The steps of a program\<close>

text \<open>
  A configuration is the state and the place of the running task. \<open>turn\<close> is a turn of the scheduler
  up to the switch; the stack pointer is then that of the new task. A task that leaves the processor
  does so with the rest of the turn. The result of a call that ends the program is no configuration.
\<close>

inductive turn_step ::
  "'a fdst_scheme \<times> frame option \<Rightarrow> 'a fdst_scheme \<times> frame option \<Rightarrow> bool" where
  turn: "taskrunning s = None \<Longrightarrow> sched_pick s = Done (t, f) s' \<Longrightarrow>
     turn_step (s, None) (s'\<lparr>sp := a\<rparr>, Some f)"

inductive task_step ::
  "'a fdst_scheme \<times> frame option \<Rightarrow> 'a fdst_scheme \<times> frame option \<Rightarrow> bool" where
  called: "proper t c s \<Longrightarrow> perform c s = Done () s' \<Longrightarrow> task_step (s, None) (s', None)"
| called_out: "proper t c s \<Longrightarrow> perform c s = Blocked s1 \<Longrightarrow> sched_back t s1 = Inr s' \<Longrightarrow>
     task_step (s, None) (s', None)"
| resumed: "stack_room 0 t s \<Longrightarrow> resume op later f s = Done () s' \<Longrightarrow> task_step (s, Some f) (s', None)"
| resumed_out: "stack_room 0 t s \<Longrightarrow> resume op later f s = Blocked s1 \<Longrightarrow> sched_back t s1 = Inr s' \<Longrightarrow>
     task_step (s, Some f) (s', None)"
| worked: "taskrunning s = Some t \<Longrightarrow> own_work s s' \<Longrightarrow> task_step (s, None) (s', None)"

text \<open>\<open>stops x h\<close>: the next turn or step can end the program, with \<open>h\<close>.\<close>

inductive stops :: "'a fdst_scheme \<times> frame option \<Rightarrow> halt \<Rightarrow> bool" where
  turn_stops: "taskrunning s = None \<Longrightarrow> sched_pick s = Halted h \<Longrightarrow> stops (s, None) h"
| call_stops: "proper t c s \<Longrightarrow> perform c s = Halted h \<Longrightarrow> stops (s, None) h"
| call_out_stops: "proper t c s \<Longrightarrow> perform c s = Blocked s1 \<Longrightarrow> sched_back t s1 = Inl h \<Longrightarrow>
     stops (s, None) h"
| resume_stops: "stack_room 0 t s \<Longrightarrow> resume op later f s = Halted h \<Longrightarrow> stops (s, Some f) h"
| resume_out_stops: "stack_room 0 t s \<Longrightarrow> resume op later f s = Blocked s1 \<Longrightarrow> sched_back t s1 = Inl h \<Longrightarrow>
     stops (s, Some f) h"

text \<open>\<open>prog_run n x y\<close>: a run of a program from \<open>x\<close> to \<open>y\<close> with \<open>n\<close> turns of the scheduler.\<close>

inductive prog_run ::
  "nat \<Rightarrow> 'a fdst_scheme \<times> frame option \<Rightarrow> 'a fdst_scheme \<times> frame option \<Rightarrow> bool" where
  here: "prog_run 0 x x"
| turns: "prog_run n x y \<Longrightarrow> turn_step y z \<Longrightarrow> prog_run (Suc n) x z"
| moves: "prog_run n x y \<Longrightarrow> task_step y z \<Longrightarrow> prog_run n x z"

end
