(* ===== verification/LibInv.thy ===== *)
theory LibInv
  imports Library
begin

text \<open>
  The invariant of the whole library, which ties its components together: every task that is not
  running is where its saved place says that it waits, in one list, in the poll table or in the
  queues of channels, and a task that is ready will find what it expects when it goes on.
\<close>

subsection \<open>The invariant\<close>

fun waits_at :: "lref \<Rightarrow> frame \<Rightarrow> bool" where
  "waits_at RunQueue f = True"
| "waits_at (QWait l) f = (f = FQlock l)"
| "waits_at (RWait l) f = (f = FRlock l)"
| "waits_at (WWait l) f = (f = FWlock l)"
| "waits_at (RzWait r) f = (f = FSleep r)"
| "waits_at Sleeping f = (\<exists>n. f = FDelay n)"

fun resumable :: "'a chanst_scheme \<Rightarrow> addr \<Rightarrow> frame \<Rightarrow> bool" where
  "resumable s t FExit = False"
| "resumable s t (FQlock l) = (qowner s l = Some t)"
| "resumable s t (FWlock l) = (writer s l = Some t)"
| "resumable s t (FAlt b) = (\<exists>as i. alts s b = Some as \<and> as \<noteq> [] \<and> xalt (as ! 0) = Some (b, i))"
| "resumable s t (FStart y x) = (uint t < 2 ^ 48 \<and> (y, x) = split_ptr t)"
| "resumable s t _ = True"

definition places_ok :: "'a chanst_scheme \<Rightarrow> frame option \<Rightarrow> (lref \<Rightarrow> addr list) \<Rightarrow> bool" where
  "places_ok s p L \<longleftrightarrow>
     (\<forall>l. \<forall>t \<in> set (L l). \<exists>f. place s p t = Some f \<and> waits_at l f) \<and>
     (\<forall>t f. t \<in> set (L RunQueue) \<or> taskrunning s = Some t \<longrightarrow> place s p t = Some f \<longrightarrow> resumable s t f) \<and>
     (\<forall>b t u. place s p t = Some (FAlt b) \<longrightarrow> place s p u = Some (FAlt b) \<longrightarrow> t = u)"

definition locks_ok :: "'a locks_scheme \<Rightarrow> (lref \<Rightarrow> addr list) \<Rightarrow> bool" where
  "locks_ok s L \<longleftrightarrow> (\<forall>l. rw_ok (rw_abs s L l)) \<and> (\<forall>l. qowner s l = None \<longrightarrow> L (QWait l) = [])"

definition alts_ok :: "'a chanst_scheme \<Rightarrow> (lref \<Rightarrow> addr list) \<Rightarrow> bool" where
  "alts_ok s L \<longleftrightarrow> alt_inv s L \<and> balanced s \<and> \<not> realloc_fails s"

definition polling :: "'a fdst_scheme \<Rightarrow> addr set" where
  "polling s = set (map snd (pollers s))"

definition polls_ok :: "'a fdst_scheme \<Rightarrow> (lref \<Rightarrow> addr list) \<Rightarrow> bool" where
  "polls_ok s L \<longleftrightarrow> pollers_ok s L \<and>
     (\<forall>u \<in> polling s. taskrunning s \<noteq> Some u \<and> (\<exists>fd rw. fld ctxt (heap s) u = Some (FFdwait fd rw)))"

text \<open>A task that neither runs nor is in a list waits for a descriptor or for channels.\<close>

definition idle :: "'a kern_scheme \<Rightarrow> (lref \<Rightarrow> addr list) \<Rightarrow> addr \<Rightarrow> bool" where
  "idle s L u \<longleftrightarrow> off s L u \<and> taskrunning s \<noteq> Some u"

definition accounted :: "'a fdst_scheme \<Rightarrow> (lref \<Rightarrow> addr list) \<Rightarrow> bool" where
  "accounted s L \<longleftrightarrow> (\<forall>u. idle s L u \<longrightarrow> u \<in> polling s \<or> (\<exists>b as n. parked s L b as n u))"

definition lib_ok :: "'a fdst_scheme \<Rightarrow> frame option \<Rightarrow> (lref \<Rightarrow> addr list) \<Rightarrow> bool" where
  "lib_ok s p L \<longleftrightarrow> sys_inv s L \<and> locks_ok s L \<and> alts_ok s L \<and> polls_ok s L \<and> places_ok s p L \<and>
     accounted s L"

lemma lib_ok_parts:
  assumes "lib_ok s p L"
  shows "sys_inv s L" "kinv s L" "locks_ok s L" "alts_ok s L" "polls_ok s L" "places_ok s p L" "accounted s L"
  using assms by (simp_all add: lib_ok_def sys_inv_def)

subsection \<open>Steps that leave channels and the poll table alone\<close>

lemma parked_frame:
  assumes "parked s L b as n u" "alts s' = alts s" "chans s' = chans s"
    "idle s' L' u" "fld ctxt (heap s') u = fld ctxt (heap s) u"
  shows "parked s' L' b as n u"
  using assms waitq_cong [OF assms(3)] by (simp add: parked_def queued_at_def idle_def)

lemma parked_idle: "parked s L b as n u \<Longrightarrow> idle s L u"
  by (simp add: parked_def idle_def)

lemma alt_inv_frame:
  assumes inv: "alt_inv s L" and al: "alts s' = alts s" "chans s' = chans s"
    and keep: "\<And>u b as n. parked s L b as n u \<Longrightarrow> idle s' L' u \<and> fld ctxt (heap s') u = fld ctxt (heap s) u"
  shows "alt_inv s' L'"
proof -
  have wq: "waitq s' ch w = waitq s ch w" for ch w by (rule waitq_cong) (rule al)
  have "entries_ok s'"
    using inv by (simp add: alt_inv_def entries_ok_def entry_ok_def wq al)
  moreover have "chans_ok s'" using inv by (simp add: alt_inv_def chans_ok_def al)
  moreover have "\<exists>as n t. parked s' L' b as n t" if "blocked s' b" for b
  proof -
    have "blocked s b" using that by (simp add: blocked_def wq)
    with inv obtain as n t where p: "parked s L b as n t" by (auto simp: alt_inv_def)
    from keep [OF p] have "parked s' L' b as n t" by (blast intro: parked_frame [OF p al])
    then show ?thesis by blast
  qed
  ultimately show ?thesis by (simp add: alt_inv_def)
qed

lemma balanced_frame:
  assumes "balanced s" "chans s' = chans s"
  shows "balanced s'"
proof -
  have "waitq s' ch w = waitq s ch w" for ch w by (rule waitq_cong) (rule assms)
  with assms show ?thesis by (simp add: balanced_def chan_balanced_def)
qed

text \<open>
  What such a step has to show: the tasks that are idle are the same, at the same places, and the
  parts of the invariant on lists, locks and places hold again.
\<close>

lemma lib_ok_frame:
  assumes ok: "lib_ok s p L" and inv: "sys_inv s' L'" and locks: "locks_ok s' L'" and places: "places_ok s' p' L'"
    and al: "alts s' = alts s" "chans s' = chans s" "realloc_fails s' = realloc_fails s"
    and tab: "pollers s' = pollers s" "tables_ok s' = tables_ok s"
    and keep: "\<And>u. idle s L u \<Longrightarrow> idle s' L' u \<and> fld ctxt (heap s') u = fld ctxt (heap s) u"
    and new: "\<And>u. idle s' L' u \<Longrightarrow> idle s L u"
  shows "lib_ok s' p' L'"
proof -
  from ok have o: "alts_ok s L" "polls_ok s L" "accounted s L" by (simp_all add: lib_ok_def)
  have "alt_inv s' L'"
    by (rule alt_inv_frame [OF _ al(1,2) keep]) (use o(1) parked_idle in \<open>auto simp: alts_ok_def\<close>)
  then have "alts_ok s' L'"
    using o(1) al(3) balanced_frame [OF _ al(2)] by (simp add: alts_ok_def)
  moreover have "polling s' = polling s" by (simp add: polling_def tab)
  moreover have "idle s L u" if "u \<in> polling s" for u
    using o(2) that by (auto simp: polls_ok_def idle_def pollers_ok_def polling_def)
  with o(2) keep have "polls_ok s' L'"
    unfolding polls_ok_def pollers_ok_def polling_def tab idle_def by (auto; metis)
  moreover have "accounted s' L'"
    unfolding accounted_def
  proof (intro allI impI)
    fix u assume "idle s' L' u"
    with new have i: "idle s L u" by blast
    with o(3) have "u \<in> polling s \<or> (\<exists>b as n. parked s L b as n u)" by (simp add: accounted_def)
    with keep [OF i] parked_frame [OF _ al(1,2)] show "u \<in> polling s' \<or> (\<exists>b as n. parked s' L' b as n u)"
      by (metis polling_def tab(1))
  qed
  ultimately show ?thesis using inv locks places by (simp add: lib_ok_def)
qed

subsection \<open>Places\<close>

text \<open>
  A step in which only the place of the running task changes, to \<open>q\<close>; tasks leave their lists for
  the run queue, and the running task may enter a list.
\<close>

lemma places_ok_step:
  assumes ok: "places_ok s p L"
    and pl: "\<And>u. place s' p' u = (if taskrunning s = Some u then q else place s p u)"
    and lists: "\<And>l u. u \<in> set (L' l) \<Longrightarrow> taskrunning s \<noteq> Some u \<Longrightarrow>
      u \<in> set (L l) \<or> l = RunQueue \<and> place s p u \<noteq> None"
    and mine: "\<And>t l. taskrunning s = Some t \<Longrightarrow> t \<in> set (L' l) \<Longrightarrow> \<exists>f. q = Some f \<and> waits_at l f"
    and res: "\<And>u f. u \<in> set (L' RunQueue) \<or> taskrunning s' = Some u \<Longrightarrow> place s' p' u = Some f \<Longrightarrow>
      resumable s' u f"
    and alt: "\<And>b. q = Some (FAlt b) \<Longrightarrow> p = q \<or> \<not> in_use s p b"
  shows "places_ok s' p' L'"
proof -
  have me: "place s p t = p" if "taskrunning s = Some t" for t using that by (simp add: place_def)
  have "\<exists>f. place s' p' u = Some f \<and> waits_at l f" if "u \<in> set (L' l)" for l u
  proof (cases "taskrunning s = Some u")
    case True
    with mine [OF True that] show ?thesis by (simp add: pl)
  next
    case False
    with lists [OF that False] ok have "\<exists>f. place s p u = Some f \<and> waits_at l f"
      unfolding places_ok_def by fastforce
    with False show ?thesis by (simp add: pl)
  qed
  moreover have "t = u" if "place s' p' t = Some (FAlt b)" "place s' p' u = Some (FAlt b)" for b t u
  proof -
    have inj: "place s p v = Some (FAlt b) \<Longrightarrow> place s p w = Some (FAlt b) \<Longrightarrow> v = w" for v w
      using ok by (simp add: places_ok_def)
    have old: "place s p v = Some (FAlt b) \<or> taskrunning s = Some v \<and> (\<forall>w. place s p w \<noteq> Some (FAlt b))"
      if "place s' p' v = Some (FAlt b)" for v
    proof (cases "taskrunning s = Some v")
      case True
      with that have "q = Some (FAlt b)" by (simp add: pl)
      with alt [OF this] True show ?thesis by (auto simp: me in_use_def)
    next
      case False
      with that show ?thesis by (simp add: pl)
    qed
    show ?thesis using old [OF that(1)] old [OF that(2)] inj by auto
  qed
  ultimately show ?thesis unfolding places_ok_def using res by blast
qed

lemma place_cong:
  "taskrunning s' = taskrunning s \<Longrightarrow> fld ctxt (heap s') = fld ctxt (heap s) \<Longrightarrow> place s' p = place s p"
  by (simp add: place_def fun_eq_iff)

lemma place_out:
  "taskrunning s = Some t \<Longrightarrow> taskrunning s' = None \<Longrightarrow> fld ctxt (heap s') = (fld ctxt (heap s))(t \<mapsto> f) \<Longrightarrow>
     place s' None u = (if taskrunning s = Some u then Some f else place s None u)"
  by (simp add: place_def)

lemma resumable_cong:
  assumes "resumable s t f" "alts s' = alts s"
    "\<And>l. f = FQlock l \<Longrightarrow> qowner s' l = qowner s l" "\<And>l. f = FWlock l \<Longrightarrow> writer s' l = writer s l"
  shows "resumable s' t f"
  using assms by (cases f) simp_all

end
