(* ===== verification/LibCalls.thy ===== *)
theory LibCalls
  imports LibInv
begin

text \<open>
  Every proper call keeps the invariant of the library: it returns, leaves the processor, or ends the
  program with a status, and never stops it otherwise.
\<close>

subsection \<open>Results\<close>

text \<open>The tasks that were ready stay so, in the same order; others may have come after them.\<close>

definition after :: "(lref \<Rightarrow> addr list) \<Rightarrow> (lref \<Rightarrow> addr list) \<Rightarrow> bool" where
  "after L L' \<longleftrightarrow> (\<exists>w. L' RunQueue = L RunQueue @ w)"

lemma after_refl [simp]: "after L L"
  by (simp add: after_def)

lemma after_trans: "after L L' \<Longrightarrow> after L' L'' \<Longrightarrow> after L L''"
  by (auto simp: after_def)

lemma after_upd [simp]: "after L (L'(RunQueue := L RunQueue @ w))" "q \<noteq> RunQueue \<Longrightarrow> after L (L'(q := ts)) = after L L'"
  by (simp_all add: after_def)

definition goes_on :: "(lref \<Rightarrow> addr list) \<Rightarrow> 'a fdst_scheme \<Rightarrow> bool" where
  "goes_on L s \<longleftrightarrow> (\<exists>L'. lib_ok s None L' \<and> after L L')"

lemma goes_onI: "lib_ok s None L' \<Longrightarrow> after L L' \<Longrightarrow> goes_on L s"
  by (auto simp: goes_on_def)

lemma goes_on_after: "goes_on L' s \<Longrightarrow> after L L' \<Longrightarrow> goes_on L s"
  by (auto simp: goes_on_def intro: after_trans)

definition settles :: "(lref \<Rightarrow> addr list) \<Rightarrow> addr \<Rightarrow> (unit, 'a fdst_scheme) co \<Rightarrow> bool" where
  "settles L t r \<longleftrightarrow>
     (case r of
        Done _ s' \<Rightarrow> goes_on L s'
      | Blocked s1 \<Rightarrow> runs (sched_back t s1) (goes_on L)
      | Halted h \<Rightarrow> (\<exists>v. h = Exit v))"

lemma settles_simps [simp]:
  "settles L t (Done u s) = goes_on L s" "settles L t (Halted h) = (\<exists>v. h = Exit v)"
  "settles L t (Blocked s1) = runs (sched_back t s1) (goes_on L)"
  by (simp_all add: settles_def)

lemma settles_after: "settles L' t r \<Longrightarrow> after L L' \<Longrightarrow> settles L t r"
  by (cases r) (auto simp: runs_iff intro: goes_on_after)

text \<open>A task at work: it has the processor, no place in the library, and room on its stack.\<close>

definition at_work :: "'a fdst_scheme \<Rightarrow> (lref \<Rightarrow> addr list) \<Rightarrow> addr \<Rightarrow> bool" where
  "at_work s L t \<longleftrightarrow> lib_ok s None L \<and> stack_room 0 t s"

lemma at_workD:
  assumes "at_work s L t"
  shows "lib_ok s None L" "stack_room 0 t s" "taskrunning s = Some t" "kinv s L" "off s L t"
    "\<And>l. t \<notin> set (L l)" "place s None t = None" "running s = Inr t"
proof -
  show a: "lib_ok s None L" "stack_room 0 t s" using assms by (simp_all add: at_work_def)
  then show r: "taskrunning s = Some t" by (simp add: stack_room_def)
  show "kinv s L" using lib_ok_parts [OF a(1)] by simp
  show o: "off s L t" using lib_ok_parts(1) [OF a(1)] r by (simp add: sys_inv_def)
  then show "\<And>l. t \<notin> set (L l)" by (simp add: off_def)
  show "place s None t = None" by (simp add: place_def r)
  show "running s = Inr t" by (simp add: running_def r)
qed

text \<open>The state with other lock fields is the same to the kernel.\<close>

abbreviation relocked ::
  "'a locks_scheme \<Rightarrow> (addr \<Rightarrow> addr option) \<Rightarrow> (addr \<Rightarrow> int) \<Rightarrow> (addr \<Rightarrow> addr option) \<Rightarrow> 'a locks_scheme" where
  "relocked s o' r w \<equiv> s\<lparr>qowner := o', readers := r, writer := w\<rparr>"

lemma sys_inv_relocked: "sys_inv s L \<Longrightarrow> sys_inv (relocked s o' r w) L"
  by (rule own_inv) (simp_all add: kern.truncate_def)

lemma relocked_self: "relocked s (qowner s) (readers s) (writer s) = s"
  by simp

text \<open>
  A call in which the running task keeps the processor, locks change hands, and tasks that waited
  in lists become ready.
\<close>

lemma lib_ok_wake:
  assumes ok: "lib_ok s p L" and r: "taskrunning s = Some t"
    and fr: "kframe (relocked s o' r' w') s'" and k': "kinv s' L'" and sl: "L' Sleeping = L Sleeping"
    and came: "\<And>l u. u \<in> set (L' l) \<Longrightarrow> u \<in> set (L l) \<or> l = RunQueue \<and> (\<exists>m. u \<in> set (L m))"
    and went: "\<And>l u. u \<in> set (L l) \<Longrightarrow> \<exists>m. u \<in> set (L' m)"
    and locks: "locks_ok s' L'"
    and res: "\<And>u f. u \<in> set (L' RunQueue) \<or> u = t \<Longrightarrow> place s p u = Some f \<Longrightarrow> resumable s' u f"
  shows "lib_ok s' p L'"
proof -
  let ?s = "relocked s o' r' w'"
  note parts = lib_ok_parts [OF ok]
  have same: "taskrunning s' = taskrunning s" using kframe_fields(4) [OF fr] by simp
  have dom: "dom (heap s') = dom (heap s)" using kframe_dom [OF fr] by simp
  have cx: "fld ctxt (heap s') = fld ctxt (heap s)" using ctxt_frame [OF fr] by simp
  have off: "off s' L' u \<longleftrightarrow> off s L u" for u using came went dom by (fastforce simp: off_def)
  have idle: "idle s' L' u \<longleftrightarrow> idle s L u" for u by (simp add: idle_def off same)
  have pl: "place s' p = place s p" by (rule place_cong) (simp_all add: same cx)
  have "t \<notin> set (L l)" for l using parts(1) r by (simp add: sys_inv_def off_def)
  then have t': "t \<notin> set (L' l)" for l using came by blast
  have inv: "sys_inv s' L'"
    using sys_inv_kframe [OF sys_inv_relocked [OF parts(1)] fr k' sl] parts(1) r
    by (simp add: off) (simp add: sys_inv_def)
  have places: "places_ok s' p L'"
  proof (rule places_ok_step [OF parts(6), where q = p])
    show "place s' p u = (if taskrunning s = Some u then p else place s p u)" for u
      by (simp add: pl) (simp add: place_def)
    show "u \<in> set (L l) \<or> l = RunQueue \<and> place s p u \<noteq> None" if "u \<in> set (L' l)" for l u
      using came [OF that] parts(6) unfolding places_ok_def by (metis option.distinct(1))
    show "\<exists>f. p = Some f \<and> waits_at l f" if "taskrunning s = Some v" "v \<in> set (L' l)" for v l
      using that r t' by simp
    show "resumable s' u f" if "u \<in> set (L' RunQueue) \<or> taskrunning s' = Some u" "place s' p u = Some f" for u f
      using that res [of u f] r by (auto simp: same pl)
  qed simp
  have "pollers s' = pollers s" "tables_ok s' = tables_ok s"
    using kframe_pollers [OF fr] by (simp_all add: pollers_def tables_ok_def)
  then show ?thesis
    using kframe_chanst [OF fr]
    by (intro lib_ok_frame [OF ok inv locks places]) (simp_all add: idle cx)
qed

text \<open>A call in which the running task goes to the end of a list and leaves the processor.\<close>

lemma lib_ok_wait:
  assumes ok: "at_work s L t"
    and bl: "kblock t f (relocked s o' r' w') s1" and k': "kinv s1 L'" and sl: "L' Sleeping = L Sleeping"
    and came: "\<And>l u. u \<in> set (L' l) \<Longrightarrow> u \<noteq> t \<Longrightarrow> u \<in> set (L l) \<or> l = RunQueue \<and> (\<exists>m. u \<in> set (L m))"
    and went: "\<And>l u. u \<in> set (L l) \<Longrightarrow> \<exists>m. u \<in> set (L' m)"
    and me: "\<exists>l. t \<in> set (L' l)" "\<And>l. t \<in> set (L' l) \<Longrightarrow> waits_at l f" "\<And>b. f \<noteq> FAlt b"
    and locks: "locks_ok s1 L'" and later: "after L L'"
    and res: "\<And>u g. u \<in> set (L' RunQueue) \<Longrightarrow> (if u = t then Some f else place s None u) = Some g \<Longrightarrow>
      resumable s1 u g"
  shows "settles L t (Blocked s1)"
proof -
  let ?s = "relocked s o' r' w'" and ?s' = "s1\<lparr>taskrunning := None\<rparr>"
  note w = at_workD [OF ok]
  note parts = lib_ok_parts [OF w(1)]
  have dom: "dom (heap s1) = dom (heap s)" using kblock_dom [OF bl] by simp
  have cx: "fld ctxt (heap s1) = (fld ctxt (heap s))(t \<mapsto> f)" using kblock_ctxt [OF bl] by simp
  have "fld exiting (heap s) t = Some False"
    using w(5) parts(1) by (auto simp: sys_inv_def off_def fld_def)
  then have "fld exiting (heap s1) t = Some False"
    using agree_fld [OF kblock_heap [OF bl], of exiting t] by simp
  from sched_back_stay [OF k' this] have bk: "sched_back t s1 = Inr ?s'" by simp
  have inv: "sys_inv ?s' L'"
    using sys_inv_kblock [OF sys_inv_relocked [OF parts(1)] bl k' sl bk] w(2) by simp
  have idle: "idle ?s' L' u \<longleftrightarrow> idle s L u" for u
  proof (cases "u = t")
    case True
    with me(1) w(3) show ?thesis by (auto simp: idle_def off_def)
  next
    case False
    with came [of u] went [of u] dom w(3) show ?thesis by (fastforce simp: idle_def off_def)
  qed
  have pl: "place ?s' None u = (if taskrunning s = Some u then Some f else place s None u)" for u
    by (rule place_out [OF w(3)]) (simp_all add: cx)
  have places: "places_ok ?s' None L'"
  proof (rule places_ok_step [OF parts(6) pl])
    show "u \<in> set (L l) \<or> l = RunQueue \<and> place s None u \<noteq> None"
      if "u \<in> set (L' l)" "taskrunning s \<noteq> Some u" for l u
      using came [OF that(1)] that(2) w(3) parts(6) unfolding places_ok_def by (metis option.distinct(1))
    show "\<exists>g. Some f = Some g \<and> waits_at l g" if "taskrunning s = Some v" "v \<in> set (L' l)" for v l
      using that w(3) me(2) by simp
    show "resumable ?s' u g"
      if "u \<in> set (L' RunQueue) \<or> taskrunning ?s' = Some u" "place ?s' None u = Some g" for u g
    proof -
      from that have "resumable s1 u g" using res [of u g] w(3) by (simp add: pl) (metis)
      then show ?thesis by (rule resumable_cong) simp_all
    qed
    show "None = Some f \<or> \<not> in_use s None b" if "Some f = Some (FAlt b)" for b
      using that me(3) by simp
  qed
  have "pollers ?s' = pollers s" "tables_ok ?s' = tables_ok s"
    by (rule kblock_elim [OF bl], simp add: pollers_def tables_ok_def)+
  moreover have "locks_ok ?s' L'" using locks by (simp add: locks_ok_def rw_abs_def)
  moreover have "fld ctxt (heap ?s') u = fld ctxt (heap s) u" if "idle s L u" for u
    using that w(3) by (auto simp: cx idle_def)
  ultimately have "lib_ok ?s' None L'"
    using kblock_chanst [OF bl]
    by (intro lib_ok_frame [OF w(1) inv _ places]) (simp_all add: idle)
  from goes_onI [OF this later] bk show ?thesis by simp
qed

subsection \<open>Locks\<close>

lemma relocked_parts:
  "relocked s o' (readers s) (writer s) = s\<lparr>qowner := o'\<rparr>"
  "relocked s (qowner s) r w = s\<lparr>readers := r, writer := w\<rparr>"
  by simp_all

lemma place_ready:
  assumes "lib_ok s p L" "u \<in> set (L RunQueue)" "place s p u = Some f"
  shows "resumable s u f"
  using lib_ok_parts(6) [OF assms(1)] assms(2,3) by (simp add: places_ok_def)

lemma place_waiting:
  assumes "lib_ok s p L" "u \<in> set (L l)"
  obtains f where "place s p u = Some f" "waits_at l f"
  using lib_ok_parts(6) [OF assms(1)] assms(2) that unfolding places_ok_def by blast

text \<open>Going to the end of the list \<open>q\<close> of a lock.\<close>

lemma lib_ok_enqueue:
  assumes ok: "at_work s L t" and k: "kinv s1 (L(q := L q @ [t]))" and bl: "kblock t f s s1"
    and q: "q \<noteq> RunQueue" "q \<noteq> Sleeping" "waits_at q f" "\<And>b. f \<noteq> FAlt b"
    and locks: "locks_ok s1 (L(q := L q @ [t]))"
  shows "settles L t (Blocked s1)"
proof (rule lib_ok_wait [OF ok _ k])
  note w = at_workD [OF ok]
  let ?L = "L(q := L q @ [t])"
  show "kblock t f (relocked s (qowner s) (readers s) (writer s)) s1" using bl by simp
  show "resumable s1 u g"
    if "u \<in> set (?L RunQueue)" "(if u = t then Some f else place s None u) = Some g" for u g
  proof -
    from that q w(6) [of RunQueue] have "u \<in> set (L RunQueue)" "place s None u = Some g"
      by (auto split: if_splits)
    with w(1) have "resumable s u g" by (rule place_ready)
    then show ?thesis
      by (rule resumable_cong) (simp_all add: kblock_locks [OF bl] kblock_chanst [OF bl])
  qed
  show "\<exists>m. u \<in> set (?L m)" if "u \<in> set (L j)" for j u
    using that by (intro exI [of _ j]) auto
  show "\<exists>j. t \<in> set (?L j)" by (intro exI [of _ q]) simp
qed (use at_workD(6) [OF ok] q locks in \<open>auto split: if_splits\<close>)

lemma qlock_settles:
  assumes ok: "at_work s L t"
  shows "settles L t (no_result (do_qlock l k s))"
proof -
  note w = at_workD [OF ok]
  note parts = lib_ok_parts [OF w(1)]
  consider "qowner s l = None" | "qowner s l \<noteq> None" "\<not> k" | "qowner s l \<noteq> None" "k" by blast
  then show ?thesis
  proof cases
    case 1
    let ?s' = "s\<lparr>qowner := (qowner s)(l \<mapsto> t)\<rparr>"
    have "lib_ok ?s' None L"
    proof (rule lib_ok_wake [OF w(1,3), where o' = "(qowner s)(l \<mapsto> t)" and r' = "readers s" and w' = "writer s"])
      show "kframe (relocked s ((qowner s)(l \<mapsto> t)) (readers s) (writer s)) ?s'"
        by (simp only: relocked_parts kframe_refl)
      show "locks_ok ?s' L" using parts(3) by (simp add: locks_ok_def rw_abs_def)
      fix u f assume u: "u \<in> set (L RunQueue) \<or> u = t" and pl: "place s None u = Some f"
      with w(7) have "u \<in> set (L RunQueue)" by auto
      then have res: "resumable s u f" using pl by (rule place_ready [OF w(1)])
      from res show "resumable ?s' u f" by (rule resumable_cong) (use res 1 in auto)
    qed (use w(4) in auto)
    from goes_onI [OF this after_refl] 1 w(3) show ?thesis by (simp add: do_qlock_def)
  next
    case 2
    with goes_onI [OF w(1) after_refl] show ?thesis by (simp add: qlock_busy)
  next
    case 3
    from qlock_wait [OF w(4,5,2) 3(1)] obtain s1 where s1: "do_qlock l True s = Blocked s1"
      "kinv s1 (L(QWait l := L (QWait l) @ [t]))" "kblock t (FQlock l) s s1" by blast
    moreover have "locks_ok s1 (L(QWait l := L (QWait l) @ [t]))"
      using parts(3) 3 kblock_locks [OF s1(3)] by (auto simp: locks_ok_def rw_abs_def)
    ultimately show ?thesis using 3 lib_ok_enqueue [OF ok, of s1 "QWait l" "FQlock l"] by simp
  qed
qed

text \<open>What an unlock does to the lists.\<close>

lemma unlocked_lists:
  assumes "unlocked (Some l) L own = (own', L')"
  shows "own' = own(l := first (L (QWait l)))"
    "\<And>m. m \<noteq> RunQueue \<Longrightarrow> m \<noteq> QWait l \<Longrightarrow> L' m = L m"
    "L' (QWait l) = tl (L (QWait l))"
    "\<And>u. u \<in> set (L' RunQueue) \<longleftrightarrow> u \<in> set (L RunQueue) \<or> first (L (QWait l)) = Some u"
  using assms by (auto simp: unlocked_def split: list.splits)

lemma first_in: "first xs = Some u \<Longrightarrow> u \<in> set xs"
  by (cases xs) auto

lemma set_first_tl: "u \<in> set xs \<longleftrightarrow> first xs = Some u \<or> u \<in> set (tl xs)"
  by (cases xs) auto

lemma unlocked_moves:
  assumes "unlocked (Some l) L own = (own', L')"
  shows "u \<in> set (L' m) \<Longrightarrow> u \<in> set (L m) \<or> m = RunQueue \<and> (\<exists>j. u \<in> set (L j))"
    "u \<in> set (L m) \<Longrightarrow> \<exists>j. u \<in> set (L' j)"
proof -
  note f = unlocked_lists [OF assms]
  show "u \<in> set (L' m) \<Longrightarrow> u \<in> set (L m) \<or> m = RunQueue \<and> (\<exists>j. u \<in> set (L j))"
    using f(2) [of m] f(3) f(4) [of u] set_first_tl [of u "L (QWait l)"]
    by (cases "m = RunQueue"; cases "m = QWait l") auto
  assume "u \<in> set (L m)"
  then have "u \<in> set (L' m) \<or> u \<in> set (L' RunQueue) \<or> u \<in> set (L' (QWait l))"
    using f(2) [of m] f(3) f(4) [of u] set_first_tl [of u "L (QWait l)"]
    by (cases "m = RunQueue"; cases "m = QWait l") auto
  then show "\<exists>j. u \<in> set (L' j)" by blast
qed

lemma unlocked_locks:
  assumes "locks_ok s L" "unlocked (Some l) L (qowner s) = (own', L')"
    and "qowner s' = own'" "readers s' = readers s" "writer s' = writer s"
  shows "locks_ok s' L'"
proof -
  note f = unlocked_lists [OF assms(2)]
  have "rw_abs s' L' m = rw_abs s L m" for m by (simp add: rw_abs_def assms(4,5) f(2))
  moreover have "L' (QWait m) = []" if "own' m = None" for m
  proof (cases "m = l")
    case True
    with that f(3) show ?thesis by (cases "L (QWait l)") (auto simp: f(1))
  next
    case False
    with that assms(1) f(2) [of "QWait m"] show ?thesis by (simp add: f(1) locks_ok_def)
  qed
  ultimately show ?thesis using assms(1,3) by (simp add: locks_ok_def)
qed

text \<open>
  A task that was ready finds its locks as before, since only the running task releases locks; the
  task that is handed the lock finds that it owns it.
\<close>

lemma unlocked_resumable:
  assumes ok: "lib_ok s None L" and own: "qowner s l = Some t" "\<And>m. t \<notin> set (L m)"
    and un: "unlocked (Some l) L (qowner s) = (own', L')"
    and same: "qowner s' = own'" "writer s' = writer s" "alts s' = alts s"
    and u: "u \<in> set (L' RunQueue)" "place s None u = Some f"
  shows "resumable s' u f"
proof -
  note g = unlocked_lists [OF un]
  from u(1) g(4) consider "u \<in> set (L RunQueue)" | "first (L (QWait l)) = Some u" by blast
  then show ?thesis
  proof cases
    case 1
    have res: "resumable s u f" using ok 1 u(2) by (rule place_ready)
    moreover have "t \<noteq> u" using own(2) 1 by blast
    then have "qowner s' m = qowner s m" if "f = FQlock m" for m
      using res that own(1) same(1) g(1) by auto
    ultimately show ?thesis by (intro resumable_cong [OF res]) (simp_all add: same)
  next
    case 2
    from place_waiting [OF ok first_in [OF 2]] u(2) have "f = FQlock l" by fastforce
    with 2 same(1) g(1) show ?thesis by simp
  qed
qed

lemma qunlock_settles:
  assumes ok: "at_work s L t" and own: "qowner s l = Some t"
  shows "settles L t (at_once (qunlock l s))"
proof -
  note w = at_workD [OF ok]
  note parts = lib_ok_parts [OF w(1)]
  obtain own' L' where un: "unlocked (Some l) L (qowner s) = (own', L')"
    by (cases "unlocked (Some l) L (qowner s)")
  from qunlock_runs [OF w(4), of l] own un obtain s' where
    s': "qunlock l s = Inr s'" "kinv s' L'" "kframe (s\<lparr>qowner := own'\<rparr>) s'" by (auto simp: runs_iff)
  note fr = kframe_locks [OF s'(3)] kframe_chanst [OF s'(3)]
  have "lib_ok s' None L'"
  proof (rule lib_ok_wake [OF w(1,3) _ s'(2)])
    show "kframe (relocked s own' (readers s) (writer s)) s'" using s'(3) by (simp only: relocked_parts)
    show "L' Sleeping = L Sleeping" by (rule unlocked_lists(2) [OF un]) simp_all
    show "locks_ok s' L'" by (rule unlocked_locks [OF parts(3) un]) (simp_all add: fr)
    show "resumable s' u f" if "u \<in> set (L' RunQueue) \<or> u = t" "place s None u = Some f" for u f
    proof -
      from that w(7) have u: "u \<in> set (L' RunQueue)" by auto
      show ?thesis by (rule unlocked_resumable [OF w(1) own w(6) un _ _ _ u that(2)]) (simp_all add: fr)
    qed
  qed (use unlocked_moves [OF un] in blast)+
  from goes_onI [OF this] un s'(1) show ?thesis by (auto simp: unlocked_def after_def split: list.splits)
qed

text \<open>Reader-writer locks: a result as the specification describes it.\<close>

definition fair_handoff :: "addr \<Rightarrow> rw \<Rightarrow> rw \<Rightarrow> addr list \<Rightarrow> bool" where
  "fair_handoff t a a' ws \<longleftrightarrow> rw_ok a' \<and>
     set (rq a) \<union> set (wq a) = set (rq a') \<union> set (wq a') \<union> set ws \<and>
     set (rq a') \<subseteq> set (rq a) \<and> set (wq a') \<subseteq> set (wq a) \<and>
     (wr a' = wr a \<or> wr a = None \<or> wr a = Some t) \<and>
     (\<forall>u \<in> set ws. u \<in> set (rq a) \<or> u \<in> set (wq a) \<and> wr a' = Some u)"

lemma handoff_lock:
  assumes "rw_ok a"
  shows "wr a = None \<and> wq a = [] \<Longrightarrow> fair_handoff t a (rw_rlock t a) []"
    "wr a = None \<and> rd a = 0 \<Longrightarrow> fair_handoff t a (rw_wlock t a) []"
  using assms by (auto simp: fair_handoff_def rw_ok_def rw_rlock_def rw_wlock_def)

lemma handoff_unlock:
  assumes "rw_ok a"
  shows "0 < rd a \<Longrightarrow> fair_handoff t a (rw_runlock a) (rw_woken a (rw_runlock a))"
    "wr a = Some t \<Longrightarrow> fair_handoff t a (rw_wunlock a) (rw_woken a (rw_wunlock a))"
proof -
  show "fair_handoff t a (rw_runlock a) (rw_woken a (rw_runlock a))" if "0 < rd a"
  proof -
    have "rw_ok (rw_runlock a)" using rw_ok_step [OF rw_step.runlock [OF that] assms] .
    with that assms show ?thesis
      by (cases "wq a") (auto simp: fair_handoff_def rw_runlock_def rw_woken_def rw_next_writer_def Let_def rw_ok_def)
  qed
  show "fair_handoff t a (rw_wunlock a) (rw_woken a (rw_wunlock a))" if "wr a = Some t"
  proof -
    have "rw_ok (rw_wunlock a)" using rw_ok_step [OF rw_step.wunlock assms] that by simp
    with that assms show ?thesis
      by (cases "wq a") (auto simp: fair_handoff_def rw_wunlock_def rw_woken_def rw_next_writer_def Let_def rw_ok_def)
  qed
qed

lemma rw_result_ok:
  assumes ok: "at_work s L t" and r: "rw_result l a' ws s L s'"
    and fair: "fair_handoff t (rw_abs s L l) a' ws"
  shows "goes_on L s'"
proof -
  note w = at_workD [OF ok]
  note parts = lib_ok_parts [OF w(1)]
  let ?L = "L(RWait l := rq a', WWait l := wq a', RunQueue := L RunQueue @ ws)"
  let ?r = "(readers s)(l := rd a')" and ?w = "(writer s)(l := wr a')"
  from r have k: "kinv s' ?L" and fr: "kframe (relocked s (qowner s) ?r ?w) s'"
    by (simp_all add: rw_result_def)
  note same = kframe_locks [OF fr] kframe_chanst [OF fr]
  from fair have sets: "set (L (RWait l)) \<union> set (L (WWait l)) = set (rq a') \<union> set (wq a') \<union> set ws"
    "set (rq a') \<subseteq> set (L (RWait l))" "set (wq a') \<subseteq> set (L (WWait l))"
    and ok': "rw_ok a'" and wr: "wr a' = writer s l \<or> writer s l = None \<or> writer s l = Some t"
    and ws: "\<forall>u \<in> set ws. u \<in> set (L (RWait l)) \<or> u \<in> set (L (WWait l)) \<and> wr a' = Some u"
    by (simp_all add: fair_handoff_def)
  have "lib_ok s' None ?L"
  proof (rule lib_ok_wake [OF w(1,3) fr k])
    show "?L Sleeping = L Sleeping" by simp
    show "u \<in> set (L m) \<or> m = RunQueue \<and> (\<exists>j. u \<in> set (L j))" if "u \<in> set (?L m)" for m u
      using that sets ws by (auto split: if_splits)
    show "\<exists>j. u \<in> set (?L j)" if u: "u \<in> set (L m)" for m u
    proof -
      have "u \<in> set (?L m) \<or> u \<in> set (?L (RWait l)) \<or> u \<in> set (?L (WWait l)) \<or> u \<in> set (?L RunQueue)"
        using u sets(1) by auto
      then show ?thesis by blast
    qed
    have "rw_ok (rw_abs s' ?L m)" for m
      using parts(3) rw_result_abs [OF r, of m] ok' by (simp add: locks_ok_def)
    then show "locks_ok s' ?L" using parts(3) by (simp add: locks_ok_def same)
    show "resumable s' u f" if u: "u \<in> set (?L RunQueue) \<or> u = t" "place s None u = Some f" for u f
    proof -
      from u w(7) consider "u \<in> set (L RunQueue)" | "u \<in> set ws" by auto
      then show ?thesis
      proof cases
        case 1
        have res: "resumable s u f" using w(1) 1 u(2) by (rule place_ready)
        have "u \<noteq> t" using 1 w(6) by blast
        then have "writer s' m = writer s m" if "f = FWlock m" for m
          using res that wr by (auto simp: same)
        then show ?thesis by (intro resumable_cong [OF res]) (simp_all add: same)
      next
        case 2
        with ws consider "u \<in> set (L (RWait l))" | "u \<in> set (L (WWait l))" "wr a' = Some u" by blast
        then show ?thesis
        proof cases
          case 1
          from place_waiting [OF w(1) this] u(2) have "f = FRlock l" by fastforce
          then show ?thesis by simp
        next
          case 2
          from place_waiting [OF w(1) this(1)] u(2) have "f = FWlock l" by fastforce
          with 2 show ?thesis by (simp add: same)
        qed
      qed
    qed
  qed
  then show ?thesis by (rule goes_onI) simp
qed

lemma rlock_settles:
  assumes ok: "at_work s L t"
  shows "settles L t (no_result (do_rlock l k s))"
proof -
  note w = at_workD [OF ok]
  note parts = lib_ok_parts [OF w(1)]
  let ?a = "rw_abs s L l"
  have a: "rw_ok ?a" using parts(3) by (simp add: locks_ok_def)
  note spec = rw_rlock_runs [OF w(4,3) refl, of l]
  show ?thesis
  proof (cases "wr ?a = None \<and> wq ?a = []")
    case True
    from spec(1) [OF True, of k] obtain s' where "do_rlock l k s = Done 1 s'"
      "rw_result l (rw_rlock t ?a) [] s L s'" by blast
    with rw_result_ok [OF ok _ handoff_lock(1) [OF a True]] show ?thesis by simp
  next
    case False
    then have f: "wr ?a \<noteq> None \<or> wq ?a \<noteq> []" by (simp only: de_Morgan_conj)
    show ?thesis
    proof (cases k)
      case True
      have q: "rq (rw_rlock t ?a) = L (RWait l) @ [t]" using f by (auto simp: rw_rlock_def)
      from spec(3) [OF f w(5,2)] True obtain s1 where s1: "do_rlock l k s = Blocked s1"
        "kinv s1 (L(RWait l := L (RWait l) @ [t]))" "kblock t (FRlock l) s s1" unfolding q by auto
      have "rw_abs s1 (L(RWait l := L (RWait l) @ [t])) m = (if m = l then rw_rlock t ?a else rw_abs s L m)" for m
        using f q by (auto simp: rw_abs_def rw_rlock_def kblock_locks [OF s1(3)])
      then have "locks_ok s1 (L(RWait l := L (RWait l) @ [t]))"
        using parts(3) rw_ok_step [OF rw_step.rlock a, of t] by (simp add: locks_ok_def kblock_locks [OF s1(3)])
      with lib_ok_enqueue [OF ok s1(2,3)] s1(1) show ?thesis by simp
    next
      case False
      with spec(2) [OF f] goes_onI [OF w(1) after_refl] show ?thesis by simp
    qed
  qed
qed

lemma wlock_settles:
  assumes ok: "at_work s L t"
  shows "settles L t (no_result (do_wlock l k s))"
proof -
  note w = at_workD [OF ok]
  note parts = lib_ok_parts [OF w(1)]
  let ?a = "rw_abs s L l"
  have a: "rw_ok ?a" using parts(3) by (simp add: locks_ok_def)
  note spec = rw_wlock_runs [OF w(4,3) refl, of l]
  show ?thesis
  proof (cases "wr ?a = None \<and> rd ?a = 0")
    case True
    from spec(1) [OF True, of k] obtain s' where "do_wlock l k s = Done 1 s'"
      "rw_result l (rw_wlock t ?a) [] s L s'" by blast
    with rw_result_ok [OF ok _ handoff_lock(2) [OF a True]] show ?thesis by simp
  next
    case False
    then have f: "wr ?a \<noteq> None \<or> rd ?a \<noteq> 0" by (simp only: de_Morgan_conj)
    show ?thesis
    proof (cases k)
      case True
      have q: "wq (rw_wlock t ?a) = L (WWait l) @ [t]" using f by (auto simp: rw_wlock_def)
      from spec(3) [OF f w(5,2)] True obtain s1 where s1: "do_wlock l k s = Blocked s1"
        "kinv s1 (L(WWait l := L (WWait l) @ [t]))" "kblock t (FWlock l) s s1" unfolding q by auto
      have "rw_abs s1 (L(WWait l := L (WWait l) @ [t])) m = (if m = l then rw_wlock t ?a else rw_abs s L m)" for m
        using f q by (auto simp: rw_abs_def rw_wlock_def kblock_locks [OF s1(3)])
      then have "locks_ok s1 (L(WWait l := L (WWait l) @ [t]))"
        using parts(3) rw_ok_step [OF rw_step.wlock a, of t] by (simp add: locks_ok_def kblock_locks [OF s1(3)])
      with lib_ok_enqueue [OF ok s1(2,3)] s1(1) show ?thesis by simp
    next
      case False
      with spec(2) [OF f] goes_onI [OF w(1) after_refl] show ?thesis by simp
    qed
  qed
qed

lemma rw_unlock_settles:
  assumes ok: "at_work s L t"
  shows "0 < readers s l \<Longrightarrow> settles L t (at_once (runlock l s))"
    "writer s l = Some t \<Longrightarrow> settles L t (at_once (wunlock l s))"
proof -
  note w = at_workD [OF ok]
  let ?a = "rw_abs s L l"
  have a: "rw_ok ?a" using lib_ok_parts(3) [OF w(1)] by (simp add: locks_ok_def)
  show "settles L t (at_once (runlock l s))" if "0 < readers s l"
    using rw_runlock_runs [OF w(4) refl, of l] rw_result_ok [OF ok _ handoff_unlock(1) [OF a]] that
    by (auto simp: runs_iff)
  show "settles L t (at_once (wunlock l s))" if "writer s l = Some t"
    using rw_wunlock_runs [OF w(4) refl, of l] rw_result_ok [OF ok _ handoff_unlock(2) [OF a]] that a
    by (auto simp: runs_iff rw_ok_def)
qed

subsection \<open>Rendezvous points\<close>

lemma tasksleep_settles:
  assumes ok: "at_work s L t" and own: "\<forall>l. rzl s r = Some l \<longrightarrow> qowner s l = Some t"
  shows "settles L t (no_result (tasksleep r s))"
proof -
  note w = at_workD [OF ok]
  note parts = lib_ok_parts [OF w(1)]
  let ?L = "L(RzWait r := L (RzWait r) @ [t])"
  obtain own' L' where un: "unlocked (rzl s r) ?L (qowner s) = (own', L')"
    by (cases "unlocked (rzl s r) ?L (qowner s)")
  have "\<exists>s'. tasksleep r s = Blocked s' \<and> (case unlocked (rzl s r) ?L (qowner s) of (o', L') \<Rightarrow>
      kinv s' L' \<and> kblock t (FSleep r) (s\<lparr>qowner := o'\<rparr>) s')"
    by (rule tasksleep_runs [OF w(4,5,2)]) (use own in simp)
  with un obtain s1 where s1: "tasksleep r s = Blocked s1" "kinv s1 L'"
    "kblock t (FSleep r) (s\<lparr>qowner := own'\<rparr>) s1" by auto
  note same = kblock_locks [OF s1(3)] kblock_chanst [OF s1(3)]
  have t: "t \<notin> set (L l)" for l by (rule w(6))
  have locks: "locks_ok s ?L" using parts(3) by (simp add: locks_ok_def rw_abs_def)
  consider (free) "rzl s r = None" "own' = qowner s" "L' = ?L"
    | (lock) m where "rzl s r = Some m" "unlocked (Some m) ?L (qowner s) = (own', L')"
    using un by (cases "rzl s r") (auto simp: unlocked_def)
  note split = this
  have came: "u \<in> set (?L l) \<or> l = RunQueue \<and> (\<exists>j. j \<noteq> RzWait r \<and> u \<in> set (?L j))"
    if "u \<in> set (L' l)" for l u
    using split
  proof cases
    case (lock m)
    then show ?thesis
      using that unlocked_lists(2) [OF lock(2), of l] unlocked_lists(3,4) [OF lock(2)]
        first_in [of "?L (QWait m)" u] set_first_tl [of u "?L (QWait m)"]
      by (cases "l = RunQueue"; cases "l = QWait m") (auto intro!: exI [of _ "QWait m"])
  qed (use that in simp)
  have went: "\<exists>j. u \<in> set (L' j)" if "u \<in> set (?L l)" for l u
    using split
  proof cases
    case free
    with that show ?thesis by (intro exI [of _ l]) simp
  next
    case (lock m)
    from unlocked_moves(2) [OF lock(2) that] show ?thesis .
  qed
  have stay: "L' l = ?L l" if "l = Sleeping \<or> l = RzWait r" for l
    using split
  proof cases
    case (lock m)
    show ?thesis by (rule unlocked_lists(2) [OF lock(2)]) (use that in auto)
  qed simp
  have locks': "locks_ok s1 L'"
    using split
  proof cases
    case free
    with locks show ?thesis by (simp add: locks_ok_def same rw_abs_def)
  next
    case (lock m)
    show ?thesis by (rule unlocked_locks [OF locks lock(2)]) (simp_all add: same)
  qed
  have "settles L t (Blocked s1)"
  proof (rule lib_ok_wait [OF ok _ s1(2)])
    show "kblock t (FSleep r) (relocked s own' (readers s) (writer s)) s1"
      using s1(3) by (simp only: relocked_parts)
    show "L' Sleeping = L Sleeping" using stay [of Sleeping] by simp
    show "u \<in> set (L l) \<or> l = RunQueue \<and> (\<exists>j. u \<in> set (L j))" if "u \<in> set (L' l)" "u \<noteq> t" for l u
      using came [OF that(1)] that(2) by (auto split: if_splits)
    show "\<exists>j. u \<in> set (L' j)" if "u \<in> set (L l)" for l u
      by (rule went [of u l]) (use that in auto)
    show "\<exists>l. t \<in> set (L' l)" by (rule went [of t "RzWait r"]) simp
    show "waits_at l (FSleep r)" if "t \<in> set (L' l)" for l
      using came [OF that] t by (auto split: if_splits)
    show "locks_ok s1 L'" by (rule locks')
    show "after L L'" using un by (auto simp: unlocked_def after_def split: option.splits list.splits)
    show "resumable s1 u g"
      if u: "u \<in> set (L' RunQueue)" "(if u = t then Some (FSleep r) else place s None u) = Some g" for u g
    proof (cases "rzl s r")
      case None
      with un have L': "L' = ?L" by (simp add: unlocked_def)
      with u t have "u \<in> set (L RunQueue)" "place s None u = Some g" by (auto split: if_splits)
      with w(1) have "resumable s u g" by (rule place_ready)
      moreover have "own' = qowner s" using un None by (simp add: unlocked_def)
      ultimately show ?thesis by (elim resumable_cong) (simp_all add: same)
    next
      case (Some l)
      let ?L0 = "snd (unlocked (Some l) L (qowner s))"
      have eq: "unlocked (Some l) L (qowner s) = (own', ?L0)"
        using un Some by (auto simp: unlocked_def split: list.splits)
      have "L' RunQueue = ?L0 RunQueue"
        using un Some by (auto simp: unlocked_def split: list.splits)
      moreover have "t \<notin> set (?L0 RunQueue)"
        using unlocked_lists(4) [OF eq] t first_in by metis
      ultimately have "u \<in> set (?L0 RunQueue)" "place s None u = Some g" using u by (auto split: if_splits)
      moreover have "qowner s l = Some t" using own Some by simp
      ultimately show ?thesis
        by (intro unlocked_resumable [OF w(1) _ t eq]) (simp_all add: same)
    qed
  qed simp
  with s1(1) show ?thesis by simp
qed

lemma taskwakeup_settles:
  assumes ok: "at_work s L t"
  shows "settles L t (at_once (bindR (if all then taskwakeupall r s else taskwakeup r s) (\<lambda>(_, s). Inr s)))"
proof -
  note w = at_workD [OF ok]
  note parts = lib_ok_parts [OF w(1)]
  have "\<exists>n s' ts us. (if all then taskwakeupall r s else taskwakeup r s) = Inr (n, s') \<and> L (RzWait r) = ts @ us \<and>
      kinv s' (L(RzWait r := us, RunQueue := L RunQueue @ ts)) \<and> kframe s s'"
  proof (cases "all \<or> L (RzWait r) = []")
    case True
    from taskwakeup_all_loop [OF w(4) refl, of r 0] have all: "\<exists>n s'. taskwakeupall r s = Inr (n, s') \<and>
        kinv s' (L(RzWait r := [], RunQueue := L RunQueue @ L (RzWait r))) \<and> kframe s s'"
      by (auto simp: taskwakeupall_def do_taskwakeup_def runs_iff)
    show ?thesis
    proof (cases all)
      case True
      with all show ?thesis by (simp only: if_True) (metis append_Nil2)
    next
      case False
      with True have e: "L (RzWait r) = []" by simp
      then have "L(RzWait r := [], RunQueue := L RunQueue @ []) = L" by auto
      with w(4) have "kinv s (L(RzWait r := [], RunQueue := L RunQueue @ []))" by (simp only:)
      with False e taskwakeup_one(1) [OF w(4) e] show ?thesis
        by (simp only: if_False) (metis append_Nil kframe_refl)
    qed
  next
    case False
    then obtain v vs where v: "L (RzWait r) = v # vs" by (cases "L (RzWait r)") auto
    with taskwakeup_one(2) [OF w(4) v] False show ?thesis
      by (auto simp: runs_iff) (metis append_Cons append_Nil)
  qed
  then obtain n s' ts us where run: "(if all then taskwakeupall r s else taskwakeup r s) = Inr (n, s')"
    and split: "L (RzWait r) = ts @ us" and k: "kinv s' (L(RzWait r := us, RunQueue := L RunQueue @ ts))"
    and fr: "kframe s s'" by blast
  note same = kframe_locks [OF fr] kframe_chanst [OF fr]
  let ?L = "L(RzWait r := us, RunQueue := L RunQueue @ ts)"
  have "lib_ok s' None ?L"
  proof (rule lib_ok_wake [OF w(1,3) _ k])
    show "kframe (relocked s (qowner s) (readers s) (writer s)) s'" using fr by simp
    show "u \<in> set (L l) \<or> l = RunQueue \<and> (\<exists>m. u \<in> set (L m))" if "u \<in> set (?L l)" for l u
      using that split by (auto split: if_splits intro!: exI [of _ "RzWait r"])
    show "\<exists>m. u \<in> set (?L m)" if "u \<in> set (L l)" for l u
    proof -
      have "u \<in> set (?L l) \<or> u \<in> set (?L RunQueue)" using that split by auto
      then show ?thesis by blast
    qed
    show "locks_ok s' ?L" using parts(3) by (simp add: locks_ok_def rw_abs_def same)
    show "resumable s' u f" if "u \<in> set (?L RunQueue) \<or> u = t" "place s None u = Some f" for u f
    proof -
      from that w(7) consider "u \<in> set (L RunQueue)" | "u \<in> set (L (RzWait r))" using split by auto
      then show ?thesis
      proof cases
        case 1
        with w(1) have "resumable s u f" using that(2) by (rule place_ready)
        then show ?thesis by (rule resumable_cong) (simp_all add: same)
      next
        case 2
        from place_waiting [OF w(1) this] that(2) have "f = FSleep r" by fastforce
        then show ?thesis by simp
      qed
    qed
  qed simp
  from goes_onI [OF this] run show ?thesis by simp
qed

end
