(* ===== verification/LibTasks.thy ===== *)
theory LibTasks
  imports LibCalls
begin

text \<open>
  The calls of \<open>task.c\<close> and \<open>fd.c\<close> keep the invariant of the library.
\<close>

subsection \<open>Changes of the running task\<close>

lemma lib_ok_same_lists:
  assumes ok: "lib_ok s p L" and r: "taskrunning s = Some t" and fr: "kframe s s'" and k: "kinv s' L"
  shows "lib_ok s' p L"
proof (rule lib_ok_wake [OF ok r _ k])
  note same = kframe_locks [OF fr] kframe_chanst [OF fr]
  show "kframe (relocked s (qowner s) (readers s) (writer s)) s'" using fr by simp
  show "locks_ok s' L" using lib_ok_parts(3) [OF ok] by (simp add: locks_ok_def rw_abs_def same)
  show "resumable s' u f" if "u \<in> set (L RunQueue) \<or> u = t" "place s p u = Some f" for u f
  proof -
    have "resumable s u f" using that r lib_ok_parts(6) [OF ok] unfolding places_ok_def by blast
    then show ?thesis by (rule resumable_cong) (simp_all add: same)
  qed
qed auto

text \<open>A change to the running task's own structure, other than its saved place, and to the count.\<close>

lemma lib_ok_mine:
  assumes ok: "at_work s L t" and tk: "heap s t = Some tk" "ctxt tk' = ctxt tk"
    and s': "s' = s\<lparr>heap := (heap s)(t \<mapsto> tk'), taskcount := c\<rparr>" and inv: "sys_inv s' L"
  shows "lib_ok s' None L"
proof -
  note w = at_workD [OF ok]
  note parts = lib_ok_parts [OF w(1)]
  have cx: "fld ctxt (heap s') = fld ctxt (heap s)" using tk by (auto simp: s' fld_def)
  have pl: "place s' None = place s None" by (rule place_cong) (simp add: s', rule cx)
  have dom: "dom (heap s') = dom (heap s)" using tk by (auto simp: s')
  then have idle: "idle s' L u \<longleftrightarrow> idle s L u" for u by (simp add: idle_def off_def s')
  have "places_ok s' None L"
  proof (rule places_ok_step [OF parts(6), where q = None])
    show "place s' None u = (if taskrunning s = Some u then None else place s None u)" for u
      by (simp add: pl) (simp add: place_def)
    show "\<exists>f. None = Some f \<and> waits_at l f" if "taskrunning s = Some v" "v \<in> set (L l)" for v l
      using that w(3,6) by simp
    show "resumable s' u f" if "u \<in> set (L RunQueue) \<or> taskrunning s' = Some u" "place s' None u = Some f" for u f
    proof -
      have "taskrunning s' = taskrunning s" by (simp add: s')
      then have "resumable s u f" using that parts(6) unfolding places_ok_def pl by metis
      then show ?thesis by (rule resumable_cong) (simp_all add: s')
    qed
  qed simp_all
  moreover have "locks_ok s' L" using parts(3) by (simp add: locks_ok_def rw_abs_def s')
  ultimately show ?thesis
    by (intro lib_ok_frame [OF w(1) inv]) (simp_all add: idle cx, simp_all add: s' pollers_def tables_ok_def)
qed

lemma tasksystem_ok:
  assumes ok: "at_work s L t"
  shows "\<exists>s'. tasksystem s = Inr s' \<and> at_work s' L t"
proof -
  note w = at_workD [OF ok]
  from w(5) obtain tk where tk: "heap s t = Some tk" by (auto simp: off_def)
  note inv = system_inv [OF lib_ok_parts(1) [OF w(1)] w(3)]
  show ?thesis
  proof (cases "system tk")
    case True
    with ok w(8) tk show ?thesis by (simp add: tasksystem_def kget_def tget_def)
  next
    case False
    let ?s' = "s\<lparr>heap := (heap s)(t \<mapsto> tk\<lparr>system := True\<rparr>), taskcount := taskcount s - 1\<rparr>"
    have run: "tasksystem s = Inr ?s'"
      using False w(8) tk by (simp add: tasksystem_def kget_def tget_def kset_def tset_def)
    have "lib_ok ?s' None L" by (rule lib_ok_mine [OF ok tk _ refl inv [OF run]]) simp
    moreover have "stack_room 0 t ?s'" using w(2) tk by (auto simp: stack_room_def fld_def)
    ultimately show ?thesis using run by (simp add: at_work_def)
  qed
qed

lemma taskname_ok:
  assumes ok: "at_work s L t" and m: "plain m"
  shows "\<exists>s'. taskname m [] s = Inr s' \<and> at_work s' L t"
proof -
  note w = at_workD [OF ok]
  note inv = lib_ok_parts(1) [OF w(1)]
  from w(5) obtain tk where tk: "heap s t = Some tk" by (auto simp: off_def)
  let ?tk = "tk\<lparr>tname := take 255 m\<rparr>"
  let ?s' = "s\<lparr>heap := (heap s)(t \<mapsto> ?tk)\<rparr>"
  have run: "taskname m [] s = Inr ?s'"
    using m w(8) tk by (simp add: taskname_def vsnprint_plain kset_def tset_def)
  have f: "fld system (heap ?s') = fld system (heap s)" "fld exiting (heap ?s') = fld exiting (heap s)"
    "fld alarmtime (heap ?s') = fld alarmtime (heap s)" "dom (heap ?s') = dom (heap s)"
    using tk by (auto simp: fld_def)
  have "kinv ?s' L" by (rule kinv_data [OF w(4) tk]) simp_all
  moreover have "counts_ok ?s' L"
    by (rule counts_same [where s = s and L = L]) (use inv f in \<open>simp_all add: sys_inv_def\<close>)
  moreover have "sleep_sorted ?s' L"
    by (rule sorted_same [where s = s and L = L]) (use inv f in \<open>simp_all add: sys_inv_def\<close>)
  moreover have "off ?s' L u \<longleftrightarrow> off s L u" for u unfolding off_def f(4) ..
  ultimately have "sys_inv ?s' L" using inv f(2) by (simp add: sys_inv_def)
  then have "lib_ok ?s' None L" by (intro lib_ok_mine [OF ok tk, of ?tk ?s' "taskcount s"]) simp_all
  moreover have "stack_room 0 t ?s'" using w(2) tk by (auto simp: stack_room_def fld_def)
  ultimately show ?thesis using run by (simp add: at_work_def)
qed

lemma taskstate_ok:
  assumes ok: "at_work s L t" and m: "plain m"
  shows "\<exists>s'. taskstate m [] s = Inr s' \<and> at_work s' L t \<and> kframe s s'"
proof -
  note w = at_workD [OF ok]
  from taskstate_kinv [OF w(4,2) m, of "[]"] obtain s' where
    "taskstate m [] s = Inr s'" "kinv s' L" and fr: "kframe s s'" by (auto simp: runs_iff)
  with lib_ok_same_lists [OF w(1,3) fr] stack_room_frame [OF fr] w(2) show ?thesis by (auto simp: at_work_def)
qed

lemma at_work_goes_on: "at_work s L' t \<Longrightarrow> after L L' \<Longrightarrow> goes_on L s"
  by (auto simp: at_work_def intro: goes_onI)

lemma names_settle:
  assumes ok: "at_work s L t"
  shows "settles L t (at_once (tasksystem s))" "plain m \<Longrightarrow> settles L t (at_once (taskname m [] s))"
    "plain m \<Longrightarrow> settles L t (at_once (taskstate m [] s))"
  using tasksystem_ok [OF ok] taskname_ok [OF ok, of m] taskstate_ok [OF ok, of m]
  by (auto dest: at_work_goes_on [OF _ after_refl])

subsection \<open>Giving up the processor\<close>

lemma taskyield_settles:
  assumes ok: "at_work s L t"
  shows "settles L t (no_result (taskyield s))"
proof -
  note w = at_workD [OF ok]
  note parts = lib_ok_parts [OF w(1)]
  let ?L = "L(RunQueue := L RunQueue @ [t])"
  from taskyield_runs [OF w(4,5,2)] obtain s1 where s1: "taskyield s = Blocked s1" "kinv s1 ?L"
    "kblock t (FYield (tasknswitch s)) s s1" by auto
  note same = kblock_locks [OF s1(3)] kblock_chanst [OF s1(3)]
  have "settles L t (Blocked s1)"
  proof (rule lib_ok_wait [OF ok _ s1(2)])
    show "kblock t (FYield (tasknswitch s)) (relocked s (qowner s) (readers s) (writer s)) s1"
      using s1(3) by simp
    show "\<exists>m. u \<in> set (?L m)" if "u \<in> set (L l)" for l u using that by (intro exI [of _ l]) auto
    show "\<exists>l. t \<in> set (?L l)" by (intro exI [of _ RunQueue]) simp
    show "locks_ok s1 ?L" using parts(3) by (simp add: locks_ok_def rw_abs_def same)
    show "resumable s1 u g" if "u \<in> set (?L RunQueue)"
      "(if u = t then Some (FYield (tasknswitch s)) else place s None u) = Some g" for u g
    proof (cases "u = t")
      case False
      with that have "u \<in> set (L RunQueue)" "place s None u = Some g" by auto
      with w(1) have "resumable s u g" by (rule place_ready)
      then show ?thesis by (rule resumable_cong) (simp_all add: same)
    qed (use that in auto)
  qed (use w(6) in \<open>auto split: if_splits\<close>)
  with s1(1) show ?thesis by simp
qed

subsection \<open>Tasks that become ready\<close>

text \<open>
  A step in which the running task keeps the processor and tasks become ready: new ones, tasks that
  slept, and tasks that waited for a descriptor.
\<close>

lemma lib_ok_go:
  assumes ok: "at_work s L t" and inv: "sys_inv s' L'" and r: "taskrunning s' = Some t"
    and cx: "\<And>u. heap s u \<noteq> None \<Longrightarrow> fld ctxt (heap s') u = fld ctxt (heap s) u"
    and new: "\<And>u f. heap s u = None \<Longrightarrow> fld ctxt (heap s') u = Some f \<Longrightarrow>
      u \<in> set (L' RunQueue) \<and> resumable s' u f \<and> (\<forall>b. f \<noteq> FAlt b)"
    and same: "qowner s' = qowner s" "writer s' = writer s" "alts s' = alts s" "chans s' = chans s"
      "realloc_fails s' = realloc_fails s"
    and locks: "locks_ok s' L'"
    and came: "\<And>l u. u \<in> set (L' l) \<Longrightarrow>
      u \<in> set (L l) \<or> l = RunQueue \<and> (u \<in> set (L Sleeping) \<or> u \<in> polling s \<or> heap s u = None)"
    and went: "\<And>l u. u \<in> set (L l) \<Longrightarrow> \<exists>m. u \<in> set (L' m)"
    and tab: "pollers_ok s' L'" "polling s' \<subseteq> polling s" "polling s \<subseteq> polling s' \<union> set (L' RunQueue)"
  shows "lib_ok s' None L'"
proof -
  note w = at_workD [OF ok]
  note parts = lib_ok_parts [OF w(1)]
  have k': "kinv s' L'" using inv by (simp add: sys_inv_def)
  have dom: "heap s u \<noteq> None" if "u \<in> set (L l)" for u l
    using dll_in_dom [OF queues_dll, of "heap s" "tlists s" L l] that parts(2) by (auto simp: kinv_def)
  have dom': "heap s' u \<noteq> None" if "u \<in> set (L' l)" for u l
    using dll_in_dom [OF queues_dll, of "heap s'" "tlists s'" L' l] that k' by (auto simp: kinv_def)
  have polling: "heap s u \<noteq> None" "u \<noteq> t" "place s None u = Some f \<Longrightarrow> \<exists>fd rw. f = FFdwait fd rw"
    "\<exists>f. place s None u = Some f" if u: "u \<in> polling s" for u f
  proof -
    from u parts(5) have "off s L u" by (auto simp: polls_ok_def pollers_ok_def polling_def)
    then show "heap s u \<noteq> None" by (auto simp: off_def)
    from u parts(5) obtain fd rw where f: "taskrunning s \<noteq> Some u" "fld ctxt (heap s) u = Some (FFdwait fd rw)"
      by (auto simp: polls_ok_def)
    then show "u \<noteq> t" "place s None u = Some f \<Longrightarrow> \<exists>fd rw. f = FFdwait fd rw"
      "\<exists>f. place s None u = Some f" using w(3) by (auto simp: place_def)
  qed
  have t: "heap s t \<noteq> None" using w(5) by (auto simp: off_def)
  have t': "t \<notin> set (L' l)" for l using w(6) polling(2) came [of t l] t by blast
  have pl: "place s' None u = (if heap s u = None then fld ctxt (heap s') u else place s None u)" for u
    using cx [of u] t w(3) r by (auto simp: place_def)
  have places: "places_ok s' None L'"
    unfolding places_ok_def
  proof (intro conjI allI ballI impI)
    fix l u assume u: "u \<in> set (L' l)"
    show "\<exists>f. place s' None u = Some f \<and> waits_at l f"
    proof (cases "heap s u = None")
      case True
      with came [OF u] dom polling(1) have "l = RunQueue" by blast
      with True dom' [OF u] show ?thesis by (auto simp: pl fld_def)
    next
      case False
      have p: "place s' None u = place s None u" by (simp only: pl False if_False)
      from came [OF u] False consider "u \<in> set (L l)" | "l = RunQueue" "u \<in> set (L Sleeping)"
        | "l = RunQueue" "u \<in> polling s" by blast
      then show ?thesis
      proof cases
        case 1
        from place_waiting [OF w(1) 1] show ?thesis unfolding p by blast
      next
        case 2
        from place_waiting [OF w(1) 2(2)] 2(1) show ?thesis unfolding p by fastforce
      next
        case 3
        from polling(4) [OF 3(2)] 3(1) show ?thesis unfolding p by simp
      qed
    qed
  next
    fix u f assume u: "u \<in> set (L' RunQueue) \<or> taskrunning s' = Some u" and f: "place s' None u = Some f"
    then have u: "u \<in> set (L' RunQueue)" by (auto simp: place_def)
    show "resumable s' u f"
    proof (cases "heap s u = None")
      case True
      with f have "fld ctxt (heap s') u = Some f" by (simp add: pl)
      with new [OF True] show ?thesis by blast
    next
      case False
      with f have f: "place s None u = Some f" by (simp only: pl if_False)
      from came [OF u] False consider "u \<in> set (L RunQueue)" | "u \<in> set (L Sleeping)" | "u \<in> polling s" by blast
      then show ?thesis
      proof cases
        case 1
        from place_ready [OF w(1) 1 f] show ?thesis by (rule resumable_cong) (simp_all add: same)
      next
        case 2
        from place_waiting [OF w(1) 2] f have "\<exists>n. f = FDelay n" by fastforce
        then show ?thesis by auto
      next
        case 3
        from polling(3) [OF 3 f] show ?thesis by auto
      qed
    qed
  next
    fix b u v assume "place s' None u = Some (FAlt b)" "place s' None v = Some (FAlt b)"
    then have "place s None u = Some (FAlt b)" "place s None v = Some (FAlt b)"
      using new [of u "FAlt b"] new [of v "FAlt b"] by (auto simp: pl split: if_splits)
    then show "u = v" using parts(6) unfolding places_ok_def by blast
  qed
  have parked: "idle s' L' u \<and> fld ctxt (heap s') u = fld ctxt (heap s) u" if p: "parked s L b as n u" for b as n u
  proof -
    have i: "heap s u \<noteq> None" "u \<noteq> t" "\<And>l. u \<notin> set (L l)" "place s None u = Some (FAlt b)"
      using p w(3) by (auto simp: parked_def off_def place_def)
    have "u \<notin> polling s" using polling(3) [OF _ i(4)] by blast
    then have no: "u \<notin> set (L' l)" for l using i(1,3) by (auto dest: came)
    have c: "fld ctxt (heap s') u = fld ctxt (heap s) u" by (rule cx) (rule i)
    with i(1) have "heap s' u \<noteq> None" by (auto simp: fld_def)
    with no i(2) c r show ?thesis by (auto simp: idle_def off_def)
  qed
  have "alt_inv s' L'"
    by (rule alt_inv_frame [OF _ same(3,4)]) (use parts(4) parked in \<open>auto simp: alts_ok_def\<close>)
  then have "alts_ok s' L'"
    using parts(4) balanced_frame [OF _ same(4)] same(5) by (simp add: alts_ok_def)
  moreover have "polls_ok s' L'"
    unfolding polls_ok_def
  proof (intro conjI ballI)
    fix u assume "u \<in> polling s'"
    with tab(2) have u: "u \<in> polling s" by blast
    show "taskrunning s' \<noteq> Some u" using polling(2) [OF u] r by simp
    from u parts(5) have "\<exists>fd rw. fld ctxt (heap s) u = Some (FFdwait fd rw)" by (auto simp: polls_ok_def)
    with cx [OF polling(1) [OF u]] show "\<exists>fd rw. fld ctxt (heap s') u = Some (FFdwait fd rw)" by simp
  qed (rule tab)
  moreover have "accounted s' L'"
    unfolding accounted_def
  proof (intro allI impI)
    fix u assume i: "idle s' L' u"
    then obtain f where f: "fld ctxt (heap s') u = Some f" and no: "\<And>l. u \<notin> set (L' l)"
      by (auto simp: idle_def off_def fld_def)
    with new have d: "heap s u \<noteq> None" by blast
    have "u \<notin> set (L l)" for l using no went by blast
    with d i r w(3) have "idle s L u" by (auto simp: idle_def off_def)
    with parts(7) have "u \<in> polling s \<or> (\<exists>b as n. parked s L b as n u)" by (simp add: accounted_def)
    then show "u \<in> polling s' \<or> (\<exists>b as n. parked s' L' b as n u)"
    proof (elim disjE exE)
      fix b as n assume p: "parked s L b as n u"
      from parked [OF p] have "parked s' L' b as n u" by (intro parked_frame [OF p same(3,4)]) simp_all
      then show ?thesis by blast
    qed (use tab(3) no in blast)
  qed
  ultimately show ?thesis using inv locks places by (simp add: lib_ok_def)
qed

lemma more_fields:
  fixes s s' :: "'a fdst_scheme"
  assumes "kern.more s' = kern.more s"
  shows "qowner s' = qowner s" "readers s' = readers s" "writer s' = writer s" "alts s' = alts s"
    "chans s' = chans s" "realloc_fails s' = realloc_fails s" "pollfd s' = pollfd s"
    "polltask s' = polltask s" "npollfd s' = npollfd s" "startedfdtask s' = startedfdtask s"
    "sleepingcounted s' = sleepingcounted s"
  using assms by (cases s; cases s'; simp)+

lemma pollers_ok_cong:
  assumes "pollers_ok s L" "pollfd s' = pollfd s" "polltask s' = polltask s" "npollfd s' = npollfd s"
    and "\<And>u. u \<in> polling s \<Longrightarrow> off s L u \<Longrightarrow> off s' L' u"
  shows "pollers_ok s' L'" "polling s' = polling s"
proof -
  have p: "pollers s' = pollers s" "tables_ok s' = tables_ok s"
    by (simp_all add: pollers_def tables_ok_def assms)
  then show "polling s' = polling s" by (simp add: polling_def)
  show "pollers_ok s' L'"
    unfolding pollers_ok_def p using assms(1,5) by (simp add: pollers_ok_def polling_def)
qed

lemma create_ok:
  assumes ok: "at_work s L t" and a: "alloc_ok lib p s" "uint p < 2 ^ 48"
  shows "\<exists>i s'. taskcreate f x n lib s = Inr (i, s') \<and> at_work s' (L(RunQueue := L RunQueue @ [p])) t \<and>
    kern.more s' = kern.more s"
proof -
  note w = at_workD [OF ok]
  note parts = lib_ok_parts [OF w(1)]
  let ?L = "L(RunQueue := L RunQueue @ [p])"
  have np: "heap s p = None" using a(1) by (simp add: alloc_ok_def)
  with w(5) have tp: "t \<noteq> p" by (auto simp: off_def)
  from taskcreate_runs [OF w(4) a(1), of f x n] obtain i s' where run: "taskcreate f x n lib s = Inr (i, s')"
    and s': "kinv s' ?L" "taskrunning s' = taskrunning s"
      "agree undisp ((heap s)(p \<mapsto> fresh_task f x n p s)) (heap s')" "sp s' = sp s"
      "swapcontext_r s' = swapcontext_r s" "kern.more s' = kern.more s" by (auto simp: runs_iff)
  note same = more_fields [OF s'(6)]
  have fl: "fld g (heap s') u = (if u = p then Some (g (fresh_task f x n p s)) else fld g (heap s) u)"
    if "\<And>x. g (undisp x) = g x" for g :: "task \<Rightarrow> 'b" and u
    using agree_fld [OF s'(3), of g u] that by (simp add: fld_def)
  have dom: "dom (heap s') = insert p (dom (heap s))" using agree_dom [OF s'(3)] by simp
  have po: "pollers_ok s' ?L" "polling s' = polling s"
    by ((rule pollers_ok_cong [of s L], use parts(5) np dom in \<open>auto simp: polls_ok_def same off_def\<close>) [1])+
  have "lib_ok s' None ?L"
  proof (rule lib_ok_go [OF ok create_inv [OF parts(1) a(1) run]])
    show "taskrunning s' = Some t" using s'(2) w(3) by simp
    show "fld ctxt (heap s') u = fld ctxt (heap s) u" if "heap s u \<noteq> None" for u
      using that np by (auto simp: fl [of ctxt])
    show "u \<in> set (?L RunQueue) \<and> resumable s' u g \<and> (\<forall>b. g \<noteq> FAlt b)"
      if "heap s u = None" "fld ctxt (heap s') u = Some g" for u g
    proof -
      have "u \<in> dom (heap s')" using that(2) by (auto simp: fld_def)
      with dom that(1) have "u = p" by auto
      with that a(2) show ?thesis by (auto simp: fl [of ctxt] fresh_task_def)
    qed
    show "u \<in> set (L l) \<or> l = RunQueue \<and> (u \<in> set (L Sleeping) \<or> u \<in> polling s \<or> heap s u = None)"
      if "u \<in> set (?L l)" for l u using that np by (auto split: if_splits)
    show "\<exists>m. u \<in> set (?L m)" if "u \<in> set (L l)" for l u using that by (intro exI [of _ l]) auto
    show "locks_ok s' ?L" using parts(3) by (simp add: locks_ok_def rw_abs_def same)
  qed (auto simp: same po)
  moreover have "stack_room 0 t s'"
    using w(2) tp s'(2,4,5) by (simp add: stack_room_def fl [of stk])
  ultimately show ?thesis using run s'(6) by (auto simp: at_work_def)
qed

lemma taskcreate_settles:
  assumes "at_work s L t" "task_memory lib s"
  shows "settles L t (at_once (bindR (taskcreate f x n lib s) (\<lambda>(_, s). Inr s)))"
proof -
  from assms(2) obtain p where "alloc_ok lib p s" "uint p < 2 ^ 48" by (auto simp: task_memory_def)
  from create_ok [OF assms(1) this, of f x n] obtain i s' where
    s': "taskcreate f x n lib s = Inr (i, s')" "at_work s' (L(RunQueue := L RunQueue @ [p])) t" by blast
  from at_work_goes_on [OF s'(2), of L] s'(1) show ?thesis by simp
qed

text \<open>The first call that waits for time or for a descriptor creates \<open>fdtask\<close>.\<close>

lemma start_fdtask_ok:
  assumes ok: "at_work s L t" and m: "startedfdtask s \<or> task_memory lib s"
  shows "\<exists>s' L'. start_fdtask lib s = Inr s' \<and> at_work s' L' t \<and> startedfdtask s' \<and>
    npollfd s' = npollfd s \<and> after L L'"
proof (cases "startedfdtask s")
  case True
  with ok show ?thesis by (intro exI [of _ s] exI [of _ L]) simp
next
  case False
  let ?s = "s\<lparr>startedfdtask := True\<rparr>"
  note w = at_workD [OF ok]
  note parts = lib_ok_parts [OF w(1)]
  have po: "pollers_ok ?s L" "polling ?s = polling s"
    by ((rule pollers_ok_cong [of s L], use parts(5) in \<open>auto simp: polls_ok_def\<close>) [1])+
  have "lib_ok ?s None L"
  proof (rule lib_ok_go [OF ok])
    show "sys_inv ?s L" by (rule own_inv [OF parts(1)]) (simp_all add: kern.truncate_def)
    show "\<exists>m. u \<in> set (L m)" if "u \<in> set (L l)" for l u using that by blast
  qed (use w(3) parts(3) po in \<open>auto simp: fld_def locks_ok_def rw_abs_def\<close>)
  then have ok': "at_work ?s L t" using w(2) by (simp add: at_work_def)
  from False m obtain p where p: "alloc_ok lib p s" "uint p < 2 ^ 48" by (auto simp: task_memory_def)
  then have "alloc_ok lib p ?s" by (simp add: alloc_ok_def)
  from create_ok [OF ok' this p(2), of Fdtask 0 32768] obtain i s' where
    s': "taskcreate Fdtask 0 32768 lib ?s = Inr (i, s')" "at_work s' (L(RunQueue := L RunQueue @ [p])) t"
    "kern.more s' = kern.more ?s" by blast
  with more_fields [OF s'(3)] False show ?thesis by (auto simp: start_fdtask_def)
qed

subsection \<open>A turn of fdtask\<close>

lemma at_work_agree:
  assumes ok: "at_work s L t" and inv: "sys_inv s' L'" and ag: "agree undisp (heap s) (heap s')"
    and same: "taskrunning s' = taskrunning s" "sp s' = sp s" "swapcontext_r s' = swapcontext_r s"
      "qowner s' = qowner s" "readers s' = readers s" "writer s' = writer s" "alts s' = alts s"
      "chans s' = chans s" "realloc_fails s' = realloc_fails s"
    and lists: "\<And>l. l \<noteq> RunQueue \<Longrightarrow> l \<noteq> Sleeping \<Longrightarrow> L' l = L l"
    and queue: "set (L RunQueue) \<subseteq> set (L' RunQueue)"
      "set (L' RunQueue) \<subseteq> set (L RunQueue) \<union> set (L Sleeping) \<union> polling s"
    and sleep: "set (L' Sleeping) \<subseteq> set (L Sleeping)" "set (L Sleeping) \<subseteq> set (L' Sleeping) \<union> set (L' RunQueue)"
    and tab: "pollers_ok s' L'" "polling s' \<subseteq> polling s" "polling s \<subseteq> polling s' \<union> set (L' RunQueue)"
  shows "at_work s' L' t"
proof -
  note w = at_workD [OF ok]
  have "lib_ok s' None L'"
  proof (rule lib_ok_go [OF ok inv])
    show "taskrunning s' = Some t" using same w(3) by simp
    show "fld ctxt (heap s') u = fld ctxt (heap s) u" for u by (rule agree_fld [OF ag]) simp
    show "u \<in> set (L' RunQueue) \<and> resumable s' u f \<and> (\<forall>b. f \<noteq> FAlt b)"
      if "heap s u = None" "fld ctxt (heap s') u = Some f" for u f
      using that agree_dom [OF ag] by (auto simp: fld_def)
    show "locks_ok s' L'" using lib_ok_parts(3) [OF w(1)] by (simp add: locks_ok_def rw_abs_def lists same)
    show "u \<in> set (L l) \<or> l = RunQueue \<and> (u \<in> set (L Sleeping) \<or> u \<in> polling s \<or> heap s u = None)"
      if "u \<in> set (L' l)" for l u
      using that lists [of l] queue sleep by (cases "l = RunQueue"; cases "l = Sleeping") auto
    show "\<exists>m. u \<in> set (L' m)" if u: "u \<in> set (L l)" for l u
    proof -
      have "u \<in> set (L' l) \<or> u \<in> set (L' RunQueue)"
        using u lists [of l] queue sleep by (cases "l = RunQueue"; cases "l = Sleeping") auto
      then show ?thesis by blast
    qed
  qed (use same tab in simp_all)
  moreover have "stack_room 0 t s'"
    using w(2) same agree_fld [OF ag, of stk t] by (simp add: stack_room_def)
  ultimately show ?thesis by (simp add: at_work_def)
qed

lemma polling_revents:
  assumes "tables_ok s"
  shows "polling (set_revents rv s) = polling s"
proof -
  have "map snd (pollers (set_revents rv s)) = map snd (pollers s)"
    using assms by (intro nth_equalityI) (auto simp: pollers_def set_revents_def tables_ok_def)
  then have "set (map snd (pollers (set_revents rv s))) = set (map snd (pollers s))" by (rule arg_cong)
  then show ?thesis by (simp add: polling_def)
qed

lemma set_revents_ok:
  assumes ok: "at_work s L t"
  shows "at_work (set_revents rv s) L t"
proof (rule at_work_agree [OF ok])
  note parts = lib_ok_parts [OF at_workD(1) [OF ok]]
  have po: "pollers_ok s L" using parts(5) by (simp add: polls_ok_def)
  then show "pollers_ok (set_revents rv s) L" by simp
  have "polling (set_revents rv s) = polling s"
    by (rule polling_revents) (use po in \<open>simp add: pollers_ok_def\<close>)
  then show "polling (set_revents rv s) \<subseteq> polling s"
    "polling s \<subseteq> polling (set_revents rv s) \<union> set (L RunQueue)" by auto
  show "sys_inv (set_revents rv s) L"
    by (rule own_inv [OF parts(1)]) (simp_all add: set_revents_def kern.truncate_def)
qed (auto simp: set_revents_def)

lemma wake_ready_ok:
  assumes ok: "at_work s L t"
  shows "\<exists>s' L'. wake_ready s = Inr s' \<and> at_work s' L' t \<and> after L L'"
proof -
  note w = at_workD [OF ok]
  note parts = lib_ok_parts [OF w(1)]
  have po: "pollers_ok s L" using parts(5) by (simp add: polls_ok_def)
  from wake_ready_runs [OF w(4) po] obtain s' ws where run: "wake_ready s = Inr s'"
    and k: "kinv s' (L(RunQueue := L RunQueue @ map snd ws))" and po': "pollers_ok s' (L(RunQueue := L RunQueue @ map snd ws))"
    and fr: "pframe s s'" and ws: "mset ws = filter_mset (\<lambda>x. revents (fst x) \<noteq> 0) (mset (pollers s))"
      "mset (pollers s') = filter_mset (\<lambda>x. revents (fst x) = 0) (mset (pollers s))"
    unfolding runs_iff by blast
  let ?L = "L(RunQueue := L RunQueue @ map snd ws)"
  from fr have ag: "agree undisp (heap s) (heap s')" by (simp add: pframe_def)
  have same: "taskrunning s' = taskrunning s" "sp s' = sp s" "swapcontext_r s' = swapcontext_r s"
    "qowner s' = qowner s" "readers s' = readers s" "writer s' = writer s" "alts s' = alts s"
    "chans s' = chans s" "realloc_fails s' = realloc_fails s" "taskcount s' = taskcount s"
    "sleepingcounted s' = sleepingcounted s"
    by (rule pframe_elim [OF fr], simp)+
  have sets: "set ws = {x \<in> set (pollers s). revents (fst x) \<noteq> 0}"
    "set (pollers s') = {x \<in> set (pollers s). revents (fst x) = 0}"
    using arg_cong [OF ws(1), of set_mset] arg_cong [OF ws(2), of set_mset] by simp_all
  then have pol: "polling s = polling s' \<union> snd ` set ws" by (auto simp: polling_def)
  have t: "off s' ?L t"
  proof -
    have "t \<notin> polling s" using parts(5) w(3) by (auto simp: polls_ok_def)
    with pol w(5) agree_dom [OF ag] show ?thesis by (auto simp: off_def)
  qed
  have eq: "fld system (heap s') = fld system (heap s)" "fld alarmtime (heap s') = fld alarmtime (heap s)"
    "fld exiting (heap s') = fld exiting (heap s)"
    by (rule ext, rule agree_fld [OF ag], simp)+
  have "counts_ok s' ?L" "sleep_sorted s' ?L"
    using parts(1) counts_same [of s L s' ?L] sorted_same [of s L s' ?L] by (simp_all add: sys_inv_def eq same)
  then have "sys_inv s' ?L"
    using parts(1) k t w(3) by (simp add: sys_inv_def eq same)
  then have "at_work s' ?L t"
    by (rule at_work_agree [OF ok _ ag same(1-9)]) (use pol po' in auto)
  with run show ?thesis using after_upd(1) by blast
qed

lemma expire_ok:
  assumes ok: "at_work s L t"
  shows "\<exists>s' L'. expire now s = Inr s' \<and> at_work s' L' t \<and> after L L'"
proof -
  note w = at_workD [OF ok]
  note parts = lib_ok_parts [OF w(1)]
  let ?P = "\<lambda>u. alarm (heap s) u \<le> now"
  let ?L = "L(Sleeping := dropWhile ?P (L Sleeping), RunQueue := L RunQueue @ takeWhile ?P (L Sleeping))"
  have "counted s (L Sleeping) \<le> sleepingcounted s" using parts(1) by (simp add: sys_inv_def counts_ok_def)
  from expire_runs [OF w(4) refl this, of now] obtain s' where run: "expire now s = Inr s'"
    and fr: "fframe s s'" by (auto simp: runs_iff)
  have ag: "agree undisp (heap s) (heap s')" using fr by (rule fframe_elim) simp
  have same: "taskrunning s' = taskrunning s" "sp s' = sp s" "swapcontext_r s' = swapcontext_r s"
    "qowner s' = qowner s" "readers s' = readers s" "writer s' = writer s" "alts s' = alts s"
    "chans s' = chans s" "realloc_fails s' = realloc_fails s"
    "pollfd s' = pollfd s" "polltask s' = polltask s" "npollfd s' = npollfd s"
    by (rule fframe_elim [OF fr], simp)+
  have sub: "set (L Sleeping) = set (takeWhile ?P (L Sleeping)) \<union> set (dropWhile ?P (L Sleeping))"
    by (simp flip: set_append)
  have keep: "off s' ?L u" if "off s L u" for u
    using that agree_dom [OF ag] sub by (auto simp: off_def)
  have po: "pollers_ok s' ?L" "polling s' = polling s"
    by ((rule pollers_ok_cong [of s L], use parts(5) keep in \<open>simp_all add: polls_ok_def same\<close>) [1])+
  have "at_work s' ?L t"
    by (rule at_work_agree [OF ok expire_inv [OF parts(1) w(3) run] ag same(1-9)]) (use po sub in auto)
  with run show ?thesis using after_upd(1) by blast
qed

lemma fdtask_turn_settles:
  assumes ok: "at_work s L t"
  shows "settles L t (fdtask_turn now1 pl now2 s)"
proof -
  from taskstate_ok [OF ok plain_poll] obtain s1 where
    s1: "taskstate ''poll'' [] s = Inr s1" "at_work s1 L t" by blast
  note w = at_workD [OF s1(2)]
  obtain ms where ms: "poll_ms now1 s1 = Inr ms"
    using poll_ms_runs [OF w(4), where now = now1] by (cases "L Sleeping") (auto simp: runs_iff)
  let ?r = "pl (pollfd s1) (npollfd s1) ms"
  from wake_ready_ok [OF set_revents_ok [OF s1(2)]] obtain s2 L2 where
    s2: "wake_ready (set_revents (poll_revents ?r) s1) = Inr s2" "at_work s2 L2 t" "after L L2" by blast
  from expire_ok [OF s2(2)] obtain s3 L3 where
    s3: "expire now2 s2 = Inr s3" "at_work s3 L3 t" "after L2 L3" by blast
  have "goes_on L s1" "goes_on L s3"
    using at_work_goes_on [OF s1(2)] at_work_goes_on [OF s3(2) after_trans [OF s2(3) s3(3)]] by simp_all
  with s1(1) ms s2(1) s3(1) show ?thesis by (simp add: fdtask_turn_def Let_def taskexitall_def)
qed

subsection \<open>Leaving the processor for time, for a descriptor, or for ever\<close>

lemma lib_ok_leave:
  assumes ok: "at_work s L t" and inv: "sys_inv s' L'" and r: "taskrunning s' = None"
    and cx: "fld ctxt (heap s') = (fld ctxt (heap s))(t := q)" and q: "\<And>b. q \<noteq> Some (FAlt b)"
    and same: "qowner s' = qowner s" "writer s' = writer s" "alts s' = alts s" "chans s' = chans s"
      "realloc_fails s' = realloc_fails s"
    and lists: "\<And>l u. u \<noteq> t \<Longrightarrow> u \<in> set (L' l) \<longleftrightarrow> u \<in> set (L l)" "t \<notin> set (L' RunQueue)"
    and mine: "\<And>l. t \<in> set (L' l) \<Longrightarrow> \<exists>f. q = Some f \<and> waits_at l f"
    and locks: "locks_ok s' L'"
    and tab: "pollers_ok s' L'" "\<And>u. u \<noteq> t \<Longrightarrow> u \<in> polling s' \<longleftrightarrow> u \<in> polling s"
      "t \<in> polling s' \<Longrightarrow> \<exists>fd rw. q = Some (FFdwait fd rw)"
    and acc: "q = None \<or> t \<in> polling s' \<or> (\<exists>l. t \<in> set (L' l))"
  shows "lib_ok s' None L'"
proof -
  note w = at_workD [OF ok]
  note parts = lib_ok_parts [OF w(1)]
  have pl: "place s' None u = (if taskrunning s = Some u then q else place s None u)" for u
    using w(3) r by (simp add: place_def cx)
  have dom: "heap s' u = None \<longleftrightarrow> heap s u = None" if "u \<noteq> t" for u
    using fun_cong [OF cx, of u] that by (auto simp: fld_def)
  have idle: "idle s' L' u \<longleftrightarrow> idle s L u" if "u \<noteq> t" for u
    using lists(1) [OF that] dom [OF that] that r w(3) by (auto simp: idle_def off_def)
  have "places_ok s' None L'"
  proof (rule places_ok_step [OF parts(6) pl])
    show "u \<in> set (L l) \<or> l = RunQueue \<and> place s None u \<noteq> None"
      if "u \<in> set (L' l)" "taskrunning s \<noteq> Some u" for l u
      using that lists(1) [of u l] w(3) by auto
    show "\<exists>f. q = Some f \<and> waits_at l f" if "taskrunning s = Some v" "v \<in> set (L' l)" for v l
      using that mine [of l] w(3) by auto
    show "resumable s' u f"
      if u: "u \<in> set (L' RunQueue) \<or> taskrunning s' = Some u" and f: "place s' None u = Some f" for u f
    proof -
      from u r have "u \<in> set (L' RunQueue)" by simp
      moreover from this lists(2) have "u \<noteq> t" by blast
      ultimately have u: "u \<in> set (L RunQueue)" "u \<noteq> t" by (simp_all add: lists(1))
      with f w(3) have "place s None u = Some f" by (simp add: pl)
      from place_ready [OF w(1) u(1) this] show ?thesis by (rule resumable_cong) (simp_all add: same)
    qed
  qed (use q in auto)
  moreover have parked: "idle s' L' u \<and> fld ctxt (heap s') u = fld ctxt (heap s) u"
    if "parked s L b as n u" for b as n u
  proof -
    have i: "idle s L u" using that by (rule parked_idle)
    with w(3) have "u \<noteq> t" by (auto simp: idle_def)
    with i idle cx show ?thesis by simp
  qed
  have "alt_inv s' L'"
    by (rule alt_inv_frame [OF _ same(3,4)]) (use parts(4) parked in \<open>auto simp: alts_ok_def\<close>)
  then have "alts_ok s' L'"
    using parts(4) balanced_frame [OF _ same(4)] same(5) by (simp add: alts_ok_def)
  moreover have "polls_ok s' L'"
    unfolding polls_ok_def
  proof (intro conjI ballI)
    fix u assume u: "u \<in> polling s'"
    show "taskrunning s' \<noteq> Some u" by (simp add: r)
    show "\<exists>fd rw. fld ctxt (heap s') u = Some (FFdwait fd rw)"
      using u tab(2) [of u] tab(3) parts(5) by (cases "u = t") (auto simp: cx polls_ok_def)
  qed (rule tab)
  moreover have "accounted s' L'"
    unfolding accounted_def
  proof (intro allI impI)
    fix u assume i: "idle s' L' u"
    show "u \<in> polling s' \<or> (\<exists>b as n. parked s' L' b as n u)"
    proof (cases "u = t")
      case True
      have "q \<noteq> None" using i fun_cong [OF cx, of t] True by (auto simp: idle_def off_def fld_def)
      with acc i True show ?thesis by (auto simp: idle_def off_def)
    next
      case False
      with i idle parts(7) have "u \<in> polling s \<or> (\<exists>b as n. parked s L b as n u)" by (simp add: accounted_def)
      then show ?thesis
      proof (elim disjE exE)
        fix b as n assume p: "parked s L b as n u"
        from parked [OF p] have "parked s' L' b as n u" by (intro parked_frame [OF p same(3,4)]) simp_all
        then show ?thesis by blast
      qed (use tab(2) False in blast)
    qed
  qed
  ultimately show ?thesis using inv locks by (simp add: lib_ok_def)
qed

lemma taskexit_settles:
  assumes ok: "at_work s L t"
  shows "settles L t (taskexit v s)"
proof -
  note w = at_workD [OF ok]
  note parts = lib_ok_parts [OF w(1)]
  from taskexit_runs [OF w(4,2), of v] obtain s1 tk where run: "taskexit v s = Blocked s1"
    and k1: "kinv s1 L" and tk: "heap s t = Some tk"
    and s1: "s1 = s\<lparr>heap := (heap s)(t \<mapsto> tk\<lparr>exiting := True, ctxt := FExit\<rparr>), taskexitval := v\<rparr>"
    by (auto simp: exited_def)
  have off1: "off s1 L t" using w(5) by (auto simp: off_def s1)
  have "fld exiting (heap s1) t = Some True" by (simp add: s1 fld_def)
  from sched_back_exit [OF k1 off1 this] obtain s' where bk: "sched_back t s1 = Inr s'"
    and rp: "reaped t s1 s'" by (auto simp: runs_iff)
  have e: "s' = s1\<lparr>heap := heap s', alltask := alltask s', nalltask := nalltask s1 - 1,
      taskrunning := None, taskcount := taskcount s'\<rparr>" and none: "heap s' t = None"
    and un: "\<And>u. u \<noteq> t \<Longrightarrow> fld unslot (heap s') u = fld unslot (heap s1) u"
    using rp unfolding reaped_def by blast+
  have same: "taskrunning s' = None" "qowner s' = qowner s" "readers s' = readers s" "writer s' = writer s"
    "alts s' = alts s" "chans s' = chans s" "realloc_fails s' = realloc_fails s" "pollfd s' = pollfd s"
    "polltask s' = polltask s" "npollfd s' = npollfd s"
    by (subst e, simp add: s1)+
  have cx: "fld ctxt (heap s') = (fld ctxt (heap s))(t := None)"
  proof
    fix u
    have "fld ctxt h u = map_option ctxt (fld unslot h u)" for h
      by (simp add: fld_def option.map_comp o_def unslot_def)
    with un [of u] none show "fld ctxt (heap s') u = ((fld ctxt (heap s))(t := None)) u"
      by (cases "u = t") (simp_all add: fld_def s1)
  qed
  have inv: "sys_inv s' L" using exit_inv [OF parts(1) w(2) run bk] by blast
  have t: "t \<notin> polling s" using parts(5) w(3) by (auto simp: polls_ok_def)
  have keep: "off s' L u" if "u \<in> polling s" "off s L u" for u
    using that t fun_cong [OF cx, of u] by (auto simp: off_def fld_def dom_def split: if_splits)
  have po: "pollers_ok s' L" "polling s' = polling s"
    by ((rule pollers_ok_cong [of s L], use parts(5) keep in \<open>simp_all add: polls_ok_def same\<close>) [1])+
  have "lib_ok s' None L"
    by (rule lib_ok_leave [OF ok inv same(1) cx])
      (use w(6) parts(3) t po in \<open>simp_all add: same locks_ok_def rw_abs_def\<close>)
  from goes_onI [OF this after_refl] run bk show ?thesis by simp
qed

lemma pollers_left [simp]:
  "pollers (s\<lparr>taskrunning := r\<rparr>) = pollers s" "polling (s\<lparr>taskrunning := r\<rparr>) = polling s"
  "pollers_ok (s\<lparr>taskrunning := r\<rparr>) L = pollers_ok s L"
proof -
  show p: "pollers (s\<lparr>taskrunning := r\<rparr>) = pollers s" by (simp add: pollers_def)
  then show "polling (s\<lparr>taskrunning := r\<rparr>) = polling s" by (simp add: polling_def)
  have "tables_ok (s\<lparr>taskrunning := r\<rparr>) = tables_ok s" by (simp add: tables_ok_def)
  moreover have "off (s\<lparr>taskrunning := r\<rparr>) L = off s L" by (simp add: fun_eq_iff off_def)
  ultimately show "pollers_ok (s\<lparr>taskrunning := r\<rparr>) L = pollers_ok s L"
    unfolding pollers_ok_def p by simp
qed

lemma started_first:
  assumes "start_fdtask lib s = Inr s0" "startedfdtask s0"
  shows "taskdelay ms now lib s = taskdelay ms now lib s0" "fdwait fd rw lib s = fdwait fd rw lib s0"
  using assms by (simp_all add: taskdelay_def fdwait_def)

lemma taskdelay_settles:
  assumes ok: "at_work s L t" and m: "startedfdtask s \<or> task_memory lib s"
  shows "settles L t (no_result (taskdelay ms now lib s))"
proof -
  from start_fdtask_ok [OF ok m] obtain s0 L0 where st: "start_fdtask lib s = Inr s0"
    and ok: "at_work s0 L0 t" and st0: "startedfdtask s0" and later: "after L L0" by blast
  note w = at_workD [OF ok]
  note parts = lib_ok_parts [OF w(1)]
  from taskdelay_runs [OF w(4,5,2) st0, of ms now lib] obtain s1 where
    run: "taskdelay ms now lib s0 = Blocked s1" and a: "asleep t (now + ucast ms * 1000000) now s0 s1"
    and k1: "kinv s1 (L0(Sleeping := insort_key (alarm (heap s1)) t (L0 Sleeping)))" by blast
  let ?L = "L0(Sleeping := insort_key (alarm (heap s1)) t (L0 Sleeping))"
  have e: "s1 = s0\<lparr>heap := heap s1, tlists := tlists s1, taskcount := taskcount s1,
       sleepingcounted := sleepingcounted s1\<rparr>" and ag: "agree unsleep (heap s0) (heap s1)"
    and cx: "fld ctxt (heap s1) = (fld ctxt (heap s0))(t \<mapsto> FDelay now)"
    using a unfolding asleep_def by blast+
  let ?s' = "s1\<lparr>taskrunning := None\<rparr>"
  have "fld exiting (heap s0) t = Some False"
    using w(5) parts(1) by (auto simp: sys_inv_def off_def fld_def)
  then have "fld exiting (heap s1) t = Some False" using agree_fld [OF ag, of exiting t] by simp
  from sched_back_stay [OF k1 this] have bk: "sched_back t s1 = Inr ?s'" by simp
  have same: "qowner ?s' = qowner s0" "readers ?s' = readers s0" "writer ?s' = writer s0" "alts ?s' = alts s0"
    "chans ?s' = chans s0" "realloc_fails ?s' = realloc_fails s0" "pollfd ?s' = pollfd s0"
    "polltask ?s' = polltask s0" "npollfd ?s' = npollfd s0"
    by (subst e, simp)+
  have t: "t \<notin> polling s0" using parts(5) w(3) by (auto simp: polls_ok_def)
  have keep: "off ?s' ?L u" if "u \<in> polling s0" "off s0 L0 u" for u
    using that t agree_dom [OF ag] by (auto simp: off_def set_insort_key)
  have po: "pollers_ok ?s' ?L" "polling ?s' = polling s0"
    by ((rule pollers_ok_cong [of s0 L0], use parts(5) keep in \<open>simp_all add: polls_ok_def same\<close>) [1])+
  have "lib_ok ?s' None ?L"
  proof (rule lib_ok_leave [OF ok delay_inv [OF parts(1) w(2) st0 run bk]])
    show "u \<in> set (?L l) \<longleftrightarrow> u \<in> set (L0 l)" if "u \<noteq> t" for l u
      using that by (simp add: set_insort_key)
    show "\<exists>f. Some (FDelay now) = Some f \<and> waits_at l f" if "t \<in> set (?L l)" for l
      using that w(6) by (auto split: if_splits)
    show "Some (FDelay now) = None \<or> t \<in> polling ?s' \<or> (\<exists>l. t \<in> set (?L l))"
      by (intro disjI2 exI [of _ Sleeping]) (simp add: set_insort_key)
    show "fld ctxt (heap ?s') = (fld ctxt (heap s0))(t := Some (FDelay now))" using cx by simp
  qed (use w(6) parts(3) t po in \<open>simp_all add: same locks_ok_def rw_abs_def\<close>)
  from goes_onI [OF this, of L] run bk started_first(1) [OF st st0] later show ?thesis by simp
qed

lemma fdwait_settles:
  assumes ok: "at_work s L t" and m: "fd_ready lib s"
  shows "\<exists>s1. fdwait fd rw lib s = Inr s1 \<and> settles L t (Blocked s1)"
proof -
  from start_fdtask_ok [OF ok, of lib] m obtain s0 L0 where st: "start_fdtask lib s = Inr s0"
    and ok: "at_work s0 L0 t" and st0: "startedfdtask s0" and n: "npollfd s0 < MAXFD" and later: "after L L0"
    by (auto simp: fd_ready_def)
  note w = at_workD [OF ok]
  note parts = lib_ok_parts [OF w(1)]
  let ?e = "\<lparr>pfd = fd, events = rw_bits rw, revents = 0\<rparr>"
  have po: "pollers_ok s0 L0" and t: "t \<notin> polling s0" using parts(5) w(3) by (auto simp: polls_ok_def)
  from fdwait_runs [OF w(4) po w(5) _ w(2) st0 n, of fd rw lib] t obtain s1 where
    run: "fdwait fd rw lib s0 = Inr s1" and p: "polled t ?e (FFdwait fd rw) s0 s1"
    and k1: "kinv s1 L0" and po1: "pollers_ok s1 L0" by (auto simp: runs_iff polling_def)
  have e: "s1 = s0\<lparr>heap := heap s1, tlists := tlists s1, pollfd := pollfd s1, polltask := polltask s1,
       npollfd := npollfd s0 + 1\<rparr>" and ag: "agree unctx (heap s0) (heap s1)"
    and cx: "fld ctxt (heap s1) = (fld ctxt (heap s0))(t \<mapsto> FFdwait fd rw)"
    and ps: "pollers s1 = pollers s0 @ [(?e, t)]"
    using p unfolding polled_def by blast+
  let ?s' = "s1\<lparr>taskrunning := None\<rparr>"
  have f: "fld system (heap s1) = fld system (heap s0)" "fld alarmtime (heap s1) = fld alarmtime (heap s0)"
    "fld exiting (heap s1) = fld exiting (heap s0)"
    by (rule ext, rule agree_fld [OF ag], simp)+
  have "fld exiting (heap s0) t = Some False"
    using w(5) parts(1) by (auto simp: sys_inv_def off_def fld_def)
  then have "fld exiting (heap s1) t = Some False" by (simp add: f)
  from sched_back_stay [OF k1 this] have bk: "sched_back t s1 = Inr ?s'" by simp
  have same: "qowner ?s' = qowner s0" "readers ?s' = readers s0" "writer ?s' = writer s0" "alts ?s' = alts s0"
    "chans ?s' = chans s0" "realloc_fails ?s' = realloc_fails s0" "taskcount s1 = taskcount s0"
    "sleepingcounted s1 = sleepingcounted s0" "swapcontext_r s1 = swapcontext_r s0"
    by (subst e, simp)+
  have inv: "sys_inv ?s' L0"
  proof (rule sys_inv_back [OF parts(1) k1 bk _ f(3)])
    show "counts_ok s1 L0" by (rule counts_same [of s0 L0]) (use parts(1) f same in \<open>simp_all add: sys_inv_def\<close>)
    show "sleep_sorted s1 L0" by (rule sorted_same [of s0 L0]) (use parts(1) f in \<open>simp_all add: sys_inv_def\<close>)
  qed (use w(5) same in \<open>auto simp: off_def\<close>)
  have pol: "polling ?s' = insert t (polling s0)" by (simp add: polling_def ps)
  have "pollers_ok ?s' L0" using po1 by simp
  then have "lib_ok ?s' None L0"
    by (intro lib_ok_leave [OF ok inv, where q = "Some (FFdwait fd rw)"])
      (use w(6) parts(3) cx pol in \<open>simp_all add: same locks_ok_def rw_abs_def\<close>)
  from goes_onI [OF this, of L] run bk started_first(2) [OF st st0] later show ?thesis by simp
qed

lemma fd_calls_settle:
  assumes ok: "at_work s L t"
  shows "fd_ready lib s \<Longrightarrow> settles L t (blocks (fdwait fd rw lib s))"
    "(again r \<longrightarrow> fd_ready lib s) \<Longrightarrow> settles L t (no_result (fdread fd r lib s))"
    "fd_ready lib s \<Longrightarrow> settles L t (perform (Fd_write fd n io k tot lib) s)"
proof -
  have inv: "goes_on L s" using at_work_goes_on [OF ok] by simp
  show "settles L t (blocks (fdwait fd rw lib s))" if "fd_ready lib s"
    using fdwait_settles [OF ok that, of fd rw] by auto
  show "settles L t (no_result (fdread fd r lib s))" if "again r \<longrightarrow> fd_ready lib s"
    using fdwait_settles [OF ok, of lib fd 114] that inv by (cases "again r") (auto simp: fdread_def)
  show "settles L t (perform (Fd_write fd n io k tot lib) s)" if "fd_ready lib s"
    using fdwait_settles [OF ok that, of fd 119] inv
    by (cases "write_loop n io k tot") (auto simp: fdwrite_def)
qed

end
