(* ===== verification/LibChans.thy ===== *)
theory LibChans
  imports LibTasks
begin

text \<open>
  The calls of \<open>channel.c\<close>, and what the program does to its own memory, keep the invariant of the
  library.
\<close>

subsection \<open>The program's own memory\<close>

lemma parked_in_use: "parked s L b as n t \<Longrightarrow> in_use s p b"
  by (auto simp: parked_def in_use_def place_def)

lemma blocked_in_use: "alt_inv s L \<Longrightarrow> blocked s b \<Longrightarrow> in_use s p b"
  by (auto simp: alt_inv_def dest: parked_in_use)

lemma lib_ok_own:
  assumes ok: "lib_ok s p L" and s': "s' = s\<lparr>mem := m, alts := al, rzl := z, sp := a\<rparr>"
    and use: "\<And>b. in_use s p b \<Longrightarrow> al b = alts s b"
  shows "lib_ok s' p L"
proof -
  note parts = lib_ok_parts [OF ok]
  have same: "taskrunning s' = taskrunning s" "heap s' = heap s" "chans s' = chans s" "alts s' = al"
    "qowner s' = qowner s" "readers s' = readers s" "writer s' = writer s" "realloc_fails s' = realloc_fails s"
    "pollfd s' = pollfd s" "polltask s' = polltask s" "npollfd s' = npollfd s"
    by (simp_all add: s')
  have wq: "waitq s' ch w = waitq s ch w" for ch w by (rule waitq_cong) (rule same)
  have off: "off s' L u = off s L u" for u by (simp add: off_def same)
  have pl: "place s' p = place s p" by (rule place_cong) (simp_all add: same)
  have inv: "alt_inv s L" using parts(4) by (simp add: alts_ok_def)
  have parked: "parked s' L b as n u" if "parked s L b as n u" for b as n u
    using that use [OF parked_in_use [OF that]] by (simp add: parked_def queued_at_def wq off same)
  have "sys_inv s' L"
    using parts(1)
    by (simp add: s' sys_inv_def kinv_def ready_ok_def slots_ok_def sleep_sorted_def counts_ok_def
        counted_def users_def off_def)
  moreover have "entry_ok s' ch w x" if "x \<in> set (waitq s ch w)" for ch w x
  proof -
    have "blocked s (fst x)" using that by (metis blocked_def prod.collapse)
    from use [OF blocked_in_use [OF inv this]] that inv show ?thesis
      by (simp add: alt_inv_def entries_ok_def entry_ok_def same)
  qed
  then have "alt_inv s' L"
    using inv parked by (auto simp: alt_inv_def chans_ok_def entries_ok_def blocked_def wq same; metis)
  then have "alts_ok s' L"
    using parts(4) balanced_frame [OF _ same(3)] by (simp add: alts_ok_def same)
  moreover have po: "pollers_ok s' L" "polling s' = polling s"
    by ((rule pollers_ok_cong [of s L], use parts(5) off same in \<open>auto simp: polls_ok_def\<close>) [1])+
  then have "polls_ok s' L" using parts(5) by (simp add: polls_ok_def same)
  moreover have "resumable s' u f" if "resumable s u f" "place s p u = Some f" for u f
  proof -
    have "al b = alts s b" if "f = FAlt b" for b
      by (rule use) (use that \<open>place s p u = Some f\<close> in \<open>auto simp: in_use_def\<close>)
    with that(1) show ?thesis by (cases f) (simp_all add: same)
  qed
  then have "places_ok s' p L" using parts(6) unfolding places_ok_def pl same(1) by blast
  moreover have "accounted s' L"
    using parts(7) po(2) parked unfolding accounted_def idle_def off same(1) by metis
  moreover have "locks_ok s' L" using parts(3) by (simp add: locks_ok_def rw_abs_def same)
  ultimately show ?thesis by (simp add: lib_ok_def)
qed

lemma own_work_ok:
  assumes ok: "lib_ok s None L" and "own_work s s'"
  shows "lib_ok s' None L"
proof -
  from assms(2) obtain m al z a where s': "s' = s\<lparr>mem := m, alts := al, rzl := z, sp := a\<rparr>"
    unfolding own_work_def by blast
  with assms(2) have "al b = alts s b" if "in_use s None b" for b using that by (simp add: own_work_def)
  from lib_ok_own [OF ok s' this] show ?thesis .
qed

text \<open>An array that is not in use can be written or dropped.\<close>

lemma at_work_array:
  assumes ok: "at_work s L t" and b: "\<not> in_use s None b"
  shows "at_work (s\<lparr>alts := (alts s)(b := x)\<rparr>) L t"
proof -
  have "lib_ok (s\<lparr>alts := (alts s)(b := x)\<rparr>) None L"
    by (rule lib_ok_own [OF at_workD(1) [OF ok], where m = "mem s" and al = "(alts s)(b := x)"
          and z = "rzl s" and a = "sp s"]) (use b in auto)
  with at_workD(2) [OF ok] show ?thesis by (simp add: at_work_def)
qed

subsection \<open>Operations that are carried out\<close>

lemma lib_ok_chans:
  assumes ok: "at_work s L t"
    and fr: "kframe (s\<lparr>mem := mem s', chans := chans s', alts := alts s'\<rparr>) s'" and k: "kinv s' L'"
    and inv: "alt_inv s' L'" "balanced s'" and L': "L' = L(RunQueue := L RunQueue @ us)"
    and us: "\<And>u. u \<in> set us \<Longrightarrow> \<exists>b as n. parked s L b as n u"
    and go: "\<And>u b as n. u \<in> set us \<Longrightarrow> parked s L b as n u \<Longrightarrow> resumable s' u (FAlt b)"
    and keep: "\<And>u b as n. parked s L b as n u \<Longrightarrow> u \<notin> set us \<Longrightarrow> parked s' L' b as n u"
    and same: "\<And>u b. u \<in> set (L RunQueue) \<Longrightarrow> place s None u = Some (FAlt b) \<Longrightarrow> alts s' b = alts s b"
  shows "at_work s' L' t" "place s' None = place s None"
proof -
  let ?s = "s\<lparr>mem := mem s', chans := chans s', alts := alts s'\<rparr>"
  note w = at_workD [OF ok]
  note parts = lib_ok_parts [OF w(1)]
  have eq: "taskrunning s' = taskrunning s" "fld ctxt (heap s') = fld ctxt (heap s)"
    "dom (heap s') = dom (heap s)" "sp s' = sp s" "realloc_fails s' = realloc_fails s"
    "qowner s' = qowner s" "readers s' = readers s" "writer s' = writer s" "pollfd s' = pollfd s"
    "polltask s' = polltask s" "npollfd s' = npollfd s"
    using kframe_fields [OF fr] ctxt_frame [OF fr] kframe_dom [OF fr] kframe_chanst [OF fr]
      kframe_locks [OF fr] kframe_fdst [OF fr] by simp_all
  show pl: "place s' None = place s None" by (rule place_cong) (simp_all add: eq)
  have parked: "u \<noteq> t" "u \<notin> polling s" "place s None u = Some (FAlt b)" "\<And>l. u \<notin> set (L l)"
    if p: "parked s L b as n u" for b as n u
    using p w(3) parts(5) by (auto simp: parked_def polls_ok_def place_def off_def)
  have off: "off s' L' u \<longleftrightarrow> off s L u \<and> u \<notin> set us" for u by (auto simp: off_def eq L')
  have t: "t \<notin> set us" using us parked(1) by blast
  have "sys_inv ?s L" by (rule own_inv [OF parts(1)]) (simp_all add: kern.truncate_def)
  then have inv': "sys_inv s' L'"
  proof (rule sys_inv_kframe [OF _ fr k])
    show "L' Sleeping = L Sleeping" by (simp add: L')
    show "\<forall>v. taskrunning ?s = Some v \<longrightarrow> off s' L' v" using t w(3,5) off by simp
  qed
  have out: "u \<notin> set us" if "u \<in> polling s" for u using that us parked(2) by blast
  have po: "pollers_ok s' L'" "polling s' = polling s"
    by ((rule pollers_ok_cong [of s L s' L'], use parts(5) out in \<open>simp_all add: polls_ok_def eq off\<close>) [1])+
  have places: "places_ok s' None L'"
  proof (rule places_ok_step [OF parts(6), where q = None])
    show "place s' None u = (if taskrunning s = Some u then None else place s None u)" for u
      by (simp add: pl) (simp add: place_def)
    show "u \<in> set (L l) \<or> l = RunQueue \<and> place s None u \<noteq> None" if "u \<in> set (L' l)" for l u
      using that us parked(3) by (fastforce simp: L' split: if_splits)
    show "\<exists>f. None = Some f \<and> waits_at l f" if "taskrunning s = Some v" "v \<in> set (L' l)" for v l
      using that w(3,6) t by (auto simp: L' split: if_splits)
    show "resumable s' u f" if u: "u \<in> set (L' RunQueue) \<or> taskrunning s' = Some u" "place s' None u = Some f" for u f
    proof -
      from u have f: "place s None u = Some f" and "u \<in> set (L' RunQueue)"
        by (auto simp: pl eq place_def split: if_splits)
      then consider "u \<in> set (L RunQueue)" | "u \<in> set us" by (auto simp: L')
      then show ?thesis
      proof cases
        case 1
        from place_ready [OF w(1) 1 f] have "resumable s u f" .
        with same [OF 1] f show ?thesis by (cases f) (simp_all add: eq)
      next
        case 2
        from us [OF 2] obtain b as n where p: "parked s L b as n u" by blast
        with parked(3) f have "f = FAlt b" by simp
        with go [OF 2 p] show ?thesis by simp
      qed
    qed
  qed simp
  have "polls_ok s' L'" using po parts(5) by (simp add: polls_ok_def eq)
  moreover have "accounted s' L'"
    unfolding accounted_def
  proof (intro allI impI)
    fix u assume "idle s' L' u"
    then have i: "idle s L u" "u \<notin> set us" by (auto simp: idle_def off eq)
    then have "u \<in> polling s \<or> (\<exists>b as n. parked s L b as n u)" using parts(7) by (simp add: accounted_def)
    with keep i(2) po(2) show "u \<in> polling s' \<or> (\<exists>b as n. parked s' L' b as n u)" by blast
  qed
  moreover have "alts_ok s' L'" using inv parts(4) by (simp add: alts_ok_def eq)
  moreover have "locks_ok s' L'" using parts(3) by (simp add: locks_ok_def rw_abs_def eq L')
  ultimately have "lib_ok s' None L'" using inv' places by (simp add: lib_ok_def)
  moreover have "stack_room 0 t s'" using w(2) stack_room_frame [OF fr] by simp
  ultimately show "at_work s' L' t" by (simp add: at_work_def)
qed

lemma parked_released:
  assumes par: "parked s L (fst other) as n t" and rel: "released s ch c' other as s'"
    and p: "parked s L b as' n' t'" "b \<noteq> fst other"
  shows "parked s' (L(RunQueue := L RunQueue @ [t])) b as' n' t'"
proof -
  let ?s = "s\<lparr>mem := mem s', chans := chans s', alts := alts s'\<rparr>"
  from rel have fr: "kframe ?s s'" and al: "alts s' = (alts s)(fst other \<mapsto> as[0 := (as ! 0)\<lparr>xalt := Some other\<rparr>])"
    and wq: "\<And>k v. set (waitq s' k v) = {x \<in> set (waitq s k v). fst x \<noteq> fst other}"
    unfolding released_def by blast+
  have "t' \<noteq> t" using p par by (auto simp: parked_def)
  then have "off s' (L(RunQueue := L RunQueue @ [t])) t'"
    using p(1) kframe_dom [OF fr] by (auto simp: parked_def off_def)
  moreover have "queued_at s' b i a" if "queued_at s b i a" for i a
    using that p(2) by (auto simp: queued_at_def wq)
  moreover have "fld ctxt (heap s') = fld ctxt (heap s)" using ctxt_frame [OF fr] by simp
  moreover have "taskrunning s' = taskrunning s" using kframe_fields(4) [OF fr] by simp
  ultimately show ?thesis using p by (simp add: parked_def al)
qed

lemma performed_ok:
  assumes ok: "at_work s L t" and c: "chans s ch = Some c"
    and inv: "kinv s' L'" "alt_inv s' L'" "balanced s'" and perf: "performed s L a ch w c s' L'"
  shows "at_work s' L' t \<and> place s' None = place s None \<and> after L L'"
proof -
  note wk = at_workD [OF ok]
  from perf consider
    (alone) c' m where "L' = L" "s' = s\<lparr>mem := m, chans := (chans s)(ch \<mapsto> c')\<rparr>" "same_chan c c'"
  | (partner) other ds n u c' where "parked s L (fst other) ds n u" "L' = L(RunQueue := L RunQueue @ [u])"
      "released s ch c' other ds s'"
    unfolding performed_def by blast
  then show ?thesis
  proof cases
    case alone
    have fr: "kframe (s\<lparr>mem := mem s', chans := chans s', alts := alts s'\<rparr>) s'" by (simp add: alone(2))
    have "waitq s' k v = waitq s k v" for k v
      unfolding alone(2) by (rule waitq_same_chan [OF c alone(3)])
    then have keep: "parked s' L b as n u" if "parked s L b as n u" for b as n u
      using that by (simp add: parked_def queued_at_def alone(2))
    have "L' = L(RunQueue := L RunQueue @ [])" using alone(1) by auto
    from lib_ok_chans [OF ok fr inv this] keep show ?thesis by (simp add: alone(1)) (simp add: alone(2))
  next
    case partner
    from partner(3) have fr: "kframe (s\<lparr>mem := mem s', chans := chans s', alts := alts s'\<rparr>) s'"
      and al: "alts s' = (alts s)(fst other \<mapsto> ds[0 := (ds ! 0)\<lparr>xalt := Some other\<rparr>])"
      unfolding released_def by blast+
    have u: "place s None u = Some (FAlt (fst other))" "u \<notin> set (L RunQueue)" "alt_end ds = Some n"
      using partner(1) by (auto simp: parked_def place_def off_def)
    have one: "v = u" if "place s None v = Some (FAlt (fst other))" for v
      using that u(1) lib_ok_parts(6) [OF wk(1)] unfolding places_ok_def by blast
    have go: "resumable s' v (FAlt b)" if "v \<in> set [u]" "parked s L b as m v" for v b as m
    proof -
      have b: "b = fst other" using that u(1) by (simp add: parked_def place_def split: if_splits)
      have "ds \<noteq> []" using alt_end_bound [OF u(3)] by auto
      then show ?thesis by (cases other) (simp add: al b)
    qed
    have keep: "parked s' L' b as m v" if p: "parked s L b as m v" "v \<notin> set [u]" for b as m v
    proof -
      have "b \<noteq> fst other" using p one [of v] by (auto simp: parked_def place_def)
      from parked_released [OF partner(1,3) p(1) this] show ?thesis by (simp only: partner(2))
    qed
    have same: "alts s' b = alts s b" if "v \<in> set (L RunQueue)" "place s None v = Some (FAlt b)" for v b
      using that one [of v] u(2) by (auto simp: al)
    have us: "\<exists>b as n. parked s L b as n v" if "v \<in> set [u]" for v using that partner(1) by auto
    show ?thesis
      by (intro conjI; (rule lib_ok_chans [OF ok fr inv partner(2)]; (rule us go keep same; assumption))?)
        (simp add: partner(2))
  qed
qed

subsection \<open>chanalt\<close>

lemma alt_call_args:
  assumes ok: "at_work s L t" and room: "stack_room 512 t s" and args: "alt_args b s"
  obtains as n where "alt_call s L t b as n" "roomy s n"
proof -
  note parts = lib_ok_parts [OF at_workD(1) [OF ok]]
  from args obtain as n where as: "alts s b = Some as" "alt_end as = Some n"
    "\<forall>i < n. op_valid s (as ! i)" "roomy s n" and b: "\<not> in_use s None b" by (auto simp: alt_args_def)
  have "\<not> blocked s b" using b parts(4) blocked_in_use by (auto simp: alts_ok_def)
  with as parts(2,4) room have "alt_call s L t b as n" by (simp add: alt_call_def alts_ok_def)
  with as(4) that show thesis by blast
qed

lemma chanalt_waiting:
  assumes ok: "at_work s L t" and call: "alt_call s L t b as n" and b: "\<not> in_use s None b"
    and F: "ready_ops s as n = []" "aop (as ! n) = CHANEND" and room: "roomy s n"
  shows "\<exists>s1. chanalt b r1 r2 s = Blocked s1 \<and> settles L t (Blocked s1)"
proof -
  note w = at_workD [OF ok]
  note parts = lib_ok_parts [OF w(1)]
  have "\<not> realloc_fails s" using parts(4) by (simp add: alts_ok_def)
  from chanalt_queues [OF call w(5) F room this, of r1 r2] obtain s1 where
    run: "chanalt b r1 r2 s = Blocked s1" and k1: "kinv s1 L" and inv1: "alt_inv (s1\<lparr>taskrunning := None\<rparr>) L"
      "balanced s1" and bl: "kblock t (FAlt b) (noted s t b as n\<lparr>chans := chans s1\<rparr>) s1"
    and q: "\<forall>d v. waitq s1 d v = waitq s d v @ map (Pair b) (filter (\<lambda>i. wants (as ! i) d v) [0..<n])"
    by blast
  let ?s0 = "noted s t b as n\<lparr>chans := chans s1\<rparr>" and ?s' = "s1\<lparr>taskrunning := None\<rparr>"
  have cx: "fld ctxt (heap ?s') = (fld ctxt (heap s))(t \<mapsto> FAlt b)" using kblock_ctxt [OF bl] by simp
  have dom: "dom (heap ?s') = dom (heap s)" using kblock_dom [OF bl] by simp
  have al: "alts ?s' = (alts s)(b \<mapsto> prepared b (Some t) as n)" using kblock_chanst(2) [OF bl] by simp
  have eq: "realloc_fails s1 = realloc_fails s" "qowner s1 = qowner s" "readers s1 = readers s"
    "writer s1 = writer s" "pollfd s1 = pollfd s" "polltask s1 = polltask s" "npollfd s1 = npollfd s"
    using more_fields [OF kblock_fields(12) [OF bl]] by (simp_all add: noted_def)
  have wq: "waitq ?s' d v = waitq s d v @ map (Pair b) (filter (\<lambda>i. wants (as ! i) d v) [0..<n])" for d v
    using q waitq_cong [of ?s' s1] by simp
  have "sys_inv ?s0 L" by (rule own_inv [OF parts(1)]) (simp_all add: noted_def kern.truncate_def)
  have "fld exiting (heap s) t = Some False"
    using w(5) parts(1) by (auto simp: sys_inv_def off_def fld_def)
  then have "fld exiting (heap s1) t = Some False"
    using agree_fld [OF kblock_heap [OF bl], of exiting t] by simp
  from sched_back_stay [OF k1 this] have bk: "sched_back t s1 = Inr ?s'" by simp
  have inv: "sys_inv ?s' L"
    by (rule sys_inv_kblock [OF \<open>sys_inv ?s0 L\<close> bl k1 refl bk]) (use w(2) in simp)
  have off: "off ?s' L u = off s L u" for u using dom by (simp add: off_def)
  have po: "pollers_ok ?s' L" "polling ?s' = polling s"
    by ((rule pollers_ok_cong [of s L ?s' L], use parts(5) off in \<open>simp_all add: polls_ok_def eq\<close>) [1])+
  have pl: "place ?s' None u = (if taskrunning s = Some u then Some (FAlt b) else place s None u)" for u
    by (rule place_out [OF w(3)]) (use cx in simp_all)
  have "places_ok ?s' None L"
  proof (rule places_ok_step [OF parts(6) pl])
    show "\<exists>f. Some (FAlt b) = Some f \<and> waits_at l f" if "taskrunning s = Some v" "v \<in> set (L l)" for v l
      using that w(3,6) by simp
    show "resumable ?s' u f"
      if u: "u \<in> set (L RunQueue) \<or> taskrunning ?s' = Some u" "place ?s' None u = Some f" for u f
    proof -
      from u(1) have m: "u \<in> set (L RunQueue)" by simp
      with w(6) have "t \<noteq> u" by blast
      with u(2) m w(3) have u: "u \<in> set (L RunQueue)" "place s None u = Some f" by (simp_all add: pl)
      from place_ready [OF w(1) u] have res: "resumable s u f" .
      have "c \<noteq> b" if "f = FAlt c" for c using u(2) b that by (auto simp: in_use_def)
      with res show ?thesis by (cases f) (simp_all add: al [simplified] eq)
    qed
    show "None = Some (FAlt b) \<or> \<not> in_use s None c" if "Some (FAlt b) = Some (FAlt c)" for c
      using that b by simp
  qed simp
  moreover have "polls_ok ?s' L"
    using po parts(5) w(3) cx by (auto simp: polls_ok_def)
  moreover have "balanced ?s'" using inv1(2) by (rule balanced_frame) simp
  with inv1(1) parts(4) have "alts_ok ?s' L" by (simp add: alts_ok_def eq)
  moreover have "accounted ?s' L"
    unfolding accounted_def
  proof (intro allI impI)
    fix u assume i: "idle ?s' L u"
    note pq = parked_queued [OF call w(5) al wq cx dom]
    show "u \<in> polling ?s' \<or> (\<exists>b as n. parked ?s' L b as n u)"
    proof (cases "u = t")
      case True
      with pq(1) show ?thesis by auto
    next
      case False
      with i w(3) have "idle s L u" unfolding idle_def off by simp
      then consider "u \<in> polling s" | d as' n' where "parked s L d as' n' u"
        using parts(7) by (auto simp: accounted_def)
      then show ?thesis
      proof cases
        case 2
        with b parked_in_use have "d \<noteq> b" by blast
        with pq(2) [OF _ 2] show ?thesis by auto
      qed (use po(2) in simp)
    qed
  qed
  moreover have "locks_ok ?s' L" using parts(3) by (simp add: locks_ok_def rw_abs_def eq)
  ultimately have "lib_ok ?s' None L" using inv by (simp add: lib_ok_def)
  from goes_onI [OF this after_refl] run bk show ?thesis by simp
qed

lemma chanalt_ok:
  assumes ok: "at_work s L t" and room: "stack_room 512 t s" and args: "alt_args b s"
  shows "(\<exists>i s' L'. chanalt b r1 r2 s = Done i s' \<and> at_work s' L' t \<and> place s' None = place s None \<and>
      after L L') \<or>
    (\<exists>s1. chanalt b r1 r2 s = Blocked s1 \<and> settles L t (Blocked s1))"
proof -
  from alt_call_args [OF assms] obtain as n where call: "alt_call s L t b as n" and rm: "roomy s n" .
  have b: "\<not> in_use s None b" using args by (simp add: alt_args_def)
  have ok0: "at_work (noted s t b as n) L t" unfolding noted_def by (rule at_work_array [OF ok b])
  have pl0: "place (noted s t b as n) None = place s None" by (rule place_cong) simp_all
  consider "ready_ops s as n \<noteq> []" | "ready_ops s as n = []" "aop (as ! n) \<noteq> CHANEND"
    | "ready_ops s as n = []" "aop (as ! n) = CHANEND" by blast
  then show ?thesis
  proof cases
    case 1
    from chanalt_executes [OF call 1, of r1 r2] obtain i ch w c s' L' where
      e: "chanalt b r1 r2 s = Done (int i) s'" "chans s ch = Some c" "kinv s' L'" "alt_inv s' L'" "balanced s'"
        "performed (noted s t b as n) L (as ! i) ch w c s' L'" by blast
    from performed_ok [OF ok0 _ e(3-6)] e(1,2) pl0 show ?thesis by auto
  next
    case 2
    with chanalt_paths(2) [OF call, of r1 r2] ok0 pl0 after_refl show ?thesis by blast
  next
    case 3
    with chanalt_waiting [OF ok call b _ _ rm] show ?thesis by blast
  qed
qed

lemma chanalt_settles:
  assumes "at_work s L t" "stack_room 512 t s" "alt_args b s"
  shows "settles L t (no_result (chanalt b r1 r2 s))"
  using chanalt_ok [OF assms, of r1 r2] by (auto dest: at_work_goes_on)

subsection \<open>The other calls\<close>

lemma chanop_settles:
  assumes ok: "at_work s L t" and room: "stack_room 512 t s" and c: "chans s ch \<noteq> None"
    and b: "alts s b = None" "\<not> in_use s None b" and rm: "roomy s 1"
  shows "settles L t (no_result (do_chanop b r1 r2 (Some ch) (op_code w) v k s))"
proof -
  let ?s = "op_state s b ch v w k"
  have ok0: "at_work ?s L t" by (rule at_work_array [OF ok b(2)])
  have pl0: "place ?s None = place s None" by (rule place_cong) simp_all
  have "alt_end (op_array (Some ch) v w k) = Some 1"
    by (cases w) (simp_all add: op_array_def op_code_def end_mark_def)
  moreover have "op_valid ?s (op_array (Some ch) v w k ! 0)"
    using c by (cases w) (auto simp: op_array_def op_code_def op_valid_def chanarray_def)
  moreover have "\<not> in_use ?s None b" using b(2) by (simp add: in_use_def pl0)
  ultimately have args: "alt_args b ?s" using rm by (simp add: alt_args_def roomy_def)
  have "stack_room 512 t ?s" using room by simp
  from chanalt_ok [OF ok0 this args, of r1 r2] consider
    (finished) i s' L' where "chanalt b r1 r2 ?s = Done i s'" "at_work s' L' t" "place s' None = place ?s None" "after L L'"
  | (waits) s1 where "chanalt b r1 r2 ?s = Blocked s1" "settles L t (Blocked s1)" by blast
  then show ?thesis
  proof cases
    case finished
    have "\<not> in_use s' None b" using b(2) finished(3) by (simp add: in_use_def pl0)
    from at_work_goes_on [OF at_work_array [OF finished(2) this, of None] finished(4)] finished(1) show ?thesis
      by (simp add: do_chanop_op)
  next
    case waits
    then show ?thesis by (simp add: do_chanop_op)
  qed
qed

lemma at_work_chans:
  assumes ok: "at_work s L t" and s': "s' = s\<lparr>chans := cs\<rparr>" and cs: "chans_ok s'"
    and bal: "\<And>ch c. cs ch = Some c \<Longrightarrow> chan_balanced s' ch c" and wq: "\<And>ch w. waitq s' ch w = waitq s ch w"
  shows "at_work s' L t"
proof -
  note parts = lib_ok_parts [OF at_workD(1) [OF ok]]
  have keep: "parked s' L b as n u = parked s L b as n u" for b as n u
    by (simp add: parked_def queued_at_def wq) (simp add: s')
  have bl: "blocked s' b = blocked s b" for b by (simp add: blocked_def wq)
  have "entries_ok s'"
    using parts(4) unfolding entries_ok_def wq by (simp add: alts_ok_def alt_inv_def entries_ok_def entry_ok_def s')
  with cs parts(4) have "alt_inv s' L" by (simp add: alts_ok_def alt_inv_def bl keep)
  moreover have "balanced s'" using bal by (simp add: balanced_def s')
  moreover have "kframe (s\<lparr>mem := mem s', chans := chans s', alts := alts s'\<rparr>) s'" "kinv s' L"
    using parts(2) by (simp_all add: s')
  ultimately show ?thesis
    by (intro lib_ok_chans(1) [OF ok, where us = "[]"]) (simp_all add: keep, simp_all add: s')
qed

lemma chancreate_settles:
  assumes ok: "at_work s L t"
    and z: "0 \<le> esz" "0 \<le> n" "esz < 2 ^ 31" "n < 2 ^ 31" "n * esz < 2 ^ 31" and m: "\<And>c. m = Some c \<Longrightarrow> chans s c = None"
  shows "settles L t (at_once (bindR (chancreate esz n m junk s) (\<lambda>(_, s). Inr s)))"
proof -
  note parts = lib_ok_parts [OF at_workD(1) [OF ok]]
  have r: "int_range n" "int_range esz" "int_range (n * esz)"
    using z mult_nonneg_nonneg [OF z(2,1)] unfolding int_range_def by linarith+
  show ?thesis
  proof (cases m)
    case None
    with r(3) show ?thesis by (simp add: chancreate_def)
  next
    case (Some a)
    from chancreate_runs [OF r(1,2) z(2,1) r(3), of a junk s] obtain c where
      run: "chancreate esz n (Some a) junk s = Inr (a, s\<lparr>chans := (chans s)(a \<mapsto> c)\<rparr>)"
      and c: "ch_ok c" "unat (an (asend c)) = 0" "unat (an (arecv c)) = 0" by (auto simp: runs_iff)
    have ar: "asend c = \<lparr>aa = [], an = 0, am = 0\<rparr>" "arecv c = \<lparr>aa = [], an = 0, am = 0\<rparr>"
      using arg_cong [OF run, of "\<lambda>x. case x of Inl _ \<Rightarrow> None | Inr (_, s) \<Rightarrow> chans s a"] r(3)
        mult_nonneg_nonneg [OF z(2,1)] by (auto simp: chancreate_def)
    let ?s' = "s\<lparr>chans := (chans s)(a \<mapsto> c)\<rparr>"
    have new: "chans s a = None" using m Some by simp
    have wq: "waitq ?s' ch w = waitq s ch w" for ch w
      using new by (cases w) (simp_all add: waitq_def waiting_def ar)
    have "arr_ok (asend c)" "arr_ok (arecv c)" by (simp_all add: ar arr_ok_def waiting_def)
    then have "chans_ok ?s'" using parts(4) c(1) by (simp add: alts_ok_def alt_inv_def chans_ok_def)
    moreover have "chan_balanced ?s' ch d" if "((chans s)(a \<mapsto> c)) ch = Some d" for ch d
    proof (cases "ch = a")
      case True
      then have "waitq ?s' ch w = []" for w unfolding wq using new by (simp add: waitq_def)
      then show ?thesis by (simp add: chan_balanced_def)
    next
      case False
      with that parts(4) show ?thesis by (simp add: alts_ok_def balanced_def chan_balanced_def wq)
    qed
    ultimately have "at_work ?s' L t" by (rule at_work_chans [OF ok refl _ _ wq])
    from at_work_goes_on [OF this after_refl] run Some show ?thesis by simp
  qed
qed

lemma chanfree_settles:
  assumes ok: "at_work s L t" and c: "\<And>ch. c = Some ch \<Longrightarrow> chans s ch \<noteq> None \<and> (\<forall>w. waitq s ch w = [])"
  shows "settles L t (at_once (chanfree c s))"
proof (cases c)
  case None
  with at_work_goes_on [OF ok after_refl] show ?thesis by (simp add: chanfree_def)
next
  case (Some a)
  note parts = lib_ok_parts [OF at_workD(1) [OF ok]]
  let ?s' = "s\<lparr>chans := (chans s)(a := None)\<rparr>"
  from c [OF Some] obtain d where d: "chans s a = Some d" and e: "waitq s a w = []" for w by auto
  have wq: "waitq ?s' ch w = waitq s ch w" for ch w using e [of w] by (auto simp: waitq_def)
  have "chans_ok ?s'" using parts(4) by (simp add: alts_ok_def alt_inv_def chans_ok_def)
  moreover have "chan_balanced ?s' ch f" if "((chans s)(a := None)) ch = Some f" for ch f
    using that parts(4) by (simp add: alts_ok_def balanced_def chan_balanced_def wq split: if_splits)
  ultimately have "at_work ?s' L t" by (rule at_work_chans [OF ok refl _ _ wq])
  from at_work_goes_on [OF this after_refl] d Some show ?thesis by (simp add: chanfree_def cget_def)
qed

end
