(* ===== verification/LibRun.thy ===== *)
theory LibRun
  imports LibChans
begin

text \<open>
  Runs of a program over the library: every step keeps the invariant, so no step can stop the program
  otherwise than by an exit; the order in which tasks get the processor; the start of the program.
\<close>

subsection \<open>Calls\<close>

lemma at_work_proper:
  assumes "lib_ok s None L" "proper t c s"
  shows "at_work s L t" "stack_room 512 t s" "args_ok t c s"
  using assms stack_room_mono [of 512 t s 0] by (simp_all add: at_work_def proper_def)

lemma chan_calls_settle:
  assumes ok: "at_work s L t" and room: "stack_room 512 t s" and args: "args_ok t (Chan_op w k b r1 r2 c v) s"
  shows "settles L t (perform (Chan_op w k b r1 r2 c v) s)"
proof -
  from args obtain ch where "c = Some ch" "chans s ch \<noteq> None" "alts s b = None" "\<not> in_use s None b" "roomy s 1"
    by auto
  with chanop_settles [OF ok room this(2-5), of r1 r2 w v k] show ?thesis
    by (auto simp: chansend_def channbsend_def chanrecv_def channbrecv_def op_code_def split: side.splits)
qed

lemma perform_settles:
  assumes ok: "lib_ok s None L" and pr: "proper t c s"
  shows "settles L t (perform c s)"
proof -
  note w = at_work_proper [OF ok pr]
  show ?thesis
  proof (cases c)
    case Create
    with w(3) show ?thesis by (simp add: taskcreate_settles [OF w(1)])
  next
    case System_task
    then show ?thesis by (simp add: names_settle(1) [OF w(1)])
  next
    case Name
    with w(3) show ?thesis by (simp add: names_settle(2) [OF w(1)])
  next
    case State
    with w(3) show ?thesis by (simp add: names_settle(3) [OF w(1)])
  next
    case Yield
    then show ?thesis by (simp add: taskyield_settles [OF w(1)])
  next
    case Exit_task
    then show ?thesis by (simp add: taskexit_settles [OF w(1)])
  next
    case Exit_all
    then show ?thesis by (simp add: taskexitall_def)
  next
    case Lock
    then show ?thesis by (simp add: qlock_def canqlock_def qlock_settles [OF w(1)])
  next
    case Unlock
    with w(3) show ?thesis by (simp add: qunlock_settles [OF w(1)])
  next
    case Read_lock
    then show ?thesis by (simp add: rlock_def canrlock_def rlock_settles [OF w(1)])
  next
    case Write_lock
    then show ?thesis by (simp add: wlock_def canwlock_def wlock_settles [OF w(1)])
  next
    case Read_unlock
    with w(3) show ?thesis by (simp add: rw_unlock_settles(1) [OF w(1)])
  next
    case Write_unlock
    with w(3) show ?thesis by (simp add: rw_unlock_settles(2) [OF w(1)])
  next
    case Sleep
    with w(3) show ?thesis by (simp add: tasksleep_settles [OF w(1)])
  next
    case Wakeup
    then show ?thesis by (simp only: perform.simps taskwakeup_settles [OF w(1)])
  next
    case Alt
    with w(3) show ?thesis by (simp add: chanalt_settles [OF w(1,2)])
  next
    case Chan_create
    with w(3) show ?thesis by (simp add: chancreate_settles [OF w(1)])
  next
    case Chan_free
    with w(3) show ?thesis by (simp add: chanfree_settles [OF w(1)])
  next
    case Chan_op
    with w(3) show ?thesis by (simp only: chan_calls_settle [OF w(1,2)])
  next
    case Delay
    with w(3) show ?thesis by (simp add: taskdelay_settles [OF w(1)])
  next
    case Fd_wait
    with w(3) show ?thesis by (simp add: fd_calls_settle(1) [OF w(1)])
  next
    case Fd_read
    with w(3) show ?thesis by (simp add: fd_calls_settle(2) [OF w(1)])
  next
    case Fd_write
    with w(3) show ?thesis by (simp only: fd_calls_settle(3) [OF w(1)] args_ok.simps)
  next
    case Fd_turn
    then show ?thesis by (simp add: fdtask_turn_settles [OF w(1)])
  qed
qed

subsection \<open>Going on after a wait\<close>

text \<open>The task that has got the processor leaves its place in the library.\<close>

lemma back_at_work:
  assumes ok: "lib_ok s (Some f) L" and room: "stack_room 0 t s"
  shows "at_work s L t" "resumable s t f" "f = FAlt b \<Longrightarrow> \<not> in_use s None b"
proof -
  note parts = lib_ok_parts [OF ok]
  have r: "taskrunning s = Some t" using room by (simp add: stack_room_def)
  have pl: "place s None u = (if taskrunning s = Some u then None else place s (Some f) u)" for u
    by (simp add: place_def)
  have me: "place s (Some f) t = Some f" by (simp add: place_def r)
  have t: "t \<notin> set (L l)" for l using parts(1) r by (simp add: sys_inv_def off_def)
  show "resumable s t f" using parts(6) r me unfolding places_ok_def by blast
  have "places_ok s None L"
  proof (rule places_ok_step [OF parts(6) pl])
    show "\<exists>g. None = Some g \<and> waits_at l g" if "taskrunning s = Some v" "v \<in> set (L l)" for v l
      using that r t by simp
    show "resumable s u g" if "u \<in> set (L RunQueue) \<or> taskrunning s = Some u" "place s None u = Some g" for u g
    proof -
      from that(2) have "place s (Some f) u = Some g" by (simp add: place_def split: if_splits)
      with that(1) parts(6) show ?thesis unfolding places_ok_def by blast
    qed
  qed simp_all
  with ok have "lib_ok s None L" by (simp add: lib_ok_def)
  with room show "at_work s L t" by (simp add: at_work_def)
  show "\<not> in_use s None b" if "f = FAlt b"
  proof
    assume "in_use s None b"
    then obtain u where u: "place s None u = Some (FAlt b)" by (auto simp: in_use_def)
    then have "u \<noteq> t" "place s (Some f) u = Some (FAlt b)" by (auto simp: pl r split: if_splits)
    with me that parts(6) show False unfolding places_ok_def by blast
  qed
qed

lemma start_settles:
  assumes ok: "at_work s L t" and st: "uint t < 2 ^ 48" "(y, x) = split_ptr t"
  shows "settles L t (resume op later (FStart y x) s)"
proof -
  have "join_ptr y x = t" using join_split_ptr [OF st(1)] by (simp flip: st(2))
  moreover obtain tk where tk: "heap s t = Some tk" using at_workD(5) [OF ok] by (auto simp: off_def)
  ultimately have ts: "taskstart y x s = Inr (startfn tk, startarg tk)"
    by (simp add: taskstart_def kget_def tget_def)
  show ?thesis
  proof (cases "startfn tk")
    case Taskmainstart
    have "plain ''taskmain''" by (simp add: plain_def)
    with names_settle(2) [OF ok] ts Taskmainstart show ?thesis by (simp add: taskmainstart_def)
  next
    case Fdtask
    from tasksystem_ok [OF ok] obtain s1 where s1: "tasksystem s = Inr s1" "at_work s1 L t" by blast
    have "plain ''fdtask''" by (simp add: plain_def)
    from taskname_ok [OF s1(2) this] obtain s2 where s2: "taskname ''fdtask'' [] s1 = Inr s2" "at_work s2 L t"
      by blast
    from taskyield_settles [OF s2(2)] ts Fdtask s1(1) s2(1) show ?thesis by (simp add: fdtask_def)
  next
    case (User n)
    with at_work_goes_on [OF ok after_refl] ts show ?thesis by simp
  qed
qed

lemma alt_resume_settles:
  assumes ok: "at_work s L t" and res: "resumable s t (FAlt b)" and b: "\<not> in_use s None b"
  shows "settles L t (resume op later (FAlt b) s)"
proof -
  from res obtain as i where as: "alts s b = Some as" "as \<noteq> []" "xalt (as ! 0) = Some (b, i)" by auto
  then have "chanalt_resume b s = Done (int i) s" by (simp add: chanalt_resume_def aget_def aarr_def)
  with at_work_goes_on [OF ok after_refl] at_work_goes_on [OF at_work_array [OF ok b, of None] after_refl]
  show ?thesis by (simp add: do_chanop_resume_def)
qed

lemma resume_settles:
  assumes ok: "lib_ok s (Some f) L" and room: "stack_room 0 t s"
  shows "settles L t (resume op later f s)"
proof -
  note b = back_at_work [OF ok room]
  have go: "goes_on L s" using b(1) by (rule at_work_goes_on) simp
  have r: "taskrunning s = Some t" using room by (simp add: stack_room_def)
  show ?thesis
  proof (cases f)
    case (FStart y x)
    with b(1,2) show ?thesis by (simp only: start_settles resumable.simps)
  next
    case FYield
    with go show ?thesis by (simp add: taskyield_resume_def)
  next
    case FExit
    with b(2) show ?thesis by simp
  next
    case FQlock
    with b(2) r go show ?thesis by (simp add: do_qlock_resume_def)
  next
    case FRlock
    with go show ?thesis by (simp add: do_rlock_resume_def)
  next
    case FWlock
    with go show ?thesis by (simp add: do_wlock_resume_def)
  next
    case (FSleep z)
    with go qlock_settles [OF b(1), of _ True] show ?thesis
      by (cases "rzl s z") (simp_all add: tasksleep_resume_def qlock_def)
  next
    case (FAlt d)
    with alt_resume_settles [OF b(1)] b(2,3) show ?thesis by simp
  next
    case FDelay
    with go show ?thesis by (simp add: taskdelay_resume_def)
  next
    case FFdwait
    with go show ?thesis by simp
  qed
qed

subsection \<open>Turns of the scheduler\<close>

lemma turn_ok:
  assumes ok: "lib_ok s None L" and idle: "taskrunning s = None" and p: "sched_pick s = Done (t, f) s'"
  shows "lib_ok (s'\<lparr>sp := a\<rparr>) (Some f) (L(RunQueue := tl (L RunQueue)))" "L RunQueue = t # tl (L RunQueue)"
proof -
  note parts = lib_ok_parts [OF ok]
  let ?L = "L(RunQueue := tl (L RunQueue))"
  from pick_inv [OF parts(1) idle p] have inv: "sys_inv s' ?L" and r: "taskrunning s' = Some t"
    and q: "L RunQueue = t # tl (L RunQueue)" by simp_all
  show "L RunQueue = t # tl (L RunQueue)" by (rule q)
  have "taskcount s \<noteq> 0" using sched_pick_stop(1) [OF parts(2)] p by auto
  moreover have "0 \<le> swapcontext_r s" using parts(1) by (simp add: sys_inv_def)
  ultimately have pk: "fld ctxt (heap s) t = Some f" "picked t s s'"
    using sched_pick_first [OF parts(2) q] p by auto
  have ag: "agree undisp (heap s) (heap s')" using pk(2) by (simp add: picked_def)
  have cx: "fld ctxt (heap s') u = fld ctxt (heap s) u" for u by (rule agree_fld [OF ag]) simp
  note same = more_fields [OF picked_fields(7) [OF pk(2)]]
  have pl: "place s' (Some f) u = place s None u" for u
    using pk(1) r idle by (auto simp: place_def cx)
  have sub: "u \<in> set (?L l) \<Longrightarrow> u \<in> set (L l)" for u l using q by (cases "L RunQueue") (auto split: if_splits)
  have kept: "u \<in> set (L l) \<Longrightarrow> u \<noteq> t \<Longrightarrow> u \<in> set (?L l)" for u l using q by (cases "L RunQueue") auto
  have t: "t \<in> set (L RunQueue)" by (subst q) simp
  have off: "idle s' ?L u \<longleftrightarrow> idle s L u" for u
  proof -
    have "(\<forall>l. u \<notin> set (?L l)) \<and> u \<noteq> t \<longleftrightarrow> (\<forall>l. u \<notin> set (L l))"
      using sub [of u] kept [of u] t by blast
    then show ?thesis unfolding idle_def off_def agree_dom [OF ag] r idle by blast
  qed
  have "locks_ok s' ?L" using parts(3) by (simp add: locks_ok_def rw_abs_def same)
  moreover have "places_ok s' (Some f) ?L"
    unfolding places_ok_def pl
  proof (intro conjI allI ballI impI)
    fix l u assume "u \<in> set (?L l)"
    from place_waiting [OF ok sub [OF this]] show "\<exists>g. place s None u = Some g \<and> waits_at l g" by blast
  next
    fix u g assume u: "u \<in> set (?L RunQueue) \<or> taskrunning s' = Some u" and g: "place s None u = Some g"
    from u t r sub have "u \<in> set (L RunQueue)" by auto
    from place_ready [OF ok this g] show "resumable s' u g" by (rule resumable_cong) (simp_all add: same)
  next
    fix b u v assume "place s None u = Some (FAlt b)" "place s None v = Some (FAlt b)"
    with parts(6) show "u = v" unfolding places_ok_def by blast
  qed
  moreover have "pollers s' = pollers s" "tables_ok s' = tables_ok s"
    by (simp_all add: pollers_def tables_ok_def same)
  ultimately have "lib_ok s' (Some f) ?L"
    by (intro lib_ok_frame [OF ok inv]) (simp_all add: same off cx)
  then show "lib_ok (s'\<lparr>sp := a\<rparr>) (Some f) ?L"
    by (rule lib_ok_own [where m = "mem s'" and al = "alts s'" and z = "rzl s'" and a = a]) simp_all
qed

subsection \<open>Steps\<close>

lemma task_step_ok:
  assumes "task_step x y" "lib_ok (fst x) (snd x) L"
  shows "snd y = None \<and> goes_on L (fst y)"
  using assms
proof (induction rule: task_step.induct)
  case (called t c s s')
  with perform_settles [of s L t c] show ?case by (simp add: settles_def)
next
  case (called_out t c s s1 s')
  with perform_settles [of s L t c] show ?case by (simp add: settles_def)
next
  case (resumed t s op later f s')
  with resume_settles [of s f L t op later] show ?case by simp
next
  case (resumed_out t s op later f s1 s')
  with resume_settles [of s f L t op later] show ?case by simp
next
  case (worked s t s')
  with own_work_ok [of s L s'] goes_onI [OF _ after_refl] show ?case by simp
qed

lemma turn_step_ok:
  assumes "turn_step x y" "lib_ok (fst x) (snd x) L"
  shows "\<exists>t. L RunQueue = t # tl (L RunQueue) \<and> lib_ok (fst y) (snd y) (L(RunQueue := tl (L RunQueue)))"
  using assms
proof (induction rule: turn_step.induct)
  case (turn s t f s' a)
  then have ok: "lib_ok s None L" by simp
  from turn_ok [OF this turn.hyps] show ?case unfolding fst_conv snd_conv by blast
qed

text \<open>
  The tasks that were ready are passed over one per turn, whatever the tasks that run do; \<open>w\<close> are
  the tasks that became ready since.
\<close>

lemma prog_run_ok:
  assumes "prog_run n x y" "lib_ok (fst x) (snd x) L"
  shows "\<exists>L' w. lib_ok (fst y) (snd y) L' \<and> (n \<le> length (L RunQueue) \<longrightarrow> L' RunQueue = drop n (L RunQueue) @ w)"
  using assms
proof (induction rule: prog_run.induct)
  case (here x)
  then show ?case by auto
next
  case (turns n x y z)
  then obtain L' w where L': "lib_ok (fst y) (snd y) L'"
    "n \<le> length (L RunQueue) \<longrightarrow> L' RunQueue = drop n (L RunQueue) @ w" by blast
  from turn_step_ok [OF turns.hyps(2) L'(1)] have
    "lib_ok (fst z) (snd z) (L'(RunQueue := tl (L' RunQueue)))" by blast
  moreover have "tl (L' RunQueue) = drop (Suc n) (L RunQueue) @ w" if "Suc n \<le> length (L RunQueue)"
  proof -
    have "drop n (L RunQueue) \<noteq> []" using that by simp
    with that L'(2) show ?thesis by (simp add: drop_Suc tl_drop)
  qed
  ultimately show ?case by (metis fun_upd_same)
next
  case (moves n x y z)
  then obtain L' w where L': "lib_ok (fst y) (snd y) L'"
    "n \<le> length (L RunQueue) \<longrightarrow> L' RunQueue = drop n (L RunQueue) @ w" by blast
  from task_step_ok [OF moves.hyps(2) L'(1)] obtain L2 where
    "lib_ok (fst z) (snd z) L2" "after L' L2" by (auto simp: goes_on_def)
  with L'(2) show ?case by (auto simp: after_def)
qed

lemma stops_exit:
  assumes "stops x h" "lib_ok (fst x) (snd x) L"
  shows "\<exists>v. h = Exit v"
  using assms
proof (induction rule: stops.induct)
  case (turn_stops s h)
  then have inv: "sys_inv s L" by (simp add: lib_ok_def)
  from next_task [OF this] turn_stops.hyps(2) show ?case
    by (cases "users s = {}"; cases "L RunQueue") auto
next
  case (call_stops t c s h)
  with perform_settles [of s L t c] show ?case by simp
next
  case (call_out_stops t c s s1 h)
  with perform_settles [of s L t c] show ?case by simp
next
  case (resume_stops t s op later f h)
  with resume_settles [of s f L t op later] show ?case by simp
next
  case (resume_out_stops t s op later f s1 h)
  with resume_settles [of s f L t op later] show ?case by simp
qed

subsection \<open>Every task is somewhere\<close>

text \<open>
  Where a task can be: at work or about to go on, in a list, in the poll table, or in the queues of
  channels.
\<close>

datatype whereabouts = Has_processor | In_list lref | In_poll_table | In_channels

fun found :: "'a fdst_scheme \<Rightarrow> (lref \<Rightarrow> addr list) \<Rightarrow> addr \<Rightarrow> whereabouts \<Rightarrow> bool" where
  "found s L u Has_processor = (taskrunning s = Some u)"
| "found s L u (In_list l) = (u \<in> set (L l))"
| "found s L u In_poll_table = (u \<in> polling s)"
| "found s L u In_channels = (\<exists>b as n. parked s L b as n u)"

lemma lib_ok_found:
  assumes ok: "lib_ok s p L" and u: "u \<in> dom (heap s)"
  shows "\<exists>!w. found s L u w"
proof -
  note parts = lib_ok_parts [OF ok]
  have run: "u \<notin> set (L l)" if "taskrunning s = Some u" for l
    using that parts(1) by (auto simp: sys_inv_def off_def)
  have lists: "l = m" if "u \<in> set (L l)" "u \<in> set (L m)" for l m
  proof (rule ccontr)
    assume "l \<noteq> m"
    with that queues_disjoint [of "heap s" "tlists s" L l m u] parts(2) show False by (simp add: kinv_def)
  qed
  have poll: "taskrunning s \<noteq> Some u" "u \<notin> set (L l)" "\<not> parked s L b as n u" if "u \<in> polling s" for l b as n
    using that parts(5) by (auto simp: polls_ok_def pollers_ok_def polling_def off_def parked_def)
  have alt: "taskrunning s \<noteq> Some u" "u \<notin> set (L l)" if "parked s L b as n u" for l b as n
    using that by (auto simp: parked_def off_def)
  have "\<exists>w. found s L u w"
  proof (cases "idle s L u")
    case True
    with parts(7) have "found s L u In_poll_table \<or> found s L u In_channels" by (auto simp: accounted_def)
    then show ?thesis by blast
  next
    case False
    with u have "found s L u Has_processor \<or> (\<exists>l. found s L u (In_list l))" by (auto simp: idle_def off_def)
    then show ?thesis by blast
  qed
  moreover have "v = w" if "found s L u v" "found s L u w" for v w
    using that run lists poll alt by (cases v; cases w) auto
  ultimately show ?thesis by blast
qed

subsection \<open>The start of the program\<close>

text \<open>
  The variables of the library and the locks of the program are zero, there are no tasks and no
  channels.
\<close>

definition boot :: "'a fdst_scheme \<Rightarrow> bool" where
  "boot s \<longleftrightarrow> heap s = (\<lambda>_. None) \<and> tlists s = (\<lambda>_. \<lparr>head = None, tail = None\<rparr>) \<and> taskcount s = 0 \<and>
     taskrunning s = None \<and> nalltask s = 0 \<and> alltask s = [] \<and> sleepingcounted s = 0 \<and> 0 \<le> swapcontext_r s \<and>
     qowner s = (\<lambda>_. None) \<and> readers s = (\<lambda>_. 0) \<and> writer s = (\<lambda>_. None) \<and> chans s = (\<lambda>_. None) \<and>
     \<not> realloc_fails s \<and> length (pollfd s) = MAXFD \<and> length (polltask s) = MAXFD \<and> npollfd s = 0 \<and>
     \<not> startedfdtask s"

lemma boot_inv: "boot s \<Longrightarrow> sys_inv s (\<lambda>_. [])"
  by (simp add: boot_def sys_inv_def kinv_def queues_ok_def dll_def ready_ok_def slots_ok_def fld_def
      sleep_sorted_def counts_ok_def counted_def users_def final_def)

lemma main_ok:
  assumes b: "boot s" and a: "alloc_ok lib p s" "uint p < 2 ^ 48" and m: "main stack lib s = Inr (i, s')"
  shows "lib_ok s' None ((\<lambda>_. [])(RunQueue := [p]))" "taskrunning s' = None"
proof -
  let ?n = "if stack = 0 then 256 * 1024 else stack" and ?L = "(\<lambda>_. [])(RunQueue := [p])"
  have run: "taskcreate Taskmainstart 0 ?n lib s = Inr (i, s')"
    using m by (simp add: main_def Let_def split: if_splits)
  from create_inv [OF boot_inv [OF b] a(1) run] have inv: "sys_inv s' ?L" by simp
  have "kinv s (\<lambda>_. [])" using boot_inv [OF b] by (simp add: sys_inv_def)
  from taskcreate_runs [OF this a(1), of Taskmainstart 0 ?n] run have
    r: "taskrunning s' = None" and ag: "agree undisp ((heap s)(p \<mapsto> fresh_task Taskmainstart 0 ?n p s)) (heap s')"
    and more: "kern.more s' = kern.more s"
    using b by (auto simp: boot_def)
  show "taskrunning s' = None" by (rule r)
  note same = more_fields [OF more]
  have cx: "fld ctxt (heap s') u = (if u = p then Some (FStart (fst (split_ptr p)) (snd (split_ptr p))) else None)" for u
    using agree_fld [OF ag, of ctxt u] b by (simp add: fld_def fresh_task_def boot_def)
  have pl: "place s' None u = fld ctxt (heap s') u" for u by (simp add: place_def r)
  have dom: "dom (heap s') = {p}" using agree_dom [OF ag] b by (simp add: boot_def)
  have wq: "waitq s' ch w = []" for ch w using b by (simp add: waitq_def same boot_def)
  have polls: "pollers s' = []" using b by (simp add: pollers_def same boot_def)
  have "locks_ok s' ?L" using b by (simp add: locks_ok_def rw_abs_def rw_ok_def same boot_def)
  moreover have "alts_ok s' ?L"
    using b by (simp add: alts_ok_def alt_inv_def chans_ok_def entries_ok_def blocked_def wq balanced_def same boot_def)
  moreover have "polls_ok s' ?L"
    using b by (simp add: polls_ok_def pollers_ok_def polling_def polls) (simp add: tables_ok_def same boot_def)
  moreover have "places_ok s' None ?L"
    using a(2) by (simp add: places_ok_def pl cx r)
  moreover have "accounted s' ?L" by (auto simp: accounted_def idle_def off_def dom)
  ultimately show "lib_ok s' None ?L" using inv by (simp add: lib_ok_def)
qed

end
