(* ===== verification/SystemSpec.thy ===== *)
theory SystemSpec
  imports LibRun Demo
begin

text \<open>
  The properties of the library as a whole, under any program that uses it properly: that it never
  stops the program by a failure, that no task is lost, when a program ends, and that a ready task
  gets to run.
\<close>

definition demo_boot :: fdst where
  "demo_boot = (demo [])\<lparr>heap := (\<lambda>_. None), taskcount := 0, taskrunning := None, alltask := [],
     nalltask := 0, startedfdtask := False\<rparr>"

abbreviation demo_lib :: libc where
  "demo_lib \<equiv> \<lparr>malloc_r = Some 4000, getcontext_r = 0, realloc_ok = True\<rparr>"

lemma demo_boot_ok: "boot demo_boot" "alloc_ok demo_lib 4000 demo_boot" "uint (4000 :: addr) < 2 ^ 48"
  by (simp_all add: boot_def alloc_ok_def demo_boot_def demo_def demo_lists_def final_def)

lemma demo_main: "\<exists>i s1. main 0 demo_lib demo_boot = Inr (i, s1) \<and> users s1 = {4000}"
proof -
  have "kinv demo_boot (\<lambda>_. [])" using boot_inv [OF demo_boot_ok(1)] by (simp add: sys_inv_def)
  from taskcreate_runs [OF this demo_boot_ok(2), of Taskmainstart 0 "256 * 1024"] obtain i s1 where
    s1: "main 0 demo_lib demo_boot = Inr (i, s1)"
    and ag: "agree undisp ((heap demo_boot)(4000 \<mapsto> fresh_task Taskmainstart 0 (256 * 1024) 4000 demo_boot)) (heap s1)"
    by (auto simp: main_def runs_iff)
  have "fld system (heap s1) u = (if u = 4000 then Some False else None)" for u
    using agree_fld [OF ag, of system u] by (simp add: fld_def fresh_task_def demo_boot_def)
  with s1 show ?thesis by (auto simp: users_def)
qed

text \<open>The first turn of that program.\<close>

lemma demo_turn:
  assumes m: "main 0 demo_lib demo_boot = Inr (i, s1)" and us: "users s1 = {4000}"
  shows "\<exists>f s2. prog_run 1 (s1, None) (s2, Some f) \<and> 4000 \<in> dom (heap s2)"
proof -
  note ok = main_ok [OF demo_boot_ok m]
  from ok(1) have "sys_inv s1 ((\<lambda>_. [])(RunQueue := [4000]))" by (simp add: lib_ok_def)
  from next_task(3) [OF this] us obtain f s2 where p: "sched_pick s1 = Done (4000, f) s2" by auto
  have t: "turn_step (s1, None) (s2\<lparr>sp := 30000\<rparr>, Some f)" by (rule turn_step.turn [OF ok(2) p])
  then have "prog_run (Suc 0) (s1, None) (s2\<lparr>sp := 30000\<rparr>, Some f)" by (rule prog_run.turns [OF prog_run.here])
  moreover note lib_ok_parts(1) [OF turn_ok(1) [OF ok p, of 30000]]
  moreover have "taskrunning s2 = Some 4000"
    using pick_inv [OF _ ok(2) p] ok(1) by (auto simp: lib_ok_def)
  ultimately have "4000 \<in> dom (heap s2)" by (auto simp: sys_inv_def off_def)
  with \<open>prog_run (Suc 0) _ _\<close> show ?thesis unfolding One_nat_def
    by (intro exI [of _ f] exI [of _ "s2\<lparr>sp := 30000\<rparr>"]) simp
qed

text \<open>
  C1: the library is safe. Start a program with \<open>main\<close> and let it make any steps: its tasks call the
  functions of \<open>task.h\<close> in any order, wait, are chosen by the scheduler and go on, and change their own
  memory, as long as they respect what the functions demand (\<open>proper\<close>). Whatever the program does
  next, the library can end it only by an exit: no assertion of the library fails, it follows no
  invalid pointer, no lock reports a wrong owner, and no call runs for ever.
\<close>

theorem library_safe:
  assumes "boot s0" "alloc_ok lib p s0" "uint p < 2 ^ 48" "main stack lib s0 = Inr (i, s1)"
    and "prog_run n (s1, None) x"
  shows "{h. stops x h} \<subseteq> range Exit"
proof -
  from main_ok(1) [OF assms(1-4)] prog_run_ok [OF assms(5)] obtain L where
    "lib_ok (fst x) (snd x) L" by auto
  with stops_exit show ?thesis by blast
qed

theorem library_safe_witness:
  "\<exists>i s1 x. main 0 demo_lib demo_boot = Inr (i, s1) \<and> prog_run 1 (s1, None) x \<and> {h. stops x h} \<subseteq> range Exit"
proof -
  obtain i s1 where m: "main 0 demo_lib demo_boot = Inr (i, s1)" "users s1 = {4000}" using demo_main by blast
  from demo_turn [OF this] obtain f s2 where run: "prog_run 1 (s1, None) (s2, Some f)" by blast
  from library_safe [OF demo_boot_ok m(1) run] m(1) run show ?thesis by blast
qed

text \<open>
  C2: the program ends when it should. Whenever the scheduler has to choose, the counter \<open>taskcount\<close> is
  0 exactly when no task is left that is not a system task, and then the program exits with the status
  of the last task that exited; when such tasks are left but none is ready, it reports the deadlock
  with status 1, and rightly so: every task waits in a list of a lock, of a rendezvous point or of
  sleeping tasks, in the poll table or in the queues of channels; otherwise the first ready task gets
  the processor.
\<close>

theorem program_ends:
  assumes "boot s0" "alloc_ok lib p s0" "uint p < 2 ^ 48" "main stack lib s0 = Inr (i, s1)"
    and "prog_run n (s1, None) (s, None)" "taskrunning s = None"
  shows "\<exists>L. kinv s L \<and> (taskcount s = 0 \<longleftrightarrow> users s = {}) \<and>
    (if users s = {} then sched_pick s = Halted (Exit (taskexitval s))
     else case L RunQueue of
        [] \<Rightarrow> sched_pick s = Halted (Exit 1) \<and>
          dom (heap s) \<subseteq> {u. \<exists>w. found s L u w \<and> w \<noteq> Has_processor \<and> w \<noteq> In_list RunQueue}
      | t # ts \<Rightarrow> \<exists>f s'. sched_pick s = Done (t, f) s' \<and> taskrunning s' = Some t)"
proof -
  from main_ok(1) [OF assms(1-4)] prog_run_ok [OF assms(5)] obtain L where
    ok: "lib_ok s None L" by fastforce
  note parts = lib_ok_parts [OF ok]
  have "dom (heap s) \<subseteq> {u. \<exists>w. found s L u w \<and> w \<noteq> Has_processor \<and> w \<noteq> In_list RunQueue}"
    if "L RunQueue = []"
  proof
    fix u assume "u \<in> dom (heap s)"
    with lib_ok_found [OF ok] obtain w where "found s L u w" by blast
    moreover from this that assms(6) have "w \<noteq> Has_processor" "w \<noteq> In_list RunQueue" by auto
    ultimately show "u \<in> {u. \<exists>w. found s L u w \<and> w \<noteq> Has_processor \<and> w \<noteq> In_list RunQueue}" by blast
  qed
  then show ?thesis
    using count_zero [OF parts(1)] next_task [OF parts(1)] parts(2)
    by (intro exI [of _ L]) (cases "users s = {}"; cases "L RunQueue"; simp)
qed

theorem program_ends_witness:
  "\<exists>i s1. main 0 demo_lib demo_boot = Inr (i, s1) \<and> (\<exists>t f s'. sched_pick s1 = Done (t, f) s')"
proof -
  obtain i s1 where m: "main 0 demo_lib demo_boot = Inr (i, s1)" "users s1 = {4000}" using demo_main by blast
  note ok = main_ok [OF demo_boot_ok m(1)]
  have "sched_pick s1 \<noteq> Halted (Exit 1)"
    using next_task(3) [of s1 "(\<lambda>_. [])(RunQueue := [4000])" 4000 "[]"] ok(1) m(2) by (auto simp: lib_ok_def)
  with program_ends [OF demo_boot_ok m(1) prog_run.here ok(2)] m(2)
  have "\<exists>t f s'. sched_pick s1 = Done (t, f) s'"
  proof (elim exE conjE)
    fix L
    assume "if users s1 = {} then sched_pick s1 = Halted (Exit (taskexitval s1))
     else case L RunQueue of
        [] \<Rightarrow> sched_pick s1 = Halted (Exit 1) \<and>
          dom (heap s1) \<subseteq> {u. \<exists>w. found s1 L u w \<and> w \<noteq> Has_processor \<and> w \<noteq> In_list RunQueue}
      | t # ts \<Rightarrow> \<exists>f s'. sched_pick s1 = Done (t, f) s' \<and> taskrunning s' = Some t"
      and "sched_pick s1 \<noteq> Halted (Exit 1)" "users s1 = {4000}"
    then show ?thesis by (cases "L RunQueue") auto
  qed
  with m(1) show ?thesis by blast
qed

text \<open>
  C3: no task is lost. At every moment of every such run, each live task has the processor, or is in
  exactly one list, or waits for a descriptor in the poll table, or waits in the queues of channels with
  an array of operations, and only one of these.
\<close>

theorem no_task_lost:
  assumes "boot s0" "alloc_ok lib p s0" "uint p < 2 ^ 48" "main stack lib s0 = Inr (i, s1)"
    and "prog_run n (s1, None) (s, f)"
  shows "\<exists>L. kinv s L \<and> dom (heap s) \<subseteq> {u. \<exists>!w. found s L u w}"
proof -
  from main_ok(1) [OF assms(1-4)] prog_run_ok [OF assms(5)] obtain L where
    ok: "lib_ok s f L" by fastforce
  with lib_ok_found [OF ok] lib_ok_parts(2) [OF ok] show ?thesis by blast
qed

theorem no_task_lost_witness:
  "\<exists>i s1 f s. main 0 demo_lib demo_boot = Inr (i, s1) \<and> prog_run 1 (s1, None) (s, f) \<and>
     (\<exists>L w. kinv s L \<and> found s L 4000 w)"
proof -
  obtain i s1 where m: "main 0 demo_lib demo_boot = Inr (i, s1)" "users s1 = {4000}" using demo_main by blast
  from demo_turn [OF this] obtain f s2 where run: "prog_run 1 (s1, None) (s2, Some f)" and d: "4000 \<in> dom (heap s2)"
    by blast
  from no_task_lost [OF demo_boot_ok m(1) run] d m(1) run show ?thesis by blast
qed

text \<open>
  C4: a ready task is not starved. If \<open>k\<close> tasks are ahead of a task in the run queue, then after \<open>k\<close>
  more turns of the scheduler, whatever the tasks that run do in between, it is the next task to get
  the processor, unless all tasks that are not system tasks have exited.
\<close>

theorem ready_task_runs:
  assumes "lib_ok s q L" "k < length (L RunQueue)" "t = L RunQueue ! k"
    and "prog_run k (s, q) (s', None)" "taskrunning s' = None"
  shows "if users s' = {} then sched_pick s' = Halted (Exit (taskexitval s'))
    else \<exists>f s''. sched_pick s' = Done (t, f) s'' \<and> taskrunning s'' = Some t"
proof -
  from prog_run_ok [OF assms(4)] assms(1,2) obtain L' w where
    L': "lib_ok s' None L'" "L' RunQueue = drop k (L RunQueue) @ w" by fastforce
  from L'(2) have q: "L' RunQueue = t # drop (Suc k) (L RunQueue) @ w"
    using assms(2,3) by (simp flip: Cons_nth_drop_Suc)
  from next_task(1,3) [OF lib_ok_parts(1) [OF L'(1)]] q show ?thesis by simp
qed

text \<open>Three ready tasks; the first is chosen, goes on and yields.\<close>

abbreviation demo_queue :: "lref \<Rightarrow> addr list" where
  "demo_queue \<equiv> demo_lists [(RunQueue, [1000, 2000, 3000])]"

abbreviation demo_three :: fdst where
  "demo_three \<equiv> (demo [(RunQueue, [1000, 2000, 3000])])\<lparr>taskrunning := None\<rparr>"

lemma demo_three_ok: "lib_ok demo_three None demo_queue"
proof -
  let ?qs = "[(RunQueue, [1000, 2000, 3000])] :: (lref \<times> addr list) list"
  have L: "demo_queue RunQueue = [1000, 2000, 3000]" "\<And>l. l \<noteq> RunQueue \<Longrightarrow> demo_queue l = []"
    by (simp_all add: demo_lists_def)
  have "kinv (demo ?qs) demo_queue"
    by (rule demo_kinv) (auto simp: queues_ok_def dll_def demo_defs final_def)
  then have k: "kinv demo_three demo_queue" by (simp add: kinv_def ready_ok_def slots_ok_def)
  have us: "users demo_three = {1000, 2000, 3000}"
    by (auto simp: users_def demo_def demo_task_def fld_def split: if_splits)
  have x: "fld exiting (heap demo_three) t \<noteq> Some True" for t by (simp add: demo_def demo_task_def fld_def)
  have c: "taskcount demo_three = 3" "sleepingcounted demo_three = 0" "0 \<le> swapcontext_r demo_three"
    by (simp_all add: demo_def)
  have "sys_inv demo_three demo_queue"
    using k x c us by (simp add: sys_inv_def sleep_sorted_def L counts_ok_def counted_def)
  moreover have "locks_ok demo_three demo_queue"
    by (simp add: locks_ok_def rw_abs_def rw_ok_def L) (simp add: demo_def)
  moreover have "alts_ok demo_three demo_queue"
    by (simp add: alts_ok_def alt_inv_def chans_ok_def entries_ok_def blocked_def balanced_def waitq_def demo_def)
  moreover have "polls_ok demo_three demo_queue"
    by (simp add: polls_ok_def pollers_ok_def polling_def pollers_def tables_ok_def demo_def)
  moreover have "places_ok demo_three None demo_queue"
    unfolding places_ok_def
    by (auto simp: place_def fld_def demo_def demo_task_def demo_lists_def split: if_splits)
  moreover have "accounted demo_three demo_queue"
  proof -
    have "u \<in> set (demo_queue RunQueue)" if "u \<in> dom (heap demo_three)" for u
      using that by (auto simp: L demo_def split: if_splits)
    then show ?thesis unfolding accounted_def idle_def off_def by blast
  qed
  ultimately show ?thesis by (simp add: lib_ok_def)
qed

lemma demo_yields:
  "\<exists>s'. prog_run 1 (demo_three, None) (s', None) \<and> taskrunning s' = None \<and> users s' \<noteq> {}"
proof -
  note inv = lib_ok_parts(1,2) [OF demo_three_ok]
  have L: "demo_queue RunQueue = [1000, 2000, 3000]" by (simp add: demo_lists_def)
  have c: "taskcount demo_three \<noteq> 0" "0 \<le> swapcontext_r demo_three" by (simp_all add: demo_def)
  from sched_pick_first [OF inv(2) L c] obtain f s1 where p: "sched_pick demo_three = Done (1000, f) s1"
    "fld ctxt (heap demo_three) 1000 = Some f" "picked 1000 demo_three s1" by blast
  from p(2) have f: "f = FYield 0" by (simp add: demo_def demo_task_def fld_def)
  let ?s2 = "s1\<lparr>sp := 30000\<rparr>"
  have t: "turn_step (demo_three, None) (?s2, Some f)" by (rule turn_step.turn [OF _ p(1)]) simp
  from turn_ok(1) [OF demo_three_ok _ p(1), of 30000] have
    ok2: "lib_ok ?s2 (Some f) (demo_queue(RunQueue := tl (demo_queue RunQueue)))" by simp
  have g: "fld h (heap ?s2) u = fld h (heap demo_three) u" if "\<And>x. h (undisp x) = h x" for h :: "task \<Rightarrow> 'b" and u
  proof (rule agree_fld)
    show "agree undisp (heap demo_three) (heap ?s2)" using p(3) by (simp add: picked_def)
  qed (rule that)
  have "fld stk (heap ?s2) 1000 = Some 1400" using g [of stk 1000] by (simp add: demo_def demo_task_def fld_def)
  then have room: "stack_room 512 1000 ?s2"
    using picked_fields [OF p(3)] unfolding stack_room_def by (simp add: demo_def)
  then have room0: "stack_room 0 1000 ?s2" by (rule stack_room_mono) simp
  have go: "task_step (?s2, Some f) (?s2, None)"
    by (rule task_step.resumed [OF room0]) (simp add: f taskyield_resume_def)
  have w: "at_work ?s2 (demo_queue(RunQueue := tl (demo_queue RunQueue))) 1000"
    by (rule back_at_work(1) [OF ok2 room0])
  from taskyield_runs [OF at_workD(4,5) [OF w] room0] obtain s3 where
    s3: "taskyield ?s2 = Blocked s3" "kblock 1000 (FYield (tasknswitch ?s2)) ?s2 s3" by blast
  from taskyield_settles [OF w] s3(1) obtain s4 where bk: "sched_back 1000 s3 = Inr s4" by (auto simp: runs_iff)
  have "proper 1000 Yield ?s2" using room by (simp add: proper_def)
  from task_step.called_out [OF this _ bk] s3(1) have out: "task_step (?s2, None) (s4, None)" by simp
  from prog_run.moves [OF prog_run.moves [OF prog_run.turns [OF prog_run.here t] go] out]
  have run: "prog_run 1 (demo_three, None) (s4, None)" by simp
  have h: "fld v (heap s3) 1000 = fld v (heap ?s2) 1000" if "\<And>x. v (unctx x) = v x" for v :: "task \<Rightarrow> 'b"
    using agree_fld [OF kblock_heap [OF s3(2)], of v 1000] that by simp
  have e: "fld exiting (heap s3) 1000 = Some False" "fld system (heap s3) 1000 = Some False"
    using h [of exiting] h [of system] g [of exiting 1000] g [of system 1000]
    by (simp_all add: demo_def demo_task_def fld_def)
  then have "s4 = s3\<lparr>taskrunning := None\<rparr>"
    using bk by (auto simp: sched_back_def kget_def tget_def fld_def Let_def)
  with e(2) run show ?thesis by (intro exI [of _ s4]) (auto simp: users_def)
qed

theorem ready_task_runs_witness:
  "\<exists>s' f s''. prog_run 1 (demo_three, None) (s', None) \<and> sched_pick s' = Done (2000, f) s''"
proof -
  from demo_yields obtain s' where s': "prog_run 1 (demo_three, None) (s', None)" "taskrunning s' = None"
    "users s' \<noteq> {}" by blast
  have L: "demo_queue RunQueue = [1000, 2000, 3000]" by (simp add: demo_lists_def)
  from ready_task_runs [OF demo_three_ok _ _ s'(1,2), of 2000] s' show ?thesis by (auto simp: L)
qed

end
