(* ===== verification/Primes.thy ===== *)
theory Primes
  imports Prelude
begin

text \<open>
  The example program \<open>primes.c\<close>: a sieve of tasks connected by channels. The main task sends
  2, 3, 4, ... into the first channel; each prime task takes the first number it receives as its
  prime, prints it, starts the next task, and passes on the numbers that its prime does not divide.

  The channels have no buffer (the global \<open>buffer\<close> is 0), so a number passes from a sender to a receiver
  in one step in which both take part; which pair moves next is left open, so that all schedules are
  covered. Numbers are C \<open>int\<close>s, taken to be in range.
\<close>

subsection \<open>The tasks\<close>

text \<open>
  Where a task \<open>primetask\<close> is: in its first \<open>chanrecvul\<close>, in that of the loop, or in \<open>chansendul\<close> with a
  number \<open>i\<close>; \<open>p\<close> is its prime.
\<close>

datatype ptask = First | Loop int | Pass int int

text \<open>
  What the task at the head of a chain does with a number that it receives: it goes on with the
  chain behind it, which may be longer, and with numbers printed; \<open>None\<close> is \<open>taskexitall(0)\<close>.
\<close>

fun receive :: "int \<Rightarrow> bool \<Rightarrow> int \<Rightarrow> ptask list \<Rightarrow> (ptask list \<times> int list) option" where
  "receive goal quiet i (First # ts) =
     (if i > goal then None
      else Some (Loop i # First # ts, if \<not> quiet then [i] else []))"
| "receive goal quiet i (Loop p # ts) =
     Some ((if i mod p \<noteq> 0 then Pass p i else Loop p) # ts, [])"
| "receive goal quiet i ts = Some (ts, [])"

definition receives :: "ptask list \<Rightarrow> bool" where
  "receives ts \<longleftrightarrow> (case ts of First # _ \<Rightarrow> True | Loop p # _ \<Rightarrow> True | _ \<Rightarrow> False)"

text \<open>
  The state of the program: the number that the main task is sending, the chain of tasks, what has
  been printed, and whether the program has ended.
\<close>

record sieve =
  sending :: int
  chain :: "ptask list"
  printed :: "int list"
  ended :: bool

definition primes_main :: sieve where
  "primes_main = \<lparr>sending = 2, chain = [First], printed = [], ended = False\<rparr>"

definition handed :: "ptask list \<Rightarrow> int \<Rightarrow> sieve \<Rightarrow> (ptask list \<times> int list) option \<Rightarrow> sieve" where
  "handed before n s r =
     (case r of
        None \<Rightarrow> s\<lparr>ended := True\<rparr>
      | Some (ts, out) \<Rightarrow> s\<lparr>sending := n, chain := before @ ts, printed := printed s @ out\<rparr>)"

inductive primes_step :: "int \<Rightarrow> bool \<Rightarrow> sieve \<Rightarrow> sieve \<Rightarrow> bool" for goal :: int and quiet :: bool where
  from_main: "\<not> ended s \<Longrightarrow> receives (chain s) \<Longrightarrow>
     primes_step goal quiet s (handed [] (sending s + 1) s (receive goal quiet (sending s) (chain s)))"
| from_task: "\<not> ended s \<Longrightarrow> chain s = before @ Pass p i # ts \<Longrightarrow> receives ts \<Longrightarrow>
     primes_step goal quiet s (handed (before @ [Loop p]) (sending s) s (receive goal quiet i ts))"

subsection \<open>Primes\<close>

definition is_prime :: "int \<Rightarrow> bool" where
  "is_prime q \<longleftrightarrow> 2 \<le> q \<and> (\<forall>d \<in> {2..<q}. \<not> d dvd q)"

text \<open>A number survives the primes \<open>ps\<close> when none of them divides it.\<close>

definition survives :: "int list \<Rightarrow> int \<Rightarrow> bool" where
  "survives ps x \<longleftrightarrow> 2 \<le> x \<and> (\<forall>q \<in> set ps. \<not> q dvd x)"

text \<open>\<open>sifted ps\<close>: each number of the list is the least that survives those before it.\<close>

definition least_survivor :: "int list \<Rightarrow> int \<Rightarrow> bool" where
  "least_survivor ps p \<longleftrightarrow> survives ps p \<and> (\<forall>x. survives ps x \<longrightarrow> p \<le> x)"

definition sifted :: "int list \<Rightarrow> bool" where
  "sifted ps \<longleftrightarrow> (\<forall>k < length ps. least_survivor (take k ps) (ps ! k))"

lemma sifted_snoc: "sifted (ps @ [p]) \<longleftrightarrow> sifted ps \<and> least_survivor ps p"
  by (auto simp: sifted_def nth_append less_Suc_eq)

lemma prime_factor: "2 \<le> x \<Longrightarrow> \<exists>q. is_prime q \<and> q dvd x"
proof (induction "nat x" arbitrary: x rule: less_induct)
  case less
  show ?case
  proof (cases "is_prime x")
    case False
    with less.prems obtain d where d: "2 \<le> d" "d < x" "d dvd x" by (auto simp: is_prime_def)
    with less.hyps [of d] obtain q where "is_prime q" "q dvd d" by auto
    with d(3) show ?thesis by (blast intro: dvd_trans)
  qed auto
qed

lemma prime_divides_prime: "is_prime p \<Longrightarrow> is_prime q \<Longrightarrow> p dvd q \<Longrightarrow> p = q"
  using zdvd_imp_le [of p q] by (force simp: is_prime_def)

text \<open>Such a list consists of primes, in increasing order and without gaps.\<close>

lemma sifted_primes:
  "sifted ps \<Longrightarrow> (\<forall>p \<in> set ps. is_prime p) \<and> sorted_wrt (<) ps \<and>
     (\<forall>q. is_prime q \<longrightarrow> (\<exists>p \<in> set ps. q \<le> p) \<longrightarrow> q \<in> set ps)"
proof (induction ps rule: rev_induct)
  case (snoc p ps)
  then have ps: "\<forall>p \<in> set ps. is_prime p" "sorted_wrt (<) ps"
    "\<And>q u. is_prime q \<Longrightarrow> u \<in> set ps \<Longrightarrow> q \<le> u \<Longrightarrow> q \<in> set ps"
    and p: "survives ps p" "\<And>x. survives ps x \<Longrightarrow> p \<le> x"
    by (auto simp: sifted_snoc least_survivor_def)
  have fresh: "is_prime q \<Longrightarrow> q \<notin> set ps \<Longrightarrow> survives ps q" for q
    using ps(1) prime_divides_prime [of _ q] by (auto simp: survives_def) (simp add: is_prime_def)
  have prime: "is_prime p"
  proof -
    from p(1) have "2 \<le> p" by (simp add: survives_def)
    with prime_factor obtain q where q: "is_prime q" "q dvd p" by blast
    with p(1) have "q \<notin> set ps" by (auto simp: survives_def)
    with fresh q(1) p(2) have "p \<le> q" by blast
    with zdvd_imp_le [OF q(2)] \<open>2 \<le> p\<close> q(1) show ?thesis by auto
  qed
  have "p \<notin> set ps" using p(1) by (auto simp: survives_def)
  with ps(3) prime have above: "\<forall>u \<in> set ps. u < p" by (meson not_le)
  moreover have "q \<in> set (ps @ [p])" if "is_prime q" "\<exists>u \<in> set (ps @ [p]). q \<le> u" for q
  proof (rule ccontr)
    assume "q \<notin> set (ps @ [p])"
    then have q: "q \<notin> set ps" "q \<noteq> p" by auto
    with fresh that(1) p(2) have "p < q" by fastforce
    with that above show False by force
  qed
  ultimately show ?case using ps(1,2) prime by (auto simp: sorted_wrt_append)
qed simp

subsection \<open>The chain\<close>

text \<open>
  \<open>sieving f ps ts\<close>: the chain \<open>ts\<close> behind the primes \<open>ps\<close> has received the numbers below \<open>f\<close> that
  survive \<open>ps\<close>, and no others; a task that holds \<open>i\<close> has passed on those below \<open>i\<close>, and none is
  between \<open>i\<close> and \<open>f\<close>.
\<close>

fun sieving :: "int \<Rightarrow> int list \<Rightarrow> ptask list \<Rightarrow> bool" where
  "sieving f ps [First] \<longleftrightarrow> (\<forall>x < f. \<not> survives ps x)"
| "sieving f ps (Loop p # ts) \<longleftrightarrow> least_survivor ps p \<and> p < f \<and> sieving f (ps @ [p]) ts"
| "sieving f ps (Pass p i # ts) \<longleftrightarrow> least_survivor ps p \<and> p < i \<and> i < f \<and> survives (ps @ [p]) i \<and>
     (\<forall>x. i < x \<longrightarrow> x < f \<longrightarrow> \<not> survives (ps @ [p]) x) \<and> sieving i (ps @ [p]) ts"
| "sieving f ps ts \<longleftrightarrow> False"

fun prime_of :: "ptask \<Rightarrow> int list" where
  "prime_of First = []"
| "prime_of (Loop p) = [p]"
| "prime_of (Pass p i) = [p]"

abbreviation primes_of :: "ptask list \<Rightarrow> int list" where
  "primes_of ts \<equiv> concat (map prime_of ts)"

lemma sieving_sifted: "sieving f ps ts \<Longrightarrow> sifted ps \<Longrightarrow> sifted (ps @ primes_of ts)"
proof (induction f ps ts rule: sieving.induct)
  case (2 f ps p ts)
  then have "sifted ((ps @ [p]) @ primes_of ts)" by (simp only: sieving.simps sifted_snoc simp_thms)
  then show ?case by simp
next
  case (3 f ps p i ts)
  then have "sifted ((ps @ [p]) @ primes_of ts)" by (simp only: sieving.simps sifted_snoc simp_thms)
  then show ?case by simp
qed auto

text \<open>Numbers that do not survive are not seen by the chain.\<close>

lemma survives_snoc: "survives (ps @ [p]) x \<longleftrightarrow> survives ps x \<and> \<not> p dvd x"
  by (auto simp: survives_def)

lemma sieving_skip:
  "sieving f ps ts \<Longrightarrow> f \<le> g \<Longrightarrow> \<forall>x. f \<le> x \<longrightarrow> x < g \<longrightarrow> \<not> survives ps x \<Longrightarrow> sieving g ps ts"
proof (induction f ps ts rule: sieving.induct)
  case (1 f ps)
  then show ?case by (auto simp: not_less) (meson not_less)
next
  case (3 f ps p i ts)
  have "\<not> survives (ps @ [p]) x" if "i < x" "x < g" for x
    using 3 that by (cases "x < f") (auto simp: survives_snoc)
  with 3 show ?case by auto
qed (auto simp: survives_snoc)

text \<open>Handing over the next survivor.\<close>

lemma receive_sieving:
  assumes "sieving f ps ts" "survives ps f" "receives ts" "receive goal quiet f ts = Some (ts', out)"
  shows "sieving (f + 1) ps ts' \<and>
    primes_of ts' = primes_of ts @ (if ts = [First] then [f] else []) \<and>
    out = (if ts = [First] \<and> \<not> quiet then [f] else []) \<and> (ts = [First] \<longrightarrow> f \<le> goal)"
proof -
  from assms(3) consider us where "ts = First # us" | p us where "ts = Loop p # us"
    by (auto simp: receives_def split: list.splits ptask.splits)
  then show ?thesis
  proof cases
    case 1
    with assms(1) have us: "us = []" by (cases us) auto
    from 1 us assms(4) have r: "f \<le> goal" "ts' = [Loop f, First]" "out = (if quiet then [] else [f])"
      by (auto split: if_splits)
    have "least_survivor ps f"
      using assms(1,2) 1 us by (auto simp: least_survivor_def) (meson not_less)
    moreover have "\<not> survives (ps @ [f]) x" if "x < f + 1" for x
      using assms(1) 1 us that by (cases "x = f") (auto simp: survives_snoc)
    ultimately show ?thesis using 1 us r by auto
  next
    case (2 p us)
    with assms(1) have s: "least_survivor ps p" "p < f" "sieving f (ps @ [p]) us" by auto
    show ?thesis
    proof (cases "f mod p = 0")
      case True
      then have "\<not> survives (ps @ [p]) f" by (auto simp: survives_snoc)
      then have "sieving (f + 1) (ps @ [p]) us"
        using sieving_skip [OF s(3), of "f + 1"] by (metis add.commute zle_add1_eq_le not_less order_antisym_conv less_add_one less_le)
      with True 2 s assms(4) show ?thesis by auto
    next
      case False
      then have "survives (ps @ [p]) f" using assms(2) by (auto simp: survives_snoc dvd_eq_mod_eq_0)
      with False 2 s assms(4) show ?thesis by auto
    qed
  qed
qed

lemma sieving_first: "ts \<noteq> [] \<Longrightarrow> \<not> sieving f ps (First # ts)"
  by (cases ts) auto

lemma sieving_handed:
  "sieving f ps (before @ Pass p i # ts) \<Longrightarrow> receives ts \<Longrightarrow> receive goal quiet i ts = Some (ts', out) \<Longrightarrow>
     sieving f ps (before @ Loop p # ts')"
proof (induction before arbitrary: f ps)
  case Nil
  then have s: "least_survivor ps p" "p < i" "i < f" "survives (ps @ [p]) i" "sieving i (ps @ [p]) ts"
    "\<forall>x. i < x \<longrightarrow> x < f \<longrightarrow> \<not> survives (ps @ [p]) x" by auto
  from receive_sieving [OF s(5,4) Nil(2,3)] have "sieving (i + 1) (ps @ [p]) ts'" by simp
  moreover have "\<forall>x. i + 1 \<le> x \<longrightarrow> x < f \<longrightarrow> \<not> survives (ps @ [p]) x" using s(6) by (simp add: add1_zle_eq)
  moreover have "i + 1 \<le> f" using s(3) by simp
  ultimately have "sieving f (ps @ [p]) ts'" by (blast intro: sieving_skip)
  with s show ?case by simp
next
  case (Cons t before)
  note IH = Cons.IH [OF _ Cons.prems(2,3)]
  show ?case
  proof (cases t)
    case First
    with Cons.prems(1) show ?thesis by (simp add: sieving_first)
  next
    case (Loop q)
    with Cons.prems(1) IH [of f "ps @ [q]"] show ?thesis by simp
  next
    case (Pass q j)
    with Cons.prems(1) IH [of j "ps @ [q]"] show ?thesis by simp
  qed
qed

text \<open>The number that the last task receives first is the next prime.\<close>

lemma sieving_last:
  "sieving f ps (before @ [Pass p i, First]) \<Longrightarrow> least_survivor (ps @ primes_of before @ [p]) i"
proof (induction before arbitrary: f ps)
  case Nil
  then show ?case by (auto simp: least_survivor_def) (meson not_less)
next
  case (Cons t before)
  show ?case
  proof (cases t)
    case First
    with Cons.prems show ?thesis by (simp add: sieving_first)
  next
    case (Loop q)
    with Cons.prems Cons.IH [of f "ps @ [q]"] show ?thesis by simp
  next
    case (Pass q j)
    with Cons.prems Cons.IH [of j "ps @ [q]"] show ?thesis by simp
  qed
qed

lemma sieving_suffix: "sieving f ps (before @ ts) \<Longrightarrow> ts \<noteq> [] \<Longrightarrow> \<exists>g qs. sieving g qs ts"
proof (induction before arbitrary: f ps)
  case (Cons t before)
  show ?case
  proof (cases t)
    case First
    with Cons.prems show ?thesis by (simp add: sieving_first)
  next
    case (Loop q)
    with Cons.prems show ?thesis using Cons.IH [of f "ps @ [q]"] by simp
  next
    case (Pass q j)
    with Cons.prems show ?thesis using Cons.IH [of j "ps @ [q]"] by simp
  qed
qed auto

subsection \<open>The program\<close>

definition sieve_inv :: "int \<Rightarrow> bool \<Rightarrow> sieve \<Rightarrow> bool" where
  "sieve_inv goal quiet s \<longleftrightarrow> 2 \<le> sending s \<and> sieving (sending s) [] (chain s) \<and>
     printed s = (if quiet then [] else primes_of (chain s)) \<and> (\<forall>p \<in> set (primes_of (chain s)). p \<le> goal) \<and>
     (ended s \<longrightarrow> (\<exists>p > goal. least_survivor (primes_of (chain s)) p))"

lemma sieve_inv_start: "sieve_inv goal quiet primes_main"
  by (auto simp: sieve_inv_def primes_main_def survives_def)

lemma receive_None:
  "receive goal quiet i ts = None \<longleftrightarrow> (\<exists>us. ts = First # us \<and> goal < i)"
  by (cases "(goal, quiet, i, ts)" rule: receive.cases) auto

lemma sieve_inv_step:
  assumes "primes_step goal quiet s s'" "sieve_inv goal quiet s"
  shows "sieve_inv goal quiet s'"
  using assms(1)
proof cases
  case from_main
  from assms(2) have s: "sieving (sending s) [] (chain s)" "2 \<le> sending s" by (simp_all add: sieve_inv_def)
  have sv: "survives [] (sending s)" using s(2) by (simp add: survives_def)
  show ?thesis
  proof (cases "receive goal quiet (sending s) (chain s)")
    case None
    then obtain us where us: "chain s = First # us" "goal < sending s" by (auto simp: receive_None)
    with sieving_first [of us] s(1) have c: "chain s = [First]" by auto
    have "least_survivor [] (sending s)" using s(1) sv by (auto simp: c least_survivor_def) (meson not_less)
    with None us(2) assms(2) from_main show ?thesis
      by (auto simp: handed_def sieve_inv_def c)
  next
    case (Some r)
    obtain ts out where r: "r = (ts, out)" by (cases r)
    from receive_sieving [OF s(1) sv from_main(3) Some [unfolded r]] Some r assms(2) from_main
    show ?thesis by (auto simp: handed_def sieve_inv_def)
  qed
next
  case (from_task before p i ts)
  from assms(2) have s: "sieving (sending s) [] (before @ Pass p i # ts)"
    by (simp add: sieve_inv_def from_task(3))
  show ?thesis
  proof (cases "receive goal quiet i ts")
    case None
    then obtain us where us: "ts = First # us" "goal < i" by (auto simp: receive_None)
    have "us = []" using sieving_suffix [OF s] us sieving_first [of us] by (cases "us = []") auto
    with us sieving_last [of "sending s" "[]" before p i] s
    have "least_survivor (primes_of (chain s)) i" by (simp add: from_task(3))
    with None us(2) assms(2) from_task show ?thesis
      by (auto simp: handed_def sieve_inv_def)
  next
    case (Some r)
    obtain ts' out where r: "r = (ts', out)" by (cases r)
    note step = sieving_handed [OF s from_task(4) Some [unfolded r]]
    from sieving_suffix [OF s] obtain g qs where "sieving g qs (Pass p i # ts)" by auto
    then have "sieving i (qs @ [p]) ts" "survives (qs @ [p]) i" by auto
    from receive_sieving [OF this from_task(4) Some [unfolded r]] step Some r assms(2) from_task(1-3)
    show ?thesis by (auto simp: handed_def sieve_inv_def)
  qed
qed

text \<open>As long as the program has not ended, some pair of tasks can move.\<close>

lemma can_move:
  assumes "sieving f ps ts" "\<not> receives ts"
  shows "\<exists>before p i us. ts = before @ Pass p i # us \<and> receives us"
  using assms
proof (induction f ps ts rule: sieving.induct)
  case (3 f ps p i ts)
  then have s: "sieving i (ps @ [p]) ts" by simp
  show ?case
  proof (cases "receives ts")
    case True
    then show ?thesis by (intro exI [of _ "[]"]) simp
  next
    case False
    with 3 s obtain before q j us where "ts = before @ Pass q j # us" "receives us" by blast
    then show ?thesis by (intro exI [of _ "Pass p i # before"]) simp
  qed
qed (auto simp: receives_def)

lemma primes_progress: "sieve_inv goal quiet s \<Longrightarrow> \<not> ended s \<Longrightarrow> \<exists>s'. primes_step goal quiet s s'"
  using can_move [of "sending s" "[]" "chain s"]
  by (cases "receives (chain s)") (auto simp: sieve_inv_def intro: primes_step.intros)

lemma primes_reach_inv: "(primes_step goal quiet)\<^sup>*\<^sup>* primes_main s \<Longrightarrow> sieve_inv goal quiet s"
  by (induction rule: rtranclp_induct) (auto intro: sieve_inv_start sieve_inv_step)

subsection \<open>Every run ends\<close>

text \<open>
  There is a prime above every number, and it gets through to the end of the chain; so the main task
  can be only so far ahead of the last prime, in a chain that has at most \<open>goal\<close> tasks.
\<close>

lemma prime_above: "\<exists>q. is_prime q \<and> n < q"
proof -
  let ?x = "fact (nat n) + 1 :: int"
  have "2 \<le> ?x" using fact_ge_1 [of "nat n", where 'a = int] by linarith
  with prime_factor obtain q where q: "is_prime q" "q dvd ?x" by blast
  have "n < q"
  proof (rule ccontr)
    assume "\<not> n < q"
    with q(1) have "1 \<le> nat q" "nat q \<le> nat n" by (auto simp: is_prime_def)
    then have "nat q dvd fact (nat n)" by (rule dvd_fact)
    then have "int (nat q) dvd int (fact (nat n))" by (simp only: int_dvd_int_iff)
    with q(1) have "q dvd fact (nat n)" by (simp add: is_prime_def)
    with q(2) have "q dvd 1" using dvd_add_right_iff by blast
    with q(1) show False by (auto simp: is_prime_def zdvd1_eq)
  qed
  with q(1) show ?thesis by blast
qed

lemma large_survives:
  assumes "is_prime q" "\<forall>p \<in> set ps. 2 \<le> p \<and> p < q"
  shows "survives ps q"
  using assms by (force simp: is_prime_def survives_def)

lemma sieving_bound:
  "\<exists>b. \<forall>f ps ts. sieving f ps ts \<longrightarrow> length ts \<le> k \<longrightarrow>
     (\<forall>p \<in> set (ps @ primes_of ts). 2 \<le> p \<and> p \<le> goal) \<longrightarrow> f \<le> b"
proof (induction k)
  case 0
  have "\<not> sieving f ps []" for f ps by simp
  then show ?case by auto
next
  case (Suc k)
  then obtain b where b: "sieving f ps ts \<Longrightarrow> length ts \<le> k \<Longrightarrow>
      \<forall>p \<in> set (ps @ primes_of ts). 2 \<le> p \<and> p \<le> goal \<Longrightarrow> f \<le> b" for f ps ts by blast
  obtain q where q: "is_prime q" "max goal b < q" using prime_above by blast
  have "f \<le> q" if s: "sieving f ps ts" and l: "length ts \<le> Suc k"
    and p: "\<forall>p \<in> set (ps @ primes_of ts). 2 \<le> p \<and> p \<le> goal" for f ps ts
  proof -
    have sv: "survives rs q" if "set rs \<subseteq> set (ps @ primes_of ts)" for rs
      using that p q(2) by (intro large_survives [OF q(1)]) fastforce
    from s consider "ts = [First]" "\<forall>x < f. \<not> survives ps x"
      | r us where "ts = Loop r # us" "sieving f (ps @ [r]) us"
      | r i us where "ts = Pass r i # us" "sieving i (ps @ [r]) us"
          "\<forall>x. i < x \<longrightarrow> x < f \<longrightarrow> \<not> survives (ps @ [r]) x"
      by (cases "(f, ps, ts)" rule: sieving.cases) auto
    then show ?thesis
    proof cases
      case 1
      have "survives ps q" by (rule sv) auto
      with 1(2) show ?thesis by (meson not_less)
    next
      case 2
      from b [OF 2(2)] l p 2(1) have "f \<le> b" by simp
      with q(2) show ?thesis by simp
    next
      case 3
      from b [OF 3(2)] l p 3(1) have "i \<le> b" by simp
      with q(2) have "i < q" by simp
      moreover have "survives (ps @ [r]) q" by (rule sv) (auto simp: 3(1))
      ultimately show ?thesis using 3(3) by (meson not_less)
    qed
  qed
  then show ?case by blast
qed

lemma sieving_length: "sieving f ps ts \<Longrightarrow> length ts = Suc (length (primes_of ts))"
  by (induction f ps ts rule: sieving.induct) auto

lemma chain_primes:
  assumes "sieve_inv goal quiet s"
  shows "\<forall>p \<in> set (primes_of (chain s)). 2 \<le> p \<and> p \<le> goal" "length (chain s) \<le> Suc (nat goal)"
proof -
  let ?ps = "primes_of (chain s)"
  have sv: "sieving (sending s) [] (chain s)" and le: "\<forall>p \<in> set ?ps. p \<le> goal"
    using assms by (simp_all add: sieve_inv_def)
  have "sifted ?ps" using sieving_sifted [OF sv] by (simp add: sifted_def)
  note pr = sifted_primes [OF this]
  with le show ps: "\<forall>p \<in> set ?ps. 2 \<le> p \<and> p \<le> goal" by (auto simp: is_prime_def)
  have "distinct ?ps" using pr by (metis sorted_wrt_map strict_sorted_iff list.map_ident)
  then have d: "length ?ps = card (set ?ps)" by (rule distinct_card [symmetric])
  have "set ?ps \<subseteq> {1..goal}"
  proof
    fix q assume "q \<in> set ?ps"
    with ps have "2 \<le> q \<and> q \<le> goal" by blast
    then show "q \<in> {1..goal}" by simp
  qed
  then have "card (set ?ps) \<le> card {1..goal}" by (intro card_mono) simp_all
  then show "length (chain s) \<le> Suc (nat goal)" using d sieving_length [OF sv] by simp
qed

text \<open>How many times the numbers in the chain can still be handed on, in a chain of at most \<open>k\<close> tasks.\<close>

fun hops :: "nat \<Rightarrow> ptask list \<Rightarrow> nat" where
  "hops k [] = 0"
| "hops k (Pass p i # ts) = k + hops (k - 1) ts"
| "hops k (t # ts) = hops (k - 1) ts"

lemma hops_receive:
  assumes "receive goal quiet i ts = Some (ts', out)" "receives ts" "\<And>us. ts = First # us \<Longrightarrow> us = []"
  shows "hops k ts' \<le> k + hops k ts"
proof -
  from assms(2) consider us where "ts = First # us" | p us where "ts = Loop p # us"
    by (auto simp: receives_def split: list.splits ptask.splits)
  then show ?thesis using assms(1,3) by cases (auto split: if_splits)
qed

lemma hops_handed:
  assumes "hops (k - Suc (length before)) ts' \<le> k - Suc (length before) + hops (k - Suc (length before)) ts"
    "length before < k"
  shows "hops k (before @ Loop p # ts') < hops k (before @ Pass p i # ts)"
  using assms
proof (induction before arbitrary: k)
  case (Cons t before)
  from Cons.IH [of "k - 1"] Cons.prems show ?case by (cases t) simp_all
qed auto

lemma sieve_measure:
  assumes inv: "sieve_inv goal quiet s" and st: "primes_step goal quiet s s'"
    and b: "\<And>s. sieve_inv goal quiet s \<Longrightarrow> sending s \<le> b" and k: "k = Suc (nat goal)"
  defines "m \<equiv> \<lambda>s. if ended s then 0 else Suc (nat (b - sending s) * Suc k + hops k (chain s))"
  shows "m s' < m s"
proof -
  have inv': "sieve_inv goal quiet s'" using st inv by (rule sieve_inv_step)
  have len: "length (chain s') \<le> k" using chain_primes(2) [OF inv'] k by simp
  show ?thesis
    using st
  proof cases
    case from_main
    have sv: "sieving (sending s) [] (chain s)" using inv by (simp add: sieve_inv_def)
    show ?thesis
    proof (cases "receive goal quiet (sending s) (chain s)")
      case None
      with from_main show ?thesis by (simp add: m_def handed_def)
    next
      case (Some r)
      obtain ts out where r: "r = (ts, out)" by (cases r)
      have one: "us = []" if "chain s = First # us" for us
        using sv sieving_first [of us] that by (cases "us = []") auto
      from hops_receive [OF Some [unfolded r] from_main(3) one]
      have h: "hops k ts \<le> k + hops k (chain s)" .
      have s': "sending s' = sending s + 1" "chain s' = ts" "ended s' = ended s"
        using Some r from_main by (simp_all add: handed_def)
      with b [OF inv'] have "nat (b - sending s) = Suc (nat (b - sending s'))" by simp
      with h from_main(2) s' show ?thesis by (simp add: m_def)
    qed
  next
    case (from_task before p i ts)
    show ?thesis
    proof (cases "receive goal quiet i ts")
      case None
      with from_task show ?thesis by (simp add: m_def handed_def)
    next
      case (Some r)
      obtain ts' out where r: "r = (ts', out)" by (cases r)
      have sv: "sieving (sending s) [] (before @ Pass p i # ts)"
        using inv from_task(3) by (simp add: sieve_inv_def)
      then obtain g qs where "sieving g qs (Pass p i # ts)" using sieving_suffix [of _ _ before] by blast
      then have "sieving i (qs @ [p]) ts" by simp
      then have one: "us = []" if "ts = First # us" for us
        using sieving_first [of us] that by (cases "us = []") auto
      have s': "sending s' = sending s" "chain s' = before @ Loop p # ts'" "ended s' = ended s"
        using Some r from_task by (simp_all add: handed_def)
      have "length before < k" using len s'(2) by simp
      from hops_handed [OF hops_receive [OF Some [unfolded r] from_task(4) one] this]
      have "hops k (chain s') < hops k (chain s)" by (simp add: s'(2) from_task(3))
      with from_task(2) s' show ?thesis by (simp add: m_def)
    qed
  qed
qed

lemma sieve_ends: "\<exists>b. {n. \<exists>s. (primes_step goal quiet ^^ n) primes_main s} \<subseteq> {..b}"
proof -
  obtain b where b: "\<forall>f ps ts. sieving f ps ts \<longrightarrow> length ts \<le> Suc (nat goal) \<longrightarrow>
      (\<forall>p \<in> set (ps @ primes_of ts). 2 \<le> p \<and> p \<le> goal) \<longrightarrow> f \<le> b"
    using sieving_bound [of "Suc (nat goal)" goal] by blast
  have le: "sending s \<le> b" if "sieve_inv goal quiet s" for s
  proof -
    have "sieving (sending s) [] (chain s)" using that by (simp add: sieve_inv_def)
    with b chain_primes [OF that] show ?thesis by (metis append_Nil)
  qed
  let ?m = "\<lambda>s. if ended s then 0 else
    Suc (nat (b - sending s) * Suc (Suc (nat goal)) + hops (Suc (nat goal)) (chain s))"
  have "sieve_inv goal quiet s \<and> n + ?m s \<le> ?m primes_main"
    if "(primes_step goal quiet ^^ n) primes_main s" for n s
    using that
  proof (induction n arbitrary: s)
    case 0
    then show ?case by (simp add: sieve_inv_start)
  next
    case (Suc n)
    then obtain s0 where s0: "(primes_step goal quiet ^^ n) primes_main s0" "primes_step goal quiet s0 s" by auto
    from Suc.IH [OF s0(1)] have ih: "sieve_inv goal quiet s0" "n + ?m s0 \<le> ?m primes_main" by simp_all
    from sieve_measure [OF ih(1) s0(2) le refl] have "?m s < ?m s0" .
    with ih sieve_inv_step [OF s0(2)] show ?case by simp
  qed
  then show ?thesis by (intro exI [of _ "?m primes_main"]) (fastforce simp del: One_nat_def)
qed

end
