(* ===== verification/Programs.thy ===== *)
theory Programs
  imports Fd
begin

text \<open>
  The other example programs. Their tasks use the library only through its interface, so a task is
  modelled by the events that others can see, for given results of the calls it makes; the schedules
  are all interleavings of the tasks' events, or, where a program depends on it, the round robin of the
  scheduler.
\<close>

subsection \<open>tcpproxy.c\<close>

datatype event =
    Serve int                  \<comment> \<open>\<open>taskcreate(proxytask, cfd)\<close>\<close>
  | Relay int int              \<comment> \<open>\<open>taskcreate(rwtask, mkfd2(r, w))\<close>\<close>
  | Put int "byte list"        \<comment> \<open>\<open>fdwrite\<close>\<close>
  | Shut int                   \<comment> \<open>\<open>shutdown(fd, SHUT_WR)\<close>\<close>
  | Closed int                 \<comment> \<open>\<open>close\<close>\<close>
  | Noblock int                \<comment> \<open>\<open>fdnoblock\<close>\<close>
  | Say string                 \<comment> \<open>\<open>fprintf(stderr)\<close> or a byte on the terminal\<close>

definition mkfd2 :: "bool \<Rightarrow> int \<Rightarrow> int \<Rightarrow> halt + int \<times> int" where
  "mkfd2 malloc_ok fd1 fd2 = (if malloc_ok then Inr (fd1, fd2) else Inl (Abort ''out of memory''))"

text \<open>
  \<open>proxy_main\<close> is \<open>taskmain\<close>: the number of arguments, the result of \<open>netannounce\<close> and the results of
  \<open>netaccept\<close> are given; the loop ends when \<open>netaccept\<close> fails.
\<close>

fun accept_loop :: "int list \<Rightarrow> event list" where
  "accept_loop [] = []"
| "accept_loop (cfd # rs) =
     (if cfd \<ge> 0 then Say ''connection'' # Serve cfd # accept_loop rs else [])"

definition proxy_main :: "int \<Rightarrow> int \<Rightarrow> int list \<Rightarrow> event list \<times> halt option" where
  "proxy_main argc fd accepts =
     (if argc \<noteq> 4 then ([Say ''usage''], Some (Exit 1))
      else if fd < 0 then ([Say ''cannot announce''], Some (Exit 1))
      else (Noblock fd # accept_loop accepts, None))"

text \<open>\<open>proxytask\<close>, with the result of \<open>netdial\<close>.\<close>

definition proxytask :: "int \<Rightarrow> int \<Rightarrow> bool \<Rightarrow> halt + event list" where
  "proxytask fd remotefd malloc_ok =
     (if remotefd < 0 then Inr [Closed fd]
      else
        bindR (mkfd2 malloc_ok fd remotefd) (\<lambda>(r1, w1).
        bindR (mkfd2 malloc_ok remotefd fd) (\<lambda>(r2, w2).
        Inr [Say ''connected'', Relay r1 w1, Relay r2 w2])))"

text \<open>
  \<open>rwtask\<close>: the results of \<open>fdread\<close> are given as its value and the contents of the buffer. While there
  is no further result, the task is waiting in \<open>fdread\<close>.
\<close>

fun rw_loop :: "int \<Rightarrow> (int \<times> byte list) list \<Rightarrow> event list \<times> bool" where
  "rw_loop wfd [] = ([], False)"
| "rw_loop wfd ((n, bytes) # rs) =
     (if n > 0 then (case rw_loop wfd rs of (es, ended) \<Rightarrow> (Put wfd (take (nat n) bytes) # es, ended))
      else ([], True))"

definition rwtask :: "int \<times> int \<Rightarrow> (int \<times> byte list) list \<Rightarrow> event list" where
  "rwtask a reads =
     (case a of (rfd, wfd) \<Rightarrow>
      case rw_loop wfd reads of (es, ended) \<Rightarrow> es @ (if ended then [Shut wfd, Closed rfd] else []))"

subsection \<open>httpload.c\<close>

text \<open>
  One round of the loop of \<open>fetchtask\<close>: the result of \<open>netdial\<close>, the text made by \<open>snprintf\<close> (of which
  511 characters fit the buffer), the number of reads that return data.
\<close>

definition request :: "string \<Rightarrow> string \<Rightarrow> string" where
  "request url server =
     take 511 (''GET '' @ url @ '' HTTP/1.0'' @ [CHR 0x0D, CHR 0x0A] @ ''Host: '' @ server @
       [CHR 0x0D, CHR 0x0A, CHR 0x0D, CHR 0x0A])"

definition fetch_round :: "string \<Rightarrow> string \<Rightarrow> int \<Rightarrow> event list" where
  "fetch_round url server fd =
     (if fd < 0 then [Say ''dial''] else
       [Put fd (map of_char (request url server)), Closed fd, Put 1 [of_char CHR ''.'']])"

definition fetchtask :: "string \<Rightarrow> string \<Rightarrow> int list \<Rightarrow> event list" where
  "fetchtask url server dials = Say ''starting...'' # concat (map (fetch_round url server) dials)"

text \<open>
  \<open>taskmain\<close>: after each \<open>taskcreate\<close> it yields until \<open>taskyield\<close>, whose results are given, says that
  at most one other task ran. The result is the number of tasks created and whether the loop ended.
\<close>

fun httpload_loop :: "nat \<Rightarrow> int list \<Rightarrow> nat \<times> bool" where
  "httpload_loop 0 yields = (0, True)"
| "httpload_loop (Suc n) yields =
     (case dropWhile (\<lambda>r. r > 1) yields of
        [] \<Rightarrow> (1, False)
      | r # yields \<Rightarrow> (case httpload_loop n yields of (k, ended) \<Rightarrow> (Suc k, ended)))"

definition httpload_main :: "int \<Rightarrow> nat \<Rightarrow> int list \<Rightarrow> halt + nat \<times> bool" where
  "httpload_main argc n yields =
     (if argc \<noteq> 4 then Inl (Exit 1) else Inr (httpload_loop n yields))"

subsection \<open>testdelay.c and testdelay1.c\<close>

text \<open>
  The tasks that still sleep, with their delays; how many are sending; what has been printed; how many
  messages the main task still waits for; whether the program has ended. A task wakes at any time and
  the unbuffered channel passes one message per step.
\<close>

record delays =
  asleep_ms :: "int list"
  senders :: nat
  awake :: "int list"
  left :: nat
  exited_all :: bool

definition testdelay_main :: "int list \<Rightarrow> delays" where
  "testdelay_main args =
     \<lparr>asleep_ms = args, senders = 0, awake = [], left = length args, exited_all = False\<rparr>"

inductive testdelay_step :: "delays \<Rightarrow> delays \<Rightarrow> bool" where
  delay_over: "\<not> exited_all s \<Longrightarrow> v \<in> set (asleep_ms s) \<Longrightarrow> testdelay_step s
     (s\<lparr>asleep_ms := remove1 v (asleep_ms s), awake := awake s @ [v], senders := senders s + 1\<rparr>)"
| received: "\<not> exited_all s \<Longrightarrow> 0 < left s \<Longrightarrow> 0 < senders s \<Longrightarrow>
     testdelay_step s (s\<lparr>senders := senders s - 1, left := left s - 1\<rparr>)"
| all_received: "\<not> exited_all s \<Longrightarrow> left s = 0 \<Longrightarrow> testdelay_step s (s\<lparr>exited_all := True\<rparr>)"

definition testdelay1_main :: "64 word \<Rightarrow> libc \<Rightarrow> 'a fdst_scheme \<Rightarrow> (32 word, 'a fdst_scheme) co" where
  "testdelay1_main now lib s = taskdelay 1000 now lib s"

subsection \<open>example.c\<close>

text \<open>
  The two counting tasks: the loop variable, from which number and up to which it counts. The main
  task creates both and returns; each turn of the scheduler gives the processor to the first of the
  run queue, which prints and goes to its end when it yields.
\<close>

datatype counter = Count nat int int

fun count_turn :: "counter \<Rightarrow> (nat \<times> int) list \<times> counter option" where
  "count_turn (Count task i n) =
     (if i < n then ([(task, i)], Some (Count task (i + 1) n)) else ([], None))"

text \<open>The fuel is the number of turns.\<close>

fun example_run :: "nat \<Rightarrow> counter list \<Rightarrow> (nat \<times> int) list option" where
  "example_run k [] = Some []"
| "example_run 0 (c # cs) = None"
| "example_run (Suc k) (c # cs) =
     (case count_turn c of (out, c') \<Rightarrow>
      map_option (\<lambda>out'. out @ out')
        (example_run k (cs @ (case c' of None \<Rightarrow> [] | Some c' \<Rightarrow> [c']))))"

definition example_main :: "counter list" where
  "example_main = [Count 1 0 5, Count 2 5 10]"

end
