(* ===== verification/ProgSpec.thy ===== *)
theory ProgSpec
  imports Primes Programs
begin

text \<open>
  The properties of the example programs.
\<close>

text \<open>
  C32: the sieve prints the primes. However the tasks of \<open>primes.c\<close> are scheduled, what has been
  printed is at any time an initial part of the increasing sequence of the primes up to \<open>goal\<close>; when
  the program ends, all of them have been printed; and until then it is never stuck.
\<close>

theorem primes_printed:
  assumes "(primes_step goal False)\<^sup>*\<^sup>* primes_main s"
  shows "sorted_wrt (<) (printed s) \<and> (\<forall>p \<in> set (printed s). is_prime p \<and> p \<le> goal) \<and>
    (\<forall>q. is_prime q \<longrightarrow> (\<exists>p \<in> set (printed s). q \<le> p) \<longrightarrow> q \<in> set (printed s)) \<and>
    (if ended s then set (printed s) = {q. is_prime q \<and> q \<le> goal}
     else \<exists>s'. primes_step goal False s s')"
proof -
  have inv: "sieve_inv goal False s" using assms by (rule primes_reach_inv)
  let ?ps = "primes_of (chain s)"
  have ps: "printed s = ?ps" "\<forall>p \<in> set ?ps. p \<le> goal" and sv: "sieving (sending s) [] (chain s)"
    using inv by (simp_all add: sieve_inv_def)
  have sift: "sifted ?ps" using sieving_sifted [OF sv] by (simp add: sifted_def)
  note pr = sifted_primes [OF sift]
  have "set ?ps = {q. is_prime q \<and> q \<le> goal}" if "ended s"
  proof -
    from that inv obtain p where p: "goal < p" "least_survivor ?ps p" by (auto simp: sieve_inv_def)
    with sift have "sifted (?ps @ [p])" by (simp add: sifted_snoc)
    note all = sifted_primes [OF this]
    have "q \<in> set ?ps" if "is_prime q" "q \<le> goal" for q
      using all that p(1) by force
    with ps(2) pr show ?thesis by auto
  qed
  with ps pr primes_progress [OF inv] show ?thesis by auto
qed

theorem primes_printed_witness:
  "\<exists>s. (primes_step 2 False)\<^sup>*\<^sup>* primes_main s \<and> ended s \<and> set (printed s) = {q. is_prime q \<and> q \<le> 2}"
proof -
  let ?s1 = "\<lparr>sending = 3, chain = [Loop 2, First], printed = [2], ended = False\<rparr>"
  let ?s2 = "\<lparr>sending = 4, chain = [Pass 2 3, First], printed = [2], ended = False\<rparr>"
  let ?s3 = "\<lparr>sending = 4, chain = [Pass 2 3, First], printed = [2], ended = True\<rparr>"
  have "primes_step 2 False primes_main ?s1"
    using primes_step.from_main [of primes_main 2 False]
    by (simp add: primes_main_def receives_def handed_def)
  moreover have "primes_step 2 False ?s1 ?s2"
    using primes_step.from_main [of ?s1 2 False] by (simp add: receives_def handed_def)
  moreover have "primes_step 2 False ?s2 ?s3"
    using primes_step.from_task [of ?s2 "[]" 2 3 "[First]" 2 False] by (simp add: receives_def handed_def)
  ultimately have run: "(primes_step 2 False)\<^sup>*\<^sup>* primes_main ?s3" by (meson converse_rtranclp_into_rtranclp rtranclp.rtrancl_refl)
  with primes_printed [OF run] show ?thesis by (intro exI [of _ ?s3]) simp
qed

text \<open>
  C33: the sieve ends. Whatever \<open>goal\<close> is and however the tasks are scheduled, there is a bound on the
  number of steps that they can make; with the property above, every run leads to the end with all
  primes up to \<open>goal\<close> printed.
\<close>

theorem primes_end: "\<exists>b. {n. \<exists>s. (primes_step goal quiet ^^ n) primes_main s} \<subseteq> {..b}"
  by (rule sieve_ends)

subsection \<open>tcpproxy.c\<close>













subsection \<open>Delays and counters\<close>

text \<open>The program of \<open>testdelay.c\<close> ends only after every task has woken and printed its line.\<close>

lemma testdelay_waits:
  assumes "testdelay_step\<^sup>*\<^sup>* (testdelay_main args) s"
  shows "mset (awake s) + mset (asleep_ms s) = mset args \<and> left s = length (asleep_ms s) + senders s \<and>
    (exited_all s \<longrightarrow> mset (awake s) = mset args)"
  using assms
proof (induction rule: rtranclp_induct)
  case base
  then show ?case by (simp add: testdelay_main_def)
next
  case (step s s')
  from step.hyps(2) show ?case
  proof cases
    case (delay_over v)
    then have "0 < length (asleep_ms s)" by auto
    moreover from delay_over(3) obtain N where "mset (asleep_ms s) = add_mset v N"
      by (metis multi_member_split set_mset_mset)
    ultimately show ?thesis using delay_over step.IH by (auto simp: length_remove1)
  next
    case received
    with step.IH show ?thesis by auto
  next
    case all_received
    with step.IH show ?thesis by auto
  qed
qed

text \<open>The two counting tasks take turns.\<close>

lemma example_output:
  "example_run 12 example_main =
     Some [(1, 0), (2, 5), (1, 1), (2, 6), (1, 2), (2, 7), (1, 3), (2, 8), (1, 4), (2, 9)]"
  by (simp add: example_main_def numeral_eq_Suc)

end
